(* ===== verification/Prelude.thy ===== *)
theory Prelude
  imports Main "HOL-Library.Word"
begin

text \<open>
  What the components share: the integer types of the C sources at their width, the faults a C
  program can run into as values, the sequencing of computations that may fault, C strings, and
  the little-endian layout of words in memory. The lemmas here are the ones several component
  theories rewrite with; the collections \<open>fault_simps\<close> and \<open>mem_simps\<close> gather them.
\<close>

unbundle bit_operations_syntax

section \<open>Machine integers\<close>

type_synonym u8 = "8 word"
type_synonym u16 = "16 word"
type_synonym u32 = "32 word"

text \<open>Addresses of heap objects; \<open>None\<close> is the null pointer.\<close>

type_synonym addr = nat
type_synonym ptr = "nat option"

named_theorems fault_simps \<open>sequencing of computations that may fault\<close>
named_theorems mem_simps \<open>byte layouts in memory\<close>

lemma u8_less: "unat (b :: u8) < 256"
  using unsigned_less [of b, where ?'a = nat] by simp

lemma u16_less: "unat (w :: u16) < 65536"
  using unsigned_less [of w, where ?'a = nat] by simp

lemma u32_less: "unat (w :: u32) < 4294967296"
  using unsigned_less [of w, where ?'a = nat] by simp

lemma all_ones32: "(0xffffffff :: u32) = -1"
  by simp

lemma xor_all_ones32 [simp]: "w XOR (0xffffffff :: u32) = NOT w"
  by (simp only: all_ones32 bit.xor_one_right)

section \<open>Lists\<close>

lemma take_upt_min: "take k [0..<n] = [0..<min n k]"
  by (cases "k \<le> n") (simp_all add: min_def)

lemma list_all_take_le: "list_all P (take k xs) \<Longrightarrow> m \<le> k \<Longrightarrow> list_all P (take m xs)"
  by (auto simp: list_all_iff dest: set_take_subset_set_take [THEN subsetD])

lemma list_all_take_drop: "list_all P (take (k + n) xs) \<Longrightarrow> list_all P (take n (drop k xs))"
  by (auto simp: list_all_iff take_drop add.commute dest: in_set_dropD)

section \<open>Faults\<close>

text \<open>
  What a C program may do besides returning: read or write outside an object, follow a null
  pointer, use an object after \<open>free\<close>, leave through \<open>exit\<close>, or wait for ever.
\<close>

datatype fault =
    OutOfBounds
  | NullDeref
  | UseAfterFree
  | Exit int
  | Blocked

definition bindF :: "fault + 'a \<Rightarrow> ('a \<Rightarrow> fault + 'b) \<Rightarrow> fault + 'b" where
  "bindF m f = (case m of Inl e \<Rightarrow> Inl e | Inr x \<Rightarrow> f x)"

lemma bindF_Inl [simp, fault_simps]: "bindF (Inl e) f = Inl e"
  by (simp add: bindF_def)

lemma bindF_Inr [simp, fault_simps]: "bindF (Inr x) f = f x"
  by (simp add: bindF_def)

lemma bindF_eq_Inr [fault_simps]:
  "bindF m f = Inr y \<longleftrightarrow> (\<exists>x. m = Inr x \<and> f x = Inr y)"
  by (cases m) auto

lemma bindF_eq_Inl [fault_simps]:
  "bindF m f = Inl e \<longleftrightarrow> m = Inl e \<or> (\<exists>x. m = Inr x \<and> f x = Inl e)"
  by (cases m) auto

lemma bindF_InrE [elim]:
  assumes "bindF m f = Inr y"
  obtains x where "m = Inr x" "f x = Inr y"
  using assms by (cases m) auto

lemma bindF_assoc: "bindF (bindF m f) g = bindF m (\<lambda>x. bindF (f x) g)"
  by (cases m) auto

lemma bindF_cong [fundef_cong]:
  "m = m' \<Longrightarrow> (\<And>x. m' = Inr x \<Longrightarrow> f x = g x) \<Longrightarrow> bindF m f = bindF m' g"
  by (cases m') auto

text \<open>Following a pointer into a store of heap objects.\<close>

definition deref :: "(addr \<rightharpoonup> 'o) \<Rightarrow> ptr \<Rightarrow> fault + addr \<times> 'o" where
  "deref h p = (case p of
     None \<Rightarrow> Inl NullDeref
   | Some a \<Rightarrow> (case h a of None \<Rightarrow> Inl UseAfterFree | Some ob \<Rightarrow> Inr (a, ob)))"

lemma deref_None [simp, fault_simps]: "deref h None = Inl NullDeref"
  by (simp add: deref_def)

lemma deref_alloc [simp, fault_simps]: "h a = Some ob \<Longrightarrow> deref h (Some a) = Inr (a, ob)"
  by (simp add: deref_def)

lemma deref_freed [simp, fault_simps]: "h a = None \<Longrightarrow> deref h (Some a) = Inl UseAfterFree"
  by (simp add: deref_def)

lemma deref_eq_Inr [fault_simps]:
  "deref h p = Inr (a, ob) \<longleftrightarrow> p = Some a \<and> h a = Some ob"
  by (auto simp: deref_def split: option.splits)

section \<open>C strings\<close>

text \<open>
  A C string is the list of its characters before the terminating zero byte. \<open>cstr\<close> is the
  C string that starts at the head of a list of characters. \<open>snprintf_s n s\<close> is the C string
  that \<open>snprintf(buf, n, "%s", s)\<close> leaves in \<open>buf\<close>.
\<close>

definition nul :: char where
  "nul = CHR 0x00"

definition cstr :: "string \<Rightarrow> string" where
  "cstr s = takeWhile (\<lambda>c. c \<noteq> nul) s"

definition snprintf_s :: "nat \<Rightarrow> string \<Rightarrow> string" where
  "snprintf_s n s = take (n - 1) s"

definition str_bytes :: "string \<Rightarrow> u8 list" where
  "str_bytes s = map of_char s"

definition bytes_str :: "u8 list \<Rightarrow> string" where
  "bytes_str bs = map (\<lambda>b. char_of (unat b)) bs"

lemma length_str_bytes [simp]: "length (str_bytes s) = length s"
  by (simp add: str_bytes_def)

lemma str_bytes_append [simp]: "str_bytes (s @ t) = str_bytes s @ str_bytes t"
  by (simp add: str_bytes_def)

lemma str_bytes_Nil [simp]: "str_bytes [] = []"
  by (simp add: str_bytes_def)

lemma unat_of_char: "unat (of_char c :: u8) = of_char c"
proof -
  have "(of_char c :: u8) = word_of_nat (of_char c)"
    by (simp only: of_nat_of_char)
  moreover have "of_char c < (256::nat)"
    by (rule nat_of_char_less_256)
  ultimately show ?thesis
    by (simp add: unsigned_of_nat take_bit_nat_eq_self)
qed

lemma bytes_str_str_bytes [simp]: "bytes_str (str_bytes s) = s"
  by (induction s) (simp_all add: bytes_str_def str_bytes_def unat_of_char)

lemma snprintf_s_id: "length s < n \<Longrightarrow> snprintf_s n s = s"
  by (simp add: snprintf_s_def)

lemma length_snprintf_s: "0 < n \<Longrightarrow> length (snprintf_s n s) < n"
  by (simp add: snprintf_s_def)

lemma cstr_id: "nul \<notin> set s \<Longrightarrow> cstr s = s"
  by (auto simp: cstr_def takeWhile_eq_all_conv)

lemma nul_notin_cstr: "nul \<notin> set (cstr s)"
  by (auto simp: cstr_def dest: set_takeWhileD)

section \<open>Words in memory\<close>

text \<open>The bytes of a 32-bit word, lowest address first, on a little- or big-endian host.\<close>

definition le32 :: "u32 \<Rightarrow> u8 list" where
  "le32 w = [ucast w, ucast (drop_bit 8 w), ucast (drop_bit 16 w), ucast (drop_bit 24 w)]"

definition mem32 :: "bool \<Rightarrow> u32 \<Rightarrow> u8 list" where
  "mem32 big w = (if big then rev (le32 w) else le32 w)"

definition of_le32 :: "u8 \<Rightarrow> u8 \<Rightarrow> u8 \<Rightarrow> u8 \<Rightarrow> u32" where
  "of_le32 a b c d =
     ucast a OR push_bit 8 (ucast b) OR push_bit 16 (ucast c) OR push_bit 24 (ucast d)"

lemma length_le32 [simp, mem_simps]: "length (le32 w) = 4"
  by (simp add: le32_def)

lemma length_mem32 [simp, mem_simps]: "length (mem32 big w) = 4"
  by (simp add: mem32_def)

lemma of_le32_bytes [mem_simps]:
  "of_le32 (ucast w) (ucast (drop_bit 8 w)) (ucast (drop_bit 16 w)) (ucast (drop_bit 24 w)) = w"
proof (rule bit_word_eqI)
  fix n assume "n < LENGTH(32)"
  then have n: "n < 32" by simp
  consider "n < 8" | "8 \<le> n" "n < 16" | "16 \<le> n" "n < 24" | "24 \<le> n" "n < 32"
    using n by linarith
  then show "bit (of_le32 (ucast w) (ucast (drop_bit 8 w)) (ucast (drop_bit 16 w))
      (ucast (drop_bit 24 w))) n = bit w n"
    by cases (auto simp: of_le32_def bit_simps)
qed

lemma bit_u8_ge: "8 \<le> n \<Longrightarrow> \<not> bit (b :: u8) n"
  using bit_imp_le_length [of b n] by auto

lemma le32_of_le32 [mem_simps]: "le32 (of_le32 a b c d) = [a, b, c, d]"
  by (auto simp: le32_def of_le32_def bit_simps bit_u8_ge intro!: bit_word_eqI)

lemma le32_inj: "le32 v = le32 w \<Longrightarrow> v = w"
proof -
  assume eq: "le32 v = le32 w"
  have "v = of_le32 (le32 v ! 0) (le32 v ! 1) (le32 v ! 2) (le32 v ! 3)"
    by (simp add: le32_def of_le32_bytes)
  also have "\<dots> = w"
    by (simp only: eq) (simp add: le32_def of_le32_bytes)
  finally show ?thesis .
qed

end
