(* ===== verification/Packet.thy ===== *)
theory Packet
  imports Prelude
begin

text \<open>
  The wire packets of the ADB protocol (\<open>zadb.h\<close>), their checks and checksum
  (\<open>transport_z.c\<close>), their byte order (\<open>transport_usb.c\<close>) and their printed form
  (\<open>send.c\<close>). The payload array \<open>data[MAX_PAYLOAD]\<close> is a function from its indices, and every
  read of it is guarded by its bound, so that reading past it is the value
  \<open>Inl OutOfBounds\<close>.
\<close>

section \<open>Data\<close>

definition MAX_PAYLOAD :: nat where "MAX_PAYLOAD = 4096"

definition A_SYNC :: u32 where "A_SYNC = 0x434e5953"
definition A_CNXN :: u32 where "A_CNXN = 0x4e584e43"
definition A_OPEN :: u32 where "A_OPEN = 0x4e45504f"
definition A_OKAY :: u32 where "A_OKAY = 0x59414b4f"
definition A_CLSE :: u32 where "A_CLSE = 0x45534c43"
definition A_WRTE :: u32 where "A_WRTE = 0x45545257"
definition A_VERSION :: u32 where "A_VERSION = 0x01000000"

lemmas command_defs = A_SYNC_def A_CNXN_def A_OPEN_def A_OKAY_def A_CLSE_def A_WRTE_def

record amessage =
  command :: u32
  arg0 :: u32
  arg1 :: u32
  data_length :: u32
  data_check :: u32
  magic :: u32

record apacket =
  nxt :: ptr
  plen :: u32
  pptr :: ptr
  msg :: amessage
  data :: "nat \<Rightarrow> u8"

definition zero_message :: amessage where
  "zero_message = \<lparr>command = 0, arg0 = 0, arg1 = 0, data_length = 0, data_check = 0, magic = 0\<rparr>"

text \<open>The bytes of the payload a packet announces.\<close>

definition payload :: "apacket \<Rightarrow> u8 list" where
  "payload p = map (data p) [0..<unat (data_length (msg p))]"

text \<open>\<open>memcpy\<close> and \<open>snprintf\<close> into the payload array at offset 0.\<close>

definition store_bytes :: "u8 list \<Rightarrow> (nat \<Rightarrow> u8) \<Rightarrow> nat \<Rightarrow> u8" where
  "store_bytes bs d = (\<lambda>i. if i < length bs then bs ! i else d i)"

lemma map_store_bytes [simp]: "map (store_bytes bs d) [0..<length bs] = bs"
  by (rule nth_equalityI) (simp_all add: store_bytes_def)

lemma payload_in_bounds: "length (payload p) = unat (data_length (msg p))"
  by (simp add: payload_def)

section \<open>Checksum and header checks\<close>

text \<open>The summing loop \<open>while(count-- > 0) sum += *x++\<close>, with \<open>x\<close> an index of \<open>data\<close>.\<close>

fun sum_loop :: "(nat \<Rightarrow> u8) \<Rightarrow> nat \<Rightarrow> nat \<Rightarrow> u32 \<Rightarrow> fault + u32" where
  "sum_loop d x 0 acc = Inr acc"
| "sum_loop d x (Suc count) acc =
     (if x < MAX_PAYLOAD then sum_loop d (Suc x) count (acc + ucast (d x)) else Inl OutOfBounds)"

definition payload_sum :: "apacket \<Rightarrow> fault + u32" where
  "payload_sum p = sum_loop (data p) 0 (unat (data_length (msg p))) 0"

definition check_header :: "apacket \<Rightarrow> int" where
  "check_header p =
     (if magic (msg p) \<noteq> command (msg p) XOR 0xffffffff then -1
      else if unat (data_length (msg p)) > MAX_PAYLOAD then -1
      else 0)"

definition check_data :: "apacket \<Rightarrow> fault + int" where
  "check_data p = bindF (payload_sum p) (\<lambda>sum.
     if sum \<noteq> data_check (msg p) then Inr (-1) else Inr 0)"

text \<open>What \<open>send_packet\<close> does to the packet before it hands it to the transport.\<close>

definition finalize_packet :: "apacket \<Rightarrow> fault + apacket" where
  "finalize_packet p =
     (let p1 = p\<lparr>msg := (msg p)\<lparr>magic := command (msg p) XOR 0xffffffff\<rparr>\<rparr>
      in bindF (payload_sum p1) (\<lambda>sum. Inr (p1\<lparr>msg := (msg p1)\<lparr>data_check := sum\<rparr>\<rparr>)))"

text \<open>The checksum as the sum of the payload's bytes.\<close>

definition byte_sum :: "u8 list \<Rightarrow> nat" where
  "byte_sum bs = sum_list (map unat bs)"

lemma byte_sum_simps [simp]:
  "byte_sum [] = 0" "byte_sum (b # bs) = unat b + byte_sum bs"
  "byte_sum (xs @ ys) = byte_sum xs + byte_sum ys"
  by (simp_all add: byte_sum_def)

lemma byte_sum_bound: "byte_sum bs \<le> 255 * length bs"
proof (induction bs)
  case (Cons b bs)
  have "unat b < 256" by (rule u8_less)
  with Cons show ?case by simp
qed simp

lemma sum_loop_ok:
  "x + n \<le> MAX_PAYLOAD \<Longrightarrow>
     sum_loop d x n acc = Inr (acc + of_nat (byte_sum (map d [x..<x + n])))"
proof (induction n arbitrary: x acc)
  case (Suc n)
  have "map d [x..<x + Suc n] = d x # map d [Suc x..<Suc x + n]"
    by (simp add: upt_conv_Cons del: upt_Suc)
  moreover have "(of_nat (unat (d x)) :: u32) = ucast (d x)"
    by simp
  ultimately show ?case using Suc by (simp add: add.assoc)
qed simp

lemma sum_loop_fault:
  "x \<le> MAX_PAYLOAD \<Longrightarrow> MAX_PAYLOAD < x + n \<Longrightarrow> sum_loop d x n acc = Inl OutOfBounds"
  by (induction n arbitrary: x acc) auto

lemma payload_sum_ok:
  "unat (data_length (msg p)) \<le> MAX_PAYLOAD \<Longrightarrow>
     payload_sum p = Inr (of_nat (byte_sum (payload p)))"
  using sum_loop_ok [of 0 "unat (data_length (msg p))" "data p" 0]
  by (simp add: payload_sum_def payload_def)

lemma payload_sum_fault:
  "MAX_PAYLOAD < unat (data_length (msg p)) \<Longrightarrow> payload_sum p = Inl OutOfBounds"
  by (simp add: payload_sum_def sum_loop_fault)

lemma byte_sum_fits:
  "length bs \<le> MAX_PAYLOAD \<Longrightarrow> unat (of_nat (byte_sum bs) :: u32) = byte_sum bs"
  using byte_sum_bound [of bs] by (simp add: MAX_PAYLOAD_def unsigned_of_nat take_bit_nat_eq_self)

lemma check_data_iff:
  assumes "unat (data_length (msg p)) \<le> MAX_PAYLOAD"
  shows "check_data p = Inr (if byte_sum (payload p) = unat (data_check (msg p)) then 0 else -1)"
proof -
  have "length (payload p) \<le> MAX_PAYLOAD" using assms by (simp add: payload_in_bounds)
  then have "unat (of_nat (byte_sum (payload p)) :: u32) = byte_sum (payload p)"
    by (rule byte_sum_fits)
  then show ?thesis
    using payload_sum_ok [OF assms] by (auto simp: check_data_def word_unat_eq_iff)
qed

lemma finalize_packet_ok:
  assumes "unat (data_length (msg p)) \<le> MAX_PAYLOAD"
  shows "finalize_packet p = Inr (p\<lparr>msg := (msg p)\<lparr>
           magic := command (msg p) XOR 0xffffffff,
           data_check := of_nat (byte_sum (payload p))\<rparr>\<rparr>)"
proof -
  let ?p1 = "p\<lparr>msg := (msg p)\<lparr>magic := command (msg p) XOR 0xffffffff\<rparr>\<rparr>"
  have "payload ?p1 = payload p" by (simp add: payload_def)
  then have "payload_sum ?p1 = Inr (of_nat (byte_sum (payload p)))"
    using payload_sum_ok [of ?p1] assms by simp
  then show ?thesis by (simp add: finalize_packet_def Let_def)
qed

lemma check_header_0_iff:
  "check_header p = 0 \<longleftrightarrow>
     magic (msg p) = NOT (command (msg p)) \<and> unat (data_length (msg p)) \<le> MAX_PAYLOAD"
  by (auto simp: check_header_def)

section \<open>Byte order\<close>

text \<open>
  \<open>big\<close> is the build's \<open>HAVE_BIG_ENDIAN\<close>. The macro \<open>H4\<close> swaps the bytes of a word;
  \<open>fix_endians\<close> does so for every field of the header on a big-endian host.
\<close>

definition H4 :: "u32 \<Rightarrow> u32" where
  "H4 x = drop_bit 24 (x AND 0xFF000000) OR drop_bit 8 (x AND 0x00FF0000)
     OR push_bit 8 (x AND 0x0000FF00) OR push_bit 24 (x AND 0x000000FF)"

definition host_to_le32 :: "bool \<Rightarrow> u32 \<Rightarrow> u32" where
  "host_to_le32 big n = (if big then H4 n else n)"

definition fix_endians :: "bool \<Rightarrow> apacket \<Rightarrow> apacket" where
  "fix_endians big p =
     (if big
      then p\<lparr>msg := \<lparr>command = H4 (command (msg p)), arg0 = H4 (arg0 (msg p)),
             arg1 = H4 (arg1 (msg p)), data_length = H4 (data_length (msg p)),
             data_check = H4 (data_check (msg p)), magic = H4 (magic (msg p))\<rparr>\<rparr>
      else p)"

text \<open>The 24 bytes of the header struct in the host's memory, and the header they are read as.\<close>

definition message_mem :: "bool \<Rightarrow> amessage \<Rightarrow> u8 list" where
  "message_mem big m = concat (map (mem32 big)
     [command m, arg0 m, arg1 m, data_length m, data_check m, magic m])"

definition word_at :: "bool \<Rightarrow> u8 list \<Rightarrow> nat \<Rightarrow> u32" where
  "word_at big bs k =
     (if big then of_le32 (bs ! (k + 3)) (bs ! (k + 2)) (bs ! (k + 1)) (bs ! k)
      else of_le32 (bs ! k) (bs ! (k + 1)) (bs ! (k + 2)) (bs ! (k + 3)))"

definition message_of_mem :: "bool \<Rightarrow> u8 list \<Rightarrow> amessage" where
  "message_of_mem big bs =
     \<lparr>command = word_at big bs 0, arg0 = word_at big bs 4, arg1 = word_at big bs 8,
      data_length = word_at big bs 12, data_check = word_at big bs 16, magic = word_at big bs 20\<rparr>"

text \<open>What the protocol puts on the wire: the header's words in little-endian order.\<close>

definition wire_message :: "amessage \<Rightarrow> u8 list" where
  "wire_message m = message_mem False m"

definition wire_packet :: "apacket \<Rightarrow> u8 list" where
  "wire_packet p = wire_message (msg p) @ payload p"

lemma length_message_mem [simp, mem_simps]: "length (message_mem big m) = 24"
  by (simp add: message_mem_def)

lemma length_wire_message [simp, mem_simps]: "length (wire_message m) = 24"
  by (simp add: wire_message_def)

lemma H4_masks:
  "H4 x = drop_bit 24 (x AND push_bit 24 (mask 8)) OR drop_bit 8 (x AND push_bit 16 (mask 8))
     OR push_bit 8 (x AND push_bit 8 (mask 8)) OR push_bit 24 (x AND mask 8)"
  by (simp add: H4_def mask_eq_exp_minus_1)

lemma bytes_of_H4:
  "(ucast (H4 w) :: u8) = ucast (drop_bit 24 w)"
  "(ucast (drop_bit 8 (H4 w)) :: u8) = ucast (drop_bit 16 w)"
  "(ucast (drop_bit 16 (H4 w)) :: u8) = ucast (drop_bit 8 w)"
  "(ucast (drop_bit 24 (H4 w)) :: u8) = ucast w"
  by (rule bit_word_eqI, auto simp: H4_masks bit_simps)+

lemma le32_H4 [mem_simps]: "le32 (H4 w) = rev (le32 w)"
  by (simp add: le32_def bytes_of_H4)

lemma H4_H4 [simp]: "H4 (H4 w) = w"
  by (rule le32_inj) (simp add: le32_H4)

lemma mem32_host_to_le32: "mem32 big (host_to_le32 big w) = le32 w"
  by (simp add: mem32_def host_to_le32_def le32_H4)

lemma message_mem_fix_endians:
  "message_mem big (msg (fix_endians big p)) = wire_message (msg p)"
  by (simp add: message_mem_def wire_message_def fix_endians_def mem32_def le32_H4)

lemma fix_endians_frame [simp]:
  "data (fix_endians big p) = data p" "nxt (fix_endians big p) = nxt p"
  by (simp_all add: fix_endians_def)

lemma fix_endians_twice [simp]: "fix_endians big (fix_endians big p) = p"
  by (simp add: fix_endians_def)

lemma fix_endians_little [simp]: "fix_endians False p = p"
  by (simp add: fix_endians_def)

lemma message_of_mem_mem: "message_of_mem big (message_mem big m) = m"
  by (cases big) (simp_all add: message_of_mem_def message_mem_def word_at_def mem32_def le32_def
      of_le32_bytes)

lemma bytes24:
  assumes "length bs = 24"
  shows "bs = map (\<lambda>i. bs ! i) [0, 1, 2, 3, 4, 5, 6, 7, 8, 9, 10, 11, 12, 13, 14, 15, 16, 17, 18,
    19, 20, 21, 22, 23]"
proof -
  have "[0..<24] = [0, 1, 2, 3, 4, 5, 6, 7, 8, 9, 10, 11, 12, 13, 14, 15, 16, 17, 18, 19, 20, 21, 22, 23]"
    by (simp add: upt_rec)
  then show ?thesis using map_nth [of bs] assms by metis
qed

lemma message_mem_of_mem:
  assumes "length bs = 24" shows "message_mem big (message_of_mem big bs) = bs"
proof -
  have "message_mem big (message_of_mem big bs) = map (\<lambda>i. bs ! i) [0, 1, 2, 3, 4, 5, 6, 7, 8, 9, 10,
      11, 12, 13, 14, 15, 16, 17, 18, 19, 20, 21, 22, 23]"
    by (cases big) (simp_all add: message_mem_def message_of_mem_def mem32_def word_at_def le32_of_le32
        numeral_2_eq_2)
  then show ?thesis using bytes24 [OF assms] by simp
qed

lemma message_of_wire:
  "msg (fix_endians big (p\<lparr>msg := message_of_mem big (wire_message m)\<rparr>)) = m"
proof -
  have "wire_message m = message_mem big (msg (fix_endians big (p\<lparr>msg := m\<rparr>)))"
    using message_mem_fix_endians [of big "p\<lparr>msg := m\<rparr>"] by simp
  then have "message_of_mem big (wire_message m) = msg (fix_endians big (p\<lparr>msg := m\<rparr>))"
    by (simp only: message_of_mem_mem)
  then show ?thesis by (simp add: fix_endians_def)
qed

section \<open>Printing packets\<close>

text \<open>
  \<open>print_packet\<close>, which the build compiles in with \<open>-DADB_TRACE_PACKETS=1\<close>; its result is the
  text it writes to \<open>stderr\<close>. Characters are compared as \<open>char\<close>, which is signed.
\<close>

definition DUMPMAX :: nat where "DUMPMAX = 32"

definition command_tag :: "u32 \<Rightarrow> string" where
  "command_tag c =
     (if c = A_SYNC then ''SYNC'' else if c = A_CNXN then ''CNXN''
      else if c = A_OPEN then ''OPEN'' else if c = A_OKAY then ''OKAY''
      else if c = A_CLSE then ''CLSE'' else if c = A_WRTE then ''WRTE'' else ''????'')"

definition hex_digit :: "nat \<Rightarrow> char" where
  "hex_digit d = (if d < 10 then char_of (48 + d) else char_of (87 + d))"

fun hex_digits :: "nat \<Rightarrow> string" where
  "hex_digits n =
     (if n < 16 then [hex_digit n] else hex_digits (n div 16) @ [hex_digit (n mod 16)])"

declare hex_digits.simps [simp del]

definition hex_pad :: "nat \<Rightarrow> u32 \<Rightarrow> string" where
  "hex_pad w n = (let s = hex_digits (unat n) in replicate (w - length s) CHR ''0'' @ s)"

definition dump_char :: "u8 \<Rightarrow> char" where
  "dump_char b = (if sint b \<ge> 32 \<and> sint b < 127 then char_of (unat b) else CHR ''.'')"

fun dump_loop :: "(nat \<Rightarrow> u8) \<Rightarrow> nat \<Rightarrow> nat \<Rightarrow> fault + string" where
  "dump_loop d x 0 = Inr []"
| "dump_loop d x (Suc count) =
     (if x < MAX_PAYLOAD
      then bindF (dump_loop d (Suc x) count) (\<lambda>s. Inr (dump_char (d x) # s))
      else Inl OutOfBounds)"

definition packet_head :: "string \<Rightarrow> apacket \<Rightarrow> string" where
  "packet_head label p = label @ '': '' @ command_tag (command (msg p)) @ '' ''
     @ hex_pad 8 (arg0 (msg p)) @ '' '' @ hex_pad 8 (arg1 (msg p)) @ '' ''
     @ hex_pad 4 (data_length (msg p)) @ '' '' @ [CHR 0x22]"

definition packet_tail :: "nat \<Rightarrow> string" where
  "packet_tail count = (if count > DUMPMAX then [CHR 0x0A] else [CHR 0x22, CHR 0x0A])"

definition print_packet :: "string \<Rightarrow> apacket \<Rightarrow> fault + string" where
  "print_packet label p =
     (let n = unat (data_length (msg p));
          count = (if n > DUMPMAX then DUMPMAX else n)
      in bindF (dump_loop (data p) 0 count) (\<lambda>s. Inr (packet_head label p @ s @ packet_tail n)))"

lemma dump_loop_ok:
  "x + n \<le> MAX_PAYLOAD \<Longrightarrow> dump_loop d x n = Inr (map (\<lambda>i. dump_char (d i)) [x..<x + n])"
proof (induction n arbitrary: x)
  case (Suc n)
  have "[x..<x + Suc n] = x # [Suc x..<Suc x + n]"
    by (simp add: upt_conv_Cons del: upt_Suc)
  then show ?case using Suc by (simp del: upt_Suc)
qed simp

lemma dump_char_printable: "32 \<le> (of_char (dump_char b) :: nat) \<and> of_char (dump_char b) < (127::nat)"
proof (cases "sint b \<ge> 32 \<and> sint b < 127")
  case True
  then have "take_bit LENGTH(8) (sint b) = sint b"
    by (intro take_bit_int_eq_self) simp_all
  moreover have "uint b = take_bit LENGTH(8) (sint b)" by (rule uint_sint)
  ultimately have "sint b = uint b" by (simp only:)
  moreover have "uint b = int (unat b)" by simp
  ultimately have "32 \<le> unat b" "unat b < 127" using True by linarith+
  then show ?thesis using True by (simp add: dump_char_def)
qed (auto simp: dump_char_def)

lemma check_data_result:
  "check_data p =
     (if MAX_PAYLOAD < unat (data_length (msg p)) then Inl OutOfBounds
      else Inr (if byte_sum (payload p) = unat (data_check (msg p)) then 0 else -1))"
proof (cases "MAX_PAYLOAD < unat (data_length (msg p))")
  case True
  then show ?thesis by (simp add: check_data_def payload_sum_fault)
next
  case False
  then show ?thesis by (simp add: check_data_iff)
qed

section \<open>Properties\<close>

text \<open>The receiver accepts what the sender finalises. A packet whose announced length fits the
  payload array passes both checks of the reading side after \<open>send_packet\<close> has filled in the
  magic and the checksum, and neither its command, its arguments nor its payload are changed.\<close>

theorem finalize_accepted:
  assumes "unat (data_length (msg p)) \<le> MAX_PAYLOAD"
  shows "\<exists>q. finalize_packet p = Inr q \<and> check_header q = 0 \<and> check_data q = Inr 0
    \<and> payload q = payload p \<and> command (msg q) = command (msg p)
    \<and> arg0 (msg q) = arg0 (msg p) \<and> arg1 (msg q) = arg1 (msg p)"
proof -
  let ?q = "p\<lparr>msg := (msg p)\<lparr>magic := command (msg p) XOR 0xffffffff,
              data_check := of_nat (byte_sum (payload p))\<rparr>\<rparr>"
  have "length (payload p) \<le> MAX_PAYLOAD" using assms by (simp add: payload_in_bounds)
  then have "unat (of_nat (byte_sum (payload p)) :: u32) = byte_sum (payload p)"
    by (rule byte_sum_fits)
  then have "check_data ?q = Inr 0"
    using assms by (subst check_data_iff) (simp_all add: payload_def)
  moreover have "check_header ?q = 0"
    using assms by (simp add: check_header_0_iff)
  ultimately show ?thesis
    by (intro exI [of _ ?q]) (simp add: finalize_packet_ok assms payload_def)
qed

definition sample_packet :: apacket where
  "sample_packet = \<lparr>nxt = None, plen = 0, pptr = None,
     msg = zero_message\<lparr>command := A_WRTE, arg1 := 7, data_length := 3\<rparr>,
     data = (\<lambda>i. of_nat i + 1)\<rparr>"

theorem finalize_accepted_witness:
  "\<exists>q. finalize_packet sample_packet = Inr q \<and> check_header q = 0 \<and> check_data q = Inr 0"
proof -
  have "unat (data_length (msg sample_packet)) \<le> MAX_PAYLOAD"
    by (simp add: sample_packet_def zero_message_def MAX_PAYLOAD_def)
  from finalize_accepted [OF this] show ?thesis by blast
qed

text \<open>What \<open>check_data\<close> answers on every packet. It reads outside the payload array exactly
  when the announced length is larger than the array; otherwise it returns 0 when the exact sum of
  the payload's bytes is the checksum and -1 when it is not: the 32-bit sum never wraps.\<close>

theorem check_data_spec:
  "check_data p =
     (if MAX_PAYLOAD < unat (data_length (msg p)) then Inl OutOfBounds
      else Inr (if byte_sum (payload p) = unat (data_check (msg p)) then 0 else -1))"
  by (rule check_data_result)

text \<open>The checksum detects the corruption of any single byte. If \<open>check_data\<close> accepts a
  packet, then it rejects the packet that has one byte of its payload replaced by another.\<close>

theorem check_data_detects_byte:
  assumes ok: "check_data p = Inr 0"
    and i: "i < unat (data_length (msg p))"
    and b: "b \<noteq> data p i"
  shows "check_data (p\<lparr>data := (data p)(i := b)\<rparr>) = Inr (-1)"
proof -
  let ?n = "unat (data_length (msg p))" and ?q = "p\<lparr>data := (data p)(i := b)\<rparr>"
  have n: "?n \<le> MAX_PAYLOAD" and sum: "byte_sum (payload p) = unat (data_check (msg p))"
    using ok by (auto simp: check_data_result split: if_splits)
  have split: "[0..<?n] = [0..<i] @ i # [Suc i..<?n]"
    using i upt_add_eq_append [of 0 i "?n - i"] by (simp add: upt_conv_Cons)
  have "payload p = map (data p) [0..<i] @ data p i # map (data p) [Suc i..<?n]"
    by (simp add: payload_def split)
  moreover have "payload ?q = map (data p) [0..<i] @ b # map (data p) [Suc i..<?n]"
    by (simp add: payload_def split)
  moreover have "unat b \<noteq> unat (data p i)" using b by (simp add: word_unat_eq_iff)
  ultimately have "byte_sum (payload ?q) \<noteq> byte_sum (payload p)" by simp
  then show ?thesis using n sum by (simp add: check_data_result)
qed

theorem check_data_detects_byte_witness:
  "check_data (sample_packet\<lparr>msg := (msg sample_packet)\<lparr>data_check := 6\<rparr>,
     data := (data sample_packet)(1 := 9)\<rparr>) = Inr (-1)"
proof -
  let ?p = "sample_packet\<lparr>msg := (msg sample_packet)\<lparr>data_check := 6\<rparr>\<rparr>"
  have "payload ?p = [1, 2, 3]"
    by (simp add: payload_def sample_packet_def zero_message_def upt_conv_Cons)
  then have "check_data ?p = Inr 0"
    by (simp add: check_data_result sample_packet_def zero_message_def MAX_PAYLOAD_def)
  from check_data_detects_byte [OF this, of 1 9] show ?thesis
    by (simp add: sample_packet_def zero_message_def)
qed

text \<open>The wire format does not depend on the host. Whatever the host's byte order, the header
  bytes handed to the USB layer after \<open>fix_endians\<close> are the little-endian words, and reading
  wire bytes into the header and fixing the byte order gives back the header they encode.\<close>

theorem wire_format_host_independent:
  "message_mem big (msg (fix_endians big p)) = message_mem False (msg p)
   \<and> msg (fix_endians big (q\<lparr>msg := message_of_mem big (wire_message m)\<rparr>)) = m
   \<and> mem32 big (host_to_le32 big w) = le32 w"
  by (intro conjI message_of_wire mem32_host_to_le32)
    (simp add: message_mem_fix_endians wire_message_def)

text \<open>Printing a packet is safe and bounded. \<open>print_packet\<close> never reads outside the payload
  array, whatever length the packet announces, and the text it writes is the header line followed by
  the first 32 payload bytes at most, each of them shown as a printable character.\<close>

theorem print_packet_safe:
  "print_packet label p =
       Inr (packet_head label p @ map dump_char (take 32 (payload p))
         @ packet_tail (unat (data_length (msg p))))
   \<and> list_all (\<lambda>c. 32 \<le> (of_char c :: nat) \<and> of_char c < (127::nat))
       (map dump_char (take 32 (payload p)))"
proof -
  let ?n = "unat (data_length (msg p))"
  have "0 + min DUMPMAX ?n \<le> MAX_PAYLOAD" by (simp add: DUMPMAX_def MAX_PAYLOAD_def)
  then have "dump_loop (data p) 0 (min DUMPMAX ?n) = Inr (map dump_char (take 32 (payload p)))"
    using dump_loop_ok [of 0 "min DUMPMAX ?n" "data p"]
    by (simp add: payload_def take_map take_upt_min DUMPMAX_def comp_def min.commute)
  moreover have "(if ?n > DUMPMAX then DUMPMAX else ?n) = min DUMPMAX ?n" by simp
  ultimately have "print_packet label p = Inr (packet_head label p
      @ map dump_char (take 32 (payload p)) @ packet_tail ?n)"
    by (simp only: print_packet_def Let_def bindF_Inr)
  then show ?thesis using dump_char_printable by (auto simp: list_all_iff)
qed

end
