(* ===== verification/Libusb_Types.thy ===== *)
theory Libusb_Types
  imports Prelude
begin

text \<open>
  The data of the bundled libusb 1.0.8 (\<open>libusb.h\<close>): its error codes, descriptors and transfers,
  the functions the header defines inline to fill transfers, and the packet buffers of isochronous
  transfers. Pointers to arrays of descriptors are lists; a null pointer is the empty list.
\<close>

section \<open>Error codes and enumerations\<close>

datatype libusb_error =
    LIBUSB_SUCCESS
  | LIBUSB_ERROR_IO
  | LIBUSB_ERROR_INVALID_PARAM
  | LIBUSB_ERROR_ACCESS
  | LIBUSB_ERROR_NO_DEVICE
  | LIBUSB_ERROR_NOT_FOUND
  | LIBUSB_ERROR_BUSY
  | LIBUSB_ERROR_TIMEOUT
  | LIBUSB_ERROR_OVERFLOW
  | LIBUSB_ERROR_PIPE
  | LIBUSB_ERROR_INTERRUPTED
  | LIBUSB_ERROR_NO_MEM
  | LIBUSB_ERROR_NOT_SUPPORTED
  | LIBUSB_ERROR_OTHER

text \<open>The value of an enumerator, as the functions return it.\<close>

fun rc :: "libusb_error \<Rightarrow> int" where
  "rc LIBUSB_SUCCESS = 0"
| "rc LIBUSB_ERROR_IO = -1"
| "rc LIBUSB_ERROR_INVALID_PARAM = -2"
| "rc LIBUSB_ERROR_ACCESS = -3"
| "rc LIBUSB_ERROR_NO_DEVICE = -4"
| "rc LIBUSB_ERROR_NOT_FOUND = -5"
| "rc LIBUSB_ERROR_BUSY = -6"
| "rc LIBUSB_ERROR_TIMEOUT = -7"
| "rc LIBUSB_ERROR_OVERFLOW = -8"
| "rc LIBUSB_ERROR_PIPE = -9"
| "rc LIBUSB_ERROR_INTERRUPTED = -10"
| "rc LIBUSB_ERROR_NO_MEM = -11"
| "rc LIBUSB_ERROR_NOT_SUPPORTED = -12"
| "rc LIBUSB_ERROR_OTHER = -99"

datatype transfer_status =
    TRANSFER_COMPLETED
  | TRANSFER_ERROR
  | TRANSFER_TIMED_OUT
  | TRANSFER_CANCELLED
  | TRANSFER_STALL
  | TRANSFER_NO_DEVICE
  | TRANSFER_OVERFLOW

definition DT_DEVICE :: u8 where "DT_DEVICE = 0x01"
definition DT_CONFIG :: u8 where "DT_CONFIG = 0x02"
definition DT_STRING :: u8 where "DT_STRING = 0x03"
definition DT_INTERFACE :: u8 where "DT_INTERFACE = 0x04"
definition DT_ENDPOINT :: u8 where "DT_ENDPOINT = 0x05"

lemmas dt_defs = DT_DEVICE_def DT_CONFIG_def DT_STRING_def DT_INTERFACE_def DT_ENDPOINT_def

definition ENDPOINT_DIR_MASK :: u8 where "ENDPOINT_DIR_MASK = 0x80"
definition ENDPOINT_IN :: u8 where "ENDPOINT_IN = 0x80"
definition ENDPOINT_OUT :: u8 where "ENDPOINT_OUT = 0x00"

lemmas endpoint_dir_defs = ENDPOINT_DIR_MASK_def ENDPOINT_IN_def ENDPOINT_OUT_def

definition TRANSFER_TYPE_CONTROL :: u8 where "TRANSFER_TYPE_CONTROL = 0"
definition TRANSFER_TYPE_ISOCHRONOUS :: u8 where "TRANSFER_TYPE_ISOCHRONOUS = 1"
definition TRANSFER_TYPE_BULK :: u8 where "TRANSFER_TYPE_BULK = 2"
definition TRANSFER_TYPE_INTERRUPT :: u8 where "TRANSFER_TYPE_INTERRUPT = 3"

definition TRANSFER_SHORT_NOT_OK :: u8 where "TRANSFER_SHORT_NOT_OK = 1"
definition TRANSFER_FREE_BUFFER :: u8 where "TRANSFER_FREE_BUFFER = 2"
definition TRANSFER_FREE_TRANSFER :: u8 where "TRANSFER_FREE_TRANSFER = 4"

definition REQUEST_GET_DESCRIPTOR :: u8 where "REQUEST_GET_DESCRIPTOR = 0x06"

section \<open>Descriptors\<close>

record device_descriptor =
  dd_bLength :: u8
  dd_bDescriptorType :: u8
  bcdUSB :: u16
  bDeviceClass :: u8
  bDeviceSubClass :: u8
  bDeviceProtocol :: u8
  bMaxPacketSize0 :: u8
  idVendor :: u16
  idProduct :: u16
  bcdDevice :: u16
  iManufacturer :: u8
  iProduct :: u8
  iSerialNumber :: u8
  bNumConfigurations :: u8

record endpoint_descriptor =
  ed_bLength :: u8
  ed_bDescriptorType :: u8
  bEndpointAddress :: u8
  bmAttributes :: u8
  wMaxPacketSize :: u16
  bInterval :: u8
  bRefresh :: u8
  bSynchAddress :: u8
  ed_extra :: "u8 list"

record interface_descriptor =
  id_bLength :: u8
  id_bDescriptorType :: u8
  bInterfaceNumber :: u8
  bAlternateSetting :: u8
  bNumEndpoints :: u8
  bInterfaceClass :: u8
  bInterfaceSubClass :: u8
  bInterfaceProtocol :: u8
  iInterface :: u8
  endpoint :: "endpoint_descriptor list"
  id_extra :: "u8 list"

record usb_interface =
  altsetting :: "interface_descriptor list"
  num_altsetting :: nat

record config_descriptor =
  cd_bLength :: u8
  cd_bDescriptorType :: u8
  wTotalLength :: u16
  bNumInterfaces :: u8
  bConfigurationValue :: u8
  iConfiguration :: u8
  cd_bmAttributes :: u8
  MaxPower :: u8
  interface :: "usb_interface list"
  cd_extra :: "u8 list"

section \<open>Transfers\<close>

text \<open>
  \<open>buffer\<close> holds the contents of the buffer the transfer points to; the completion callback and
  its user data are not fields: the synchronous functions install a callback that sets a flag.
\<close>

record libusb_transfer =
  dev_handle :: addr
  xflags :: u8
  xendpoint :: u8
  xtype :: u8
  xtimeout :: u32
  status :: transfer_status
  length_x :: int
  actual_length :: int
  buffer :: "u8 list"
  num_iso_packets :: int
  iso_packet_desc :: "u32 list"

definition le16 :: "u16 \<Rightarrow> u8 list" where
  "le16 w = [ucast w, ucast (drop_bit 8 w)]"

definition of_le16 :: "u8 \<Rightarrow> u8 \<Rightarrow> u16" where
  "of_le16 a b = ucast a OR push_bit 8 (ucast b)"

lemma length_le16 [simp, mem_simps]: "length (le16 w) = 2"
  by (simp add: le16_def)

lemma of_le16_bytes [mem_simps]: "of_le16 (ucast w) (ucast (drop_bit 8 w)) = w"
proof (rule bit_word_eqI)
  fix n assume "n < LENGTH(16)"
  then have "n < 8 \<or> 8 \<le> n \<and> n < 16" by auto
  then show "bit (of_le16 (ucast w) (ucast (drop_bit 8 w))) n = bit w n"
    by (auto simp: of_le16_def bit_simps)
qed

definition CONTROL_SETUP_SIZE :: int where "CONTROL_SETUP_SIZE = 8"

text \<open>The 8 setup bytes at the start of a control transfer's buffer.\<close>

definition fill_control_setup :: "u8 \<Rightarrow> u8 \<Rightarrow> u16 \<Rightarrow> u16 \<Rightarrow> u16 \<Rightarrow> u8 list" where
  "fill_control_setup bmRequestType bRequest wValue wIndex wLength =
     [bmRequestType, bRequest] @ le16 wValue @ le16 wIndex @ le16 wLength"

definition fill_control_transfer ::
    "libusb_transfer \<Rightarrow> addr \<Rightarrow> u8 list \<Rightarrow> u32 \<Rightarrow> libusb_transfer" where
  "fill_control_transfer t h buf timeout =
     t\<lparr>dev_handle := h, xendpoint := 0, xtype := TRANSFER_TYPE_CONTROL, xtimeout := timeout,
       buffer := buf,
       length_x := CONTROL_SETUP_SIZE + int (unat (of_le16 (buf ! 6) (buf ! 7)))\<rparr>"

definition fill_bulk_transfer ::
    "libusb_transfer \<Rightarrow> addr \<Rightarrow> u8 \<Rightarrow> u8 list \<Rightarrow> int \<Rightarrow> u32 \<Rightarrow> libusb_transfer" where
  "fill_bulk_transfer t h ep buf len timeout =
     t\<lparr>dev_handle := h, xendpoint := ep, xtype := TRANSFER_TYPE_BULK, xtimeout := timeout,
       buffer := buf, length_x := len\<rparr>"

definition fill_iso_transfer ::
    "libusb_transfer \<Rightarrow> addr \<Rightarrow> u8 \<Rightarrow> u8 list \<Rightarrow> int \<Rightarrow> int \<Rightarrow> u32 \<Rightarrow> libusb_transfer" where
  "fill_iso_transfer t h ep buf len n timeout =
     t\<lparr>dev_handle := h, xendpoint := ep, xtype := TRANSFER_TYPE_ISOCHRONOUS, xtimeout := timeout,
       buffer := buf, length_x := len, num_iso_packets := n\<rparr>"

lemma length_fill_control_setup [simp]: "length (fill_control_setup a b v i l) = 8"
  by (simp add: fill_control_setup_def)

lemma length_of_control_transfer:
  "length_x (fill_control_transfer t h (fill_control_setup a b v i l @ rest) timeout) =
     8 + int (unat l)"
  by (simp add: fill_control_transfer_def fill_control_setup_def le16_def CONTROL_SETUP_SIZE_def
      of_le16_bytes)

section \<open>Isochronous packet buffers\<close>

text \<open>
  Offsets of a packet into the transfer's buffer; \<open>None\<close> is the null pointer the code returns for
  a packet it does not have. Reading a packet length past the descriptor array faults.
\<close>

fun iso_fill :: "u32 \<Rightarrow> nat \<Rightarrow> nat \<Rightarrow> u32 list \<Rightarrow> fault + u32 list" where
  "iso_fill len i 0 ds = Inr ds"
| "iso_fill len i (Suc k) ds =
     (if i < length ds then iso_fill len (Suc i) k (ds[i := len]) else Inl OutOfBounds)"

definition set_iso_packet_lengths :: "libusb_transfer \<Rightarrow> u32 \<Rightarrow> fault + libusb_transfer" where
  "set_iso_packet_lengths t len =
     bindF (iso_fill len 0 (nat (num_iso_packets t)) (iso_packet_desc t))
       (\<lambda>ds. Inr (t\<lparr>iso_packet_desc := ds\<rparr>))"

fun iso_offset :: "u32 list \<Rightarrow> nat \<Rightarrow> nat \<Rightarrow> nat \<Rightarrow> fault + nat" where
  "iso_offset ds i 0 off = Inr off"
| "iso_offset ds i (Suc k) off =
     (if i < length ds then iso_offset ds (Suc i) k (off + unat (ds ! i)) else Inl OutOfBounds)"

definition get_iso_packet_buffer :: "libusb_transfer \<Rightarrow> u32 \<Rightarrow> fault + nat option" where
  "get_iso_packet_buffer t packet =
     (if unat packet > 0x7fffffff then Inr None
      else if int (unat packet) \<ge> num_iso_packets t then Inr None
      else bindF (iso_offset (iso_packet_desc t) 0 (unat packet) 0) (\<lambda>off. Inr (Some off)))"

definition get_iso_packet_buffer_simple :: "libusb_transfer \<Rightarrow> u32 \<Rightarrow> fault + nat option" where
  "get_iso_packet_buffer_simple t packet =
     (if unat packet > 0x7fffffff then Inr None
      else if int (unat packet) \<ge> num_iso_packets t then Inr None
      else if iso_packet_desc t = [] then Inl OutOfBounds
      else Inr (Some (unat (iso_packet_desc t ! 0 * packet))))"

lemma iso_offset_sum:
  "i + k \<le> length ds \<Longrightarrow>
     iso_offset ds i k off = Inr (off + sum_list (map unat (take k (drop i ds))))"
proof (induction k arbitrary: i off)
  case (Suc k)
  then have "drop i ds = ds ! i # drop (Suc i) ds" by (simp add: Cons_nth_drop_Suc)
  with Suc show ?case by simp
qed simp

lemma iso_fill_eq:
  "i + k \<le> length ds \<Longrightarrow>
     iso_fill len i k ds = Inr (take i ds @ replicate k len @ drop (i + k) ds)"
proof (induction k arbitrary: i ds)
  case (Suc k)
  then have i: "i < length ds" by simp
  have "iso_fill len (Suc i) k (ds[i := len])
      = Inr (take (Suc i) (ds[i := len]) @ replicate k len @ drop (Suc i + k) (ds[i := len]))"
    using Suc by simp
  moreover have "take (Suc i) (ds[i := len]) = take i ds @ [len]"
    using i by (simp add: take_Suc_conv_app_nth)
  ultimately show ?case using i by simp
qed simp

text \<open>The shortcut for equal packets agrees with the general function. Once
  \<open>libusb_set_iso_packet_lengths\<close> has given every packet of a transfer the same length, the
  constant-time \<open>libusb_get_iso_packet_buffer_simple\<close> returns the offset that the summing
  \<open>libusb_get_iso_packet_buffer\<close> returns, for every packet number, provided the product of the
  two fits into 32 bits.\<close>

theorem iso_packet_buffer_simple_agrees:
  assumes n: "num_iso_packets t = int (length (iso_packet_desc t))"
    and set: "set_iso_packet_lengths t len = Inr t'"
    and fits: "unat len * unat packet < 2 ^ 32"
  shows "get_iso_packet_buffer_simple t' packet = get_iso_packet_buffer t' packet"
proof -
  let ?k = "length (iso_packet_desc t)"
  have ds: "iso_packet_desc t' = replicate ?k len" and n': "num_iso_packets t' = int ?k"
    using set n iso_fill_eq [of 0 ?k "iso_packet_desc t" len]
    by (auto simp: set_iso_packet_lengths_def)
  show ?thesis
  proof (cases "unat packet < ?k")
    case True
    then have "iso_offset (iso_packet_desc t') 0 (unat packet) 0 = Inr (unat packet * unat len)"
      by (subst iso_offset_sum) (simp_all add: ds sum_list_replicate)
    moreover have "unat (len * packet) = unat packet * unat len"
      using fits by (simp add: unat_word_ariths mult.commute)
    ultimately show ?thesis using True
      by (auto simp: get_iso_packet_buffer_def get_iso_packet_buffer_simple_def ds n')
  next
    case False
    then have "int ?k \<le> int (unat packet)" by (simp only: of_nat_le_iff not_less)
    then have "int ?k \<le> uint packet" by simp
    then show ?thesis
      by (auto simp: get_iso_packet_buffer_def get_iso_packet_buffer_simple_def n')
  qed
qed

definition sample_iso :: libusb_transfer where
  "sample_iso = \<lparr>dev_handle = 0, xflags = 0, xendpoint = 0x81, xtype = 1, xtimeout = 0,
     status = TRANSFER_COMPLETED, length_x = 30, actual_length = 0, buffer = [],
     num_iso_packets = 3, iso_packet_desc = [0, 0, 0]\<rparr>"

theorem iso_packet_buffer_simple_agrees_witness:
  "get_iso_packet_buffer_simple (sample_iso\<lparr>iso_packet_desc := [10, 10, 10]\<rparr>) 2
     = get_iso_packet_buffer (sample_iso\<lparr>iso_packet_desc := [10, 10, 10]\<rparr>) 2"
proof -
  have "set_iso_packet_lengths sample_iso 10 = Inr (sample_iso\<lparr>iso_packet_desc := [10, 10, 10]\<rparr>)"
    by (simp add: set_iso_packet_lengths_def sample_iso_def eval_nat_numeral)
  from iso_packet_buffer_simple_agrees [OF _ this, of 2] show ?thesis
    by (simp add: sample_iso_def)
qed

end
