(* ===== verification/SyncIo.thy ===== *)
theory SyncIo
  imports Libusb_Types
begin

text \<open>
  The synchronous transfers of libusb (\<open>sync.c\<close>). What the asynchronous engine and the kernel do
  during one synchronous call is an explicit script, \<open>sync_env\<close>: whether the allocations succeed,
  what \<open>libusb_submit_transfer\<close> returns, and, for every call of \<open>libusb_handle_events\<close>, its return
  code and the completion of this transfer, if it happens during that call. A call that would wait
  past the end of its script is \<open>Inl Blocked\<close>.
\<close>

section \<open>The script of one call\<close>

record poll =
  poll_rc :: int
  poll_done :: "(transfer_status \<times> nat) option"

record sync_env =
  alloc_ok :: bool
  buf_ok :: bool
  submit_rc :: int
  polls :: "poll list"

text \<open>
  What the call leaves behind: its return value, the value stored through \<open>transferred\<close>, the number
  of bytes that crossed the bus, how often the transfer was freed, and whether it was freed while
  the kernel still had it.
\<close>

record sync_result =
  ret :: int
  transferred :: "int option"
  moved :: nat
  frees :: nat
  in_flight :: bool
  xfer :: libusb_transfer

definition zero_transfer :: libusb_transfer where
  "zero_transfer = \<lparr>dev_handle = 0, xflags = 0, xendpoint = 0, xtype = 0, xtimeout = 0,
     status = TRANSFER_COMPLETED, length_x = 0, actual_length = 0, buffer = [],
     num_iso_packets = 0, iso_packet_desc = []\<rparr>"

section \<open>Waiting for the completion\<close>

datatype wait_end =
    Done transfer_status nat
  | Aborted int "(transfer_status \<times> nat) option"

text \<open>The inner loop that waits for a cancelled transfer until event handling fails.\<close>

fun drain :: "poll list \<Rightarrow> (transfer_status \<times> nat) option
    \<Rightarrow> fault + (transfer_status \<times> nat) option" where
  "drain ps (Some c) = Inr (Some c)"
| "drain [] None = Inl Blocked"
| "drain (p # ps) None =
     (if poll_rc p < 0 then Inr (poll_done p) else drain ps (poll_done p))"

text \<open>The loop \<open>while (!completed)\<close>; an interrupted wait is repeated.\<close>

fun sync_wait :: "poll list \<Rightarrow> (transfer_status \<times> nat) option \<Rightarrow> fault + wait_end" where
  "sync_wait ps (Some (st, n)) = Inr (Done st n)"
| "sync_wait [] None = Inl Blocked"
| "sync_wait (p # ps) None =
     (if poll_rc p < 0
      then if poll_rc p = rc LIBUSB_ERROR_INTERRUPTED then sync_wait ps (poll_done p)
           else bindF (drain ps (poll_done p)) (\<lambda>c. Inr (Aborted (poll_rc p) c))
      else sync_wait ps (poll_done p))"

fun bulk_status_rc :: "transfer_status \<Rightarrow> int" where
  "bulk_status_rc TRANSFER_COMPLETED = 0"
| "bulk_status_rc TRANSFER_TIMED_OUT = rc LIBUSB_ERROR_TIMEOUT"
| "bulk_status_rc TRANSFER_STALL = rc LIBUSB_ERROR_PIPE"
| "bulk_status_rc TRANSFER_OVERFLOW = rc LIBUSB_ERROR_OVERFLOW"
| "bulk_status_rc TRANSFER_NO_DEVICE = rc LIBUSB_ERROR_NO_DEVICE"
| "bulk_status_rc st = rc LIBUSB_ERROR_OTHER"

fun control_status_rc :: "transfer_status \<Rightarrow> int \<Rightarrow> int" where
  "control_status_rc TRANSFER_COMPLETED n = n"
| "control_status_rc TRANSFER_TIMED_OUT n = rc LIBUSB_ERROR_TIMEOUT"
| "control_status_rc TRANSFER_STALL n = rc LIBUSB_ERROR_PIPE"
| "control_status_rc TRANSFER_NO_DEVICE n = rc LIBUSB_ERROR_NO_DEVICE"
| "control_status_rc st n = rc LIBUSB_ERROR_OTHER"

section \<open>Bulk and interrupt transfers\<close>

text \<open>
  \<open>avail\<close> bounds the bytes that can cross the bus: the kernel moves no more than the requested
  length, and no more than the device offers.
\<close>

definition do_sync_bulk_transfer ::
    "addr \<Rightarrow> u8 \<Rightarrow> u8 list \<Rightarrow> int \<Rightarrow> u32 \<Rightarrow> u8 \<Rightarrow> nat \<Rightarrow> sync_env \<Rightarrow> fault + sync_result" where
  "do_sync_bulk_transfer h ep buf len timeout ty avail env =
     (let t = (fill_bulk_transfer zero_transfer h ep buf len timeout)\<lparr>xtype := ty\<rparr>
      in if \<not> alloc_ok env
         then Inr \<lparr>ret = rc LIBUSB_ERROR_NO_MEM, transferred = None, moved = 0, frees = 0,
                   in_flight = False, xfer = zero_transfer\<rparr>
         else if submit_rc env < 0
         then Inr \<lparr>ret = submit_rc env, transferred = None, moved = 0, frees = 1,
                   in_flight = False, xfer = t\<rparr>
         else bindF (sync_wait (polls env) None) (\<lambda>e. case e of
             Aborted r c \<Rightarrow>
               Inr \<lparr>ret = r, transferred = None,
                    moved = (case c of None \<Rightarrow> 0 | Some (st, n) \<Rightarrow> min n avail),
                    frees = 1, in_flight = (c = None), xfer = t\<rparr>
           | Done st n \<Rightarrow>
               Inr \<lparr>ret = bulk_status_rc st, transferred = Some (int (min n avail)),
                    moved = min n avail, frees = 1, in_flight = False,
                    xfer = t\<lparr>status := st, actual_length := int (min n avail)\<rparr>\<rparr>))"

text \<open>
  The device at the other end of a pair of bulk endpoints: the bytes it will deliver on the IN
  endpoint, the OUT transfers it has received, latest last, and the scripts of the calls to come.
\<close>

record usb_dev =
  in_stream :: "u8 list"
  out_xfers :: "u8 list list"
  envs :: "sync_env list"

definition is_in :: "u8 \<Rightarrow> bool" where
  "is_in ep \<longleftrightarrow> ep AND ENDPOINT_DIR_MASK = ENDPOINT_IN"

text \<open>
  A bulk transfer against the device: the return value, the value stored through \<open>transferred\<close>,
  the bytes stored at the start of the buffer, and the device afterwards.
\<close>

definition libusb_bulk_transfer ::
    "addr \<Rightarrow> u8 \<Rightarrow> u8 list \<Rightarrow> int \<Rightarrow> u32 \<Rightarrow> usb_dev \<Rightarrow> fault + int \<times> int option \<times> u8 list \<times> usb_dev"
  where
  "libusb_bulk_transfer h ep buf len timeout d =
     (case envs d of
        [] \<Rightarrow> Inl Blocked
      | e # es \<Rightarrow>
          (if is_in ep
           then bindF (do_sync_bulk_transfer h ep buf len timeout TRANSFER_TYPE_BULK
                    (min (nat len) (length (in_stream d))) e) (\<lambda>res.
                  Inr (ret res, transferred res, take (moved res) (in_stream d),
                       d\<lparr>in_stream := drop (moved res) (in_stream d), envs := es\<rparr>))
           else bindF (do_sync_bulk_transfer h ep buf len timeout TRANSFER_TYPE_BULK
                    (min (nat len) (length buf)) e) (\<lambda>res.
                  Inr (ret res, transferred res, [],
                       d\<lparr>out_xfers := out_xfers d @
                            (if transferred res = None \<and> moved res = 0 then []
                             else [take (moved res) buf]), envs := es\<rparr>))))"

section \<open>Control transfers\<close>

text \<open>
  \<open>incoming\<close> is what the device answers in the data stage of an IN request. The caller's buffer
  has \<open>wLength\<close> bytes. The result pairs the outcome with the bytes copied to the caller's buffer,
  which are copied whatever the final status is.
\<close>

definition libusb_control_transfer ::
    "addr \<Rightarrow> u8 \<Rightarrow> u8 \<Rightarrow> u16 \<Rightarrow> u16 \<Rightarrow> u8 list \<Rightarrow> u16 \<Rightarrow> u32 \<Rightarrow> u8 list \<Rightarrow> sync_env
     \<Rightarrow> fault + sync_result \<times> u8 list" where
  "libusb_control_transfer h bmRequestType bRequest wValue wIndex dat wLength timeout incoming env =
     (let dir = bmRequestType AND ENDPOINT_DIR_MASK;
          buf = fill_control_setup bmRequestType bRequest wValue wIndex wLength @
                (if dir = ENDPOINT_OUT then take (unat wLength) dat else []);
          t = (fill_control_transfer zero_transfer h buf timeout)\<lparr>xflags := TRANSFER_FREE_BUFFER\<rparr>;
          avail = (if dir = ENDPOINT_IN then min (unat wLength) (length incoming) else unat wLength)
      in if \<not> alloc_ok env
         then Inr (\<lparr>ret = rc LIBUSB_ERROR_NO_MEM, transferred = None, moved = 0, frees = 0,
                    in_flight = False, xfer = zero_transfer\<rparr>, [])
         else if \<not> buf_ok env
         then Inr (\<lparr>ret = rc LIBUSB_ERROR_NO_MEM, transferred = None, moved = 0, frees = 1,
                    in_flight = False, xfer = zero_transfer\<rparr>, [])
         else if dir = ENDPOINT_OUT \<and> length dat < unat wLength then Inl OutOfBounds
         else if submit_rc env < 0
         then Inr (\<lparr>ret = submit_rc env, transferred = None, moved = 0, frees = 1,
                    in_flight = False, xfer = t\<rparr>, [])
         else bindF (sync_wait (polls env) None) (\<lambda>e. case e of
             Aborted r c \<Rightarrow>
               Inr (\<lparr>ret = r, transferred = None,
                     moved = (case c of None \<Rightarrow> 0 | Some (st, n) \<Rightarrow> min n avail),
                     frees = 1, in_flight = (c = None), xfer = t\<rparr>, [])
           | Done st n \<Rightarrow>
               (let m = min n avail
                in Inr (\<lparr>ret = control_status_rc st (int m), transferred = None, moved = m,
                         frees = 1, in_flight = False,
                         xfer = t\<lparr>status := st, actual_length := int m\<rparr>\<rparr>,
                        if dir = ENDPOINT_IN then take m incoming else []))))"

section \<open>Lemmas\<close>

lemma bulk_status_rc_nonpos: "bulk_status_rc st \<le> 0"
  by (cases st) simp_all

lemma bulk_status_rc_0 [simp]: "bulk_status_rc st = 0 \<longleftrightarrow> st = TRANSFER_COMPLETED"
  by (cases st) simp_all

lemma sync_wait_aborted_neg: "sync_wait ps c = Inr (Aborted r c') \<Longrightarrow> r < 0"
  by (induction ps c rule: sync_wait.induct) (auto simp: fault_simps split: if_splits)

lemma sync_wait_faults: "sync_wait ps c = Inl f \<Longrightarrow> f = Blocked"
proof (induction ps c rule: sync_wait.induct)
  have "drain ps c = Inl f \<Longrightarrow> f = Blocked" for ps c f
    by (induction ps c rule: drain.induct) (auto split: if_splits)
  then show "sync_wait (p # ps) None = Inl f \<Longrightarrow> f = Blocked"
    if "poll_rc p < 0 \<Longrightarrow> poll_rc p = rc LIBUSB_ERROR_INTERRUPTED \<Longrightarrow>
          sync_wait ps (poll_done p) = Inl f \<Longrightarrow> f = Blocked"
      and "\<not> poll_rc p < 0 \<Longrightarrow> sync_wait ps (poll_done p) = Inl f \<Longrightarrow> f = Blocked" for p ps
    using that by (auto simp: fault_simps split: if_splits)
qed simp_all

text \<open>No call of the event handler fails for good.\<close>

definition no_poll_fails :: "poll list \<Rightarrow> bool" where
  "no_poll_fails ps = list_all (\<lambda>p. poll_rc p \<ge> 0 \<or> poll_rc p = rc LIBUSB_ERROR_INTERRUPTED) ps"

definition completes :: "poll list \<Rightarrow> bool" where
  "completes ps = list_ex (\<lambda>p. poll_done p \<noteq> None) ps"

lemma sync_wait_completes:
  "no_poll_fails ps \<Longrightarrow> completes ps \<or> c \<noteq> None \<Longrightarrow> \<exists>st n. sync_wait ps c = Inr (Done st n)"
proof (induction ps c rule: sync_wait.induct)
  case (3 p ps)
  then show ?case
    by (cases "poll_done p") (auto simp: no_poll_fails_def completes_def)
qed (auto simp: completes_def)

lemma do_sync_bulk_transfer_cases:
  assumes "do_sync_bulk_transfer h ep buf len timeout ty avail env = Inr res"
  shows "ret res \<le> 0 \<and> moved res \<le> avail \<and> frees res = (if alloc_ok env then 1 else 0)
    \<and> (ret res = 0 \<longrightarrow> transferred res = Some (int (moved res)) \<and> \<not> in_flight res)
    \<and> (transferred res = None \<or> transferred res = Some (int (moved res)))"
proof (cases "alloc_ok env \<and> 0 \<le> submit_rc env")
  case True
  with assms obtain e where e: "sync_wait (polls env) None = Inr e"
    by (auto simp: do_sync_bulk_transfer_def Let_def)
  show ?thesis
  proof (cases e)
    case (Done st n)
    then show ?thesis using True e assms bulk_status_rc_nonpos [of st]
      by (auto simp: do_sync_bulk_transfer_def Let_def)
  next
    case (Aborted r c)
    then show ?thesis using True e assms sync_wait_aborted_neg [of "polls env" None r c]
      by (auto simp: do_sync_bulk_transfer_def Let_def split: option.splits)
  qed
qed (use assms in \<open>auto simp: do_sync_bulk_transfer_def Let_def split: if_splits\<close>)

lemma bulk_in:
  assumes "libusb_bulk_transfer h ep buf len timeout d = Inr (r, tr, bs, d')" and "is_in ep"
  shows "in_stream d = bs @ in_stream d' \<and> length bs \<le> nat len \<and> out_xfers d' = out_xfers d
    \<and> r \<le> 0 \<and> (r = 0 \<longrightarrow> tr = Some (int (length bs)))"
proof -
  from assms obtain e es res where "envs d = e # es"
    and run: "do_sync_bulk_transfer h ep buf len timeout TRANSFER_TYPE_BULK
        (min (nat len) (length (in_stream d))) e = Inr res"
    and eqs: "r = ret res" "tr = transferred res" "bs = take (moved res) (in_stream d)"
      "d' = d\<lparr>in_stream := drop (moved res) (in_stream d), envs := es\<rparr>"
    by (auto simp: libusb_bulk_transfer_def fault_simps split: list.splits)
  from do_sync_bulk_transfer_cases [OF run] show ?thesis by (auto simp: eqs)
qed

lemma bulk_out:
  assumes "libusb_bulk_transfer h ep buf len timeout d = Inr (r, tr, bs, d')" and "\<not> is_in ep"
    and "nat len \<le> length buf"
  shows "\<exists>k \<le> nat len. concat (out_xfers d') = concat (out_xfers d) @ take k buf
    \<and> in_stream d' = in_stream d \<and> r \<le> 0 \<and> (r = 0 \<longrightarrow> tr = Some (int k)
        \<and> out_xfers d' = out_xfers d @ [take k buf])"
proof -
  from assms obtain e es res where "envs d = e # es"
    and run: "do_sync_bulk_transfer h ep buf len timeout TRANSFER_TYPE_BULK
        (min (nat len) (length buf)) e = Inr res"
    and eqs: "r = ret res" "tr = transferred res"
      "d' = d\<lparr>out_xfers := out_xfers d @ (if transferred res = None \<and> moved res = 0 then []
                  else [take (moved res) buf]), envs := es\<rparr>"
    by (auto simp: libusb_bulk_transfer_def fault_simps split: list.splits)
  from do_sync_bulk_transfer_cases [OF run] show ?thesis
    by (intro exI [of _ "moved res"]) (auto simp: eqs)
qed

text \<open>An IN control transfer copies a prefix of the answer and never reports more.\<close>

lemma control_in:
  "libusb_control_transfer dh ENDPOINT_IN rq wv wi dat wl t incoming env = Inr (res, bs) \<Longrightarrow>
     ret res \<le> int (length bs) \<and> length bs \<le> unat wl \<and> bs = take (length bs) incoming"
proof -
  have cs: "control_status_rc st (int m) \<le> int m" for st m by (cases st) simp_all
  have dir: "ENDPOINT_IN AND ENDPOINT_DIR_MASK = ENDPOINT_IN" by (simp add: endpoint_dir_defs)
  assume run: "libusb_control_transfer dh ENDPOINT_IN rq wv wi dat wl t incoming env = Inr (res, bs)"
  show ?thesis
  proof (cases "alloc_ok env \<and> buf_ok env \<and> 0 \<le> submit_rc env")
    case True
    with run dir obtain e where e: "sync_wait (polls env) None = Inr e"
      by (auto simp: libusb_control_transfer_def Let_def endpoint_dir_defs elim!: bindF_InrE split: if_splits)
    show ?thesis
    proof (cases e)
      case (Done st n)
      let ?m = "min n (min (unat wl) (length incoming))"
      from run dir True e Done have "bs = take ?m incoming" "ret res = control_status_rc st (int ?m)"
        by (auto simp: libusb_control_transfer_def Let_def endpoint_dir_defs split: if_splits)
      with cs [of st ?m] show ?thesis by simp
    next
      case (Aborted r c)
      with run dir True e sync_wait_aborted_neg [of "polls env" None r c] show ?thesis
        by (auto simp: libusb_control_transfer_def Let_def endpoint_dir_defs split: if_splits)
    qed
  qed (use run dir in \<open>auto simp: libusb_control_transfer_def Let_def endpoint_dir_defs split: if_splits\<close>)
qed

lemma control_in_blocked:
  assumes "libusb_control_transfer dh ENDPOINT_IN rq wv wi dat wl t incoming env = Inl f"
  shows "f = Blocked"
proof (cases "sync_wait (polls env) None")
  case (Inl g)
  with assms sync_wait_faults [OF Inl] show ?thesis
    by (auto simp: libusb_control_transfer_def Let_def endpoint_dir_defs split: if_splits)
next
  case (Inr e)
  with assms show ?thesis
    by (cases e) (auto simp: libusb_control_transfer_def Let_def endpoint_dir_defs split: if_splits)
qed

section \<open>Properties\<close>

text \<open>A round of events that neither ends the transfer nor fails, one that fails, and one that lets the loop behind a
  cancellation go on.\<close>

definition waits_on :: "poll \<Rightarrow> bool" where
  "waits_on p \<longleftrightarrow> poll_done p = None \<and> (0 \<le> poll_rc p \<or> poll_rc p = rc LIBUSB_ERROR_INTERRUPTED)"

definition failure :: "poll \<Rightarrow> bool" where
  "failure p \<longleftrightarrow> poll_rc p < 0 \<and> poll_rc p \<noteq> rc LIBUSB_ERROR_INTERRUPTED"

definition drains_on :: "poll \<Rightarrow> bool" where
  "drains_on p \<longleftrightarrow> poll_done p = None \<and> 0 \<le> poll_rc p"

lemma sync_wait_skip: "list_all waits_on qs \<Longrightarrow> sync_wait (qs @ ps) None = sync_wait ps None"
  by (induction qs) (auto simp: waits_on_def)

lemma drain_skip: "list_all drains_on qs \<Longrightarrow> drain (qs @ ps) None = drain ps None"
  by (induction qs) (auto simp: drains_on_def)

lemma drain_Some [simp]: "drain ps (Some c) = Inr (Some c)"
  by (cases ps) simp_all

text \<open>C14: how a synchronous bulk transfer ends, after any number of rounds of events that do not concern
  it and of interrupted ones. A round that completes it, and is not a failure, gives the result that
  the documentation assigns to the status, one for each, and the number of bytes is stored. A round
  that fails gives its error, whether or not the transfer was completed in it, and nothing is stored;
  if it was not, the transfer is cancelled and waited for until a round completes it or fails, and in
  the second case it is freed while it is still in flight.\<close>

theorem sync_bulk_outcomes:
  assumes "alloc_ok env" and "0 \<le> submit_rc env" and "polls env = qs @ p # ps" and "list_all waits_on qs"
  shows "(poll_done p = Some (st, n) \<and> \<not> failure p \<longrightarrow>
      (\<exists>res. do_sync_bulk_transfer h ep buf len timeout ty avail env = Inr res
        \<and> transferred res = Some (int (min n avail)) \<and> frees res = 1 \<and> \<not> in_flight res
        \<and> (ret res = 0 \<longleftrightarrow> st = TRANSFER_COMPLETED)
        \<and> (ret res = rc LIBUSB_ERROR_TIMEOUT \<longleftrightarrow> st = TRANSFER_TIMED_OUT)
        \<and> (ret res = rc LIBUSB_ERROR_PIPE \<longleftrightarrow> st = TRANSFER_STALL)
        \<and> (ret res = rc LIBUSB_ERROR_OVERFLOW \<longleftrightarrow> st = TRANSFER_OVERFLOW)
        \<and> (ret res = rc LIBUSB_ERROR_NO_DEVICE \<longleftrightarrow> st = TRANSFER_NO_DEVICE)
        \<and> (ret res = rc LIBUSB_ERROR_OTHER \<longleftrightarrow> st = TRANSFER_ERROR \<or> st = TRANSFER_CANCELLED)))
    \<and> (poll_done p = Some (st, n) \<and> failure p \<longrightarrow>
      (\<exists>res. do_sync_bulk_transfer h ep buf len timeout ty avail env = Inr res
        \<and> ret res = poll_rc p \<and> transferred res = None \<and> moved res = min n avail \<and> frees res = 1 \<and> \<not> in_flight res))
    \<and> (poll_done p = None \<and> failure p \<and> ps = rs @ q # qs' \<and> list_all drains_on rs \<and> \<not> drains_on q \<longrightarrow>
      (\<exists>res. do_sync_bulk_transfer h ep buf len timeout ty avail env = Inr res
        \<and> ret res = poll_rc p \<and> transferred res = None \<and> frees res = 1 \<and> (in_flight res \<longleftrightarrow> poll_done q = None)))"
proof -
  have wait: "sync_wait (polls env) None = sync_wait (p # ps) None"
    using assms(3,4) by (simp add: sync_wait_skip)
  have drain: "drain (rs @ q # qs') None = Inr (poll_done q)" if "list_all drains_on rs" "\<not> drains_on q"
    using that by (cases "poll_done q") (auto simp: drain_skip drains_on_def)
  have run: "do_sync_bulk_transfer h ep buf len timeout ty avail env
      = (let t = (fill_bulk_transfer zero_transfer h ep buf len timeout)\<lparr>xtype := ty\<rparr>
         in bindF (sync_wait (p # ps) None) (\<lambda>e. case e of
             Aborted r c \<Rightarrow> Inr \<lparr>ret = r, transferred = None,
                    moved = (case c of None \<Rightarrow> 0 | Some (st, n) \<Rightarrow> min n avail),
                    frees = 1, in_flight = (c = None), xfer = t\<rparr>
           | Done st n \<Rightarrow> Inr \<lparr>ret = bulk_status_rc st, transferred = Some (int (min n avail)),
                    moved = min n avail, frees = 1, in_flight = False,
                    xfer = t\<lparr>status := st, actual_length := int (min n avail)\<rparr>\<rparr>))"
    using assms(1,2) by (simp add: do_sync_bulk_transfer_def wait)
  show ?thesis
  proof (intro conjI impI)
    assume "poll_done p = Some (st, n) \<and> \<not> failure p"
    then have "sync_wait (p # ps) None = Inr (Done st n)" by (auto simp: failure_def)
    then show "\<exists>res. do_sync_bulk_transfer h ep buf len timeout ty avail env = Inr res
        \<and> transferred res = Some (int (min n avail)) \<and> frees res = 1 \<and> \<not> in_flight res
        \<and> (ret res = 0 \<longleftrightarrow> st = TRANSFER_COMPLETED)
        \<and> (ret res = rc LIBUSB_ERROR_TIMEOUT \<longleftrightarrow> st = TRANSFER_TIMED_OUT)
        \<and> (ret res = rc LIBUSB_ERROR_PIPE \<longleftrightarrow> st = TRANSFER_STALL)
        \<and> (ret res = rc LIBUSB_ERROR_OVERFLOW \<longleftrightarrow> st = TRANSFER_OVERFLOW)
        \<and> (ret res = rc LIBUSB_ERROR_NO_DEVICE \<longleftrightarrow> st = TRANSFER_NO_DEVICE)
        \<and> (ret res = rc LIBUSB_ERROR_OTHER \<longleftrightarrow> st = TRANSFER_ERROR \<or> st = TRANSFER_CANCELLED)"
      unfolding run by (cases st) (simp_all add: Let_def)
  next
    assume "poll_done p = Some (st, n) \<and> failure p"
    then show "\<exists>res. do_sync_bulk_transfer h ep buf len timeout ty avail env = Inr res
        \<and> ret res = poll_rc p \<and> transferred res = None \<and> moved res = min n avail \<and> frees res = 1 \<and> \<not> in_flight res"
      unfolding run by (simp add: failure_def Let_def)
  next
    assume "poll_done p = None \<and> failure p \<and> ps = rs @ q # qs' \<and> list_all drains_on rs \<and> \<not> drains_on q"
    then show "\<exists>res. do_sync_bulk_transfer h ep buf len timeout ty avail env = Inr res
        \<and> ret res = poll_rc p \<and> transferred res = None \<and> frees res = 1 \<and> (in_flight res \<longleftrightarrow> poll_done q = None)"
      unfolding run using drain by (simp add: failure_def Let_def)
  qed
qed

definition good_env :: "nat \<Rightarrow> sync_env" where
  "good_env n = \<lparr>alloc_ok = True, buf_ok = True, submit_rc = 0,
     polls = [\<lparr>poll_rc = -10, poll_done = None\<rparr>,
              \<lparr>poll_rc = 0, poll_done = Some (TRANSFER_COMPLETED, n)\<rparr>]\<rparr>"

text \<open>An interrupted round, a completion; and two rounds that fail before the transfer is complete.\<close>

definition failing_env :: sync_env where
  "failing_env = (good_env 2)\<lparr>polls := [\<lparr>poll_rc = -10, poll_done = None\<rparr>, \<lparr>poll_rc = -1, poll_done = None\<rparr>,
     \<lparr>poll_rc = 0, poll_done = None\<rparr>, \<lparr>poll_rc = -4, poll_done = None\<rparr>]\<rparr>"

theorem sync_bulk_outcomes_witness:
  "(\<exists>res. do_sync_bulk_transfer 1 2 [7, 8] 2 0 2 2 (good_env 2) = Inr res \<and> ret res = 0 \<and> transferred res = Some 2)
   \<and> (\<exists>res. do_sync_bulk_transfer 1 2 [7, 8] 2 0 2 2 failing_env = Inr res \<and> ret res = -1 \<and> frees res = 1 \<and> in_flight res)"
proof -
  let ?w = "\<lparr>poll_rc = -10, poll_done = None\<rparr> :: poll"
  have w: "list_all waits_on [?w]" by (simp add: waits_on_def)
  have g: "alloc_ok (good_env 2)" "0 \<le> submit_rc (good_env 2)"
    "polls (good_env 2) = [?w] @ \<lparr>poll_rc = 0, poll_done = Some (TRANSFER_COMPLETED, 2)\<rparr> # []" by (simp_all add: good_env_def)
  have f: "alloc_ok failing_env" "0 \<le> submit_rc failing_env"
    "polls failing_env = [?w] @ \<lparr>poll_rc = -1, poll_done = None\<rparr> #
      ([\<lparr>poll_rc = 0, poll_done = None\<rparr>] @ \<lparr>poll_rc = -4, poll_done = None\<rparr> # [])" by (simp_all add: failing_env_def good_env_def)
  from sync_bulk_outcomes [OF g w, of TRANSFER_COMPLETED 2 1 2 "[7, 8]" 2 0 2 2]
  have "\<exists>res. do_sync_bulk_transfer 1 2 [7, 8] 2 0 2 2 (good_env 2) = Inr res \<and> ret res = 0 \<and> transferred res = Some 2"
    by (auto simp: failure_def)
  moreover from sync_bulk_outcomes [OF f w, of TRANSFER_COMPLETED 2 1 2 "[7, 8]" 2 0 2 2
      "[\<lparr>poll_rc = 0, poll_done = None\<rparr>]" "\<lparr>poll_rc = -4, poll_done = None\<rparr>" "[]"]
  have "\<exists>res. do_sync_bulk_transfer 1 2 [7, 8] 2 0 2 2 failing_env = Inr res \<and> ret res = -1 \<and> frees res = 1 \<and> in_flight res"
    by (auto simp: drains_on_def failure_def)
  ultimately show ?thesis by blast
qed

text \<open>C15: a synchronous bulk transfer returns. If both allocation and submission succeed, no call
  of the event handler fails for good, and one of them completes the transfer, then the call
  returns with the return value of the transfer's status and the transfer is not freed while it is
  in flight, however many of the waits are interrupted before.\<close>

theorem sync_bulk_returns:
  assumes "alloc_ok env" "0 \<le> submit_rc env" "no_poll_fails (polls env)" "completes (polls env)"
  shows "\<exists>res. do_sync_bulk_transfer h ep buf len timeout ty avail env = Inr res
    \<and> ret res = bulk_status_rc (status (xfer res)) \<and> transferred res = Some (int (moved res))
    \<and> \<not> in_flight res"
proof -
  obtain st n where "sync_wait (polls env) None = Inr (Done st n)"
    using sync_wait_completes assms(3,4) by blast
  then show ?thesis using assms(1,2)
    by (auto simp: do_sync_bulk_transfer_def Let_def)
qed

theorem sync_bulk_returns_witness:
  "\<exists>res. do_sync_bulk_transfer 1 2 [7, 8] 2 0 2 2 (good_env 2) = Inr res \<and> \<not> in_flight res"
proof -
  have "no_poll_fails (polls (good_env 2))" "completes (polls (good_env 2))"
    by (simp_all add: good_env_def no_poll_fails_def completes_def)
  from sync_bulk_returns [OF _ _ this, of 1 2 "[7, 8]" 2 0 2 2] show ?thesis
    by (auto simp: good_env_def)
qed

text \<open>A failing event handler frees the transfer under the kernel. When event handling fails
  for good twice before the transfer has completed, the call cancels the transfer, stops waiting
  for the cancellation and frees the transfer while it is still in flight.\<close>

theorem sync_bulk_frees_in_flight:
  assumes "alloc_ok env" "0 \<le> submit_rc env"
    and "polls env = \<lparr>poll_rc = r, poll_done = None\<rparr> # \<lparr>poll_rc = r', poll_done = None\<rparr> # ps"
    and "r < 0" "r \<noteq> rc LIBUSB_ERROR_INTERRUPTED" "r' < 0"
  shows "\<exists>res. do_sync_bulk_transfer h ep buf len timeout ty avail env = Inr res
    \<and> ret res = r \<and> frees res = 1 \<and> in_flight res"
  using assms by (auto simp: do_sync_bulk_transfer_def Let_def)

theorem sync_bulk_frees_in_flight_witness:
  "\<exists>res. do_sync_bulk_transfer 1 2 [7, 8] 2 0 2 2
       ((good_env 2)\<lparr>polls := [\<lparr>poll_rc = -1, poll_done = None\<rparr>, \<lparr>poll_rc = -1, poll_done = None\<rparr>]\<rparr>)
     = Inr res \<and> in_flight res"
  using sync_bulk_frees_in_flight
    [of "(good_env 2)\<lparr>polls := [\<lparr>poll_rc = -1, poll_done = None\<rparr>, \<lparr>poll_rc = -1, poll_done = None\<rparr>]\<rparr>"
      "-1" "-1" "[]" 1 2 "[7, 8]" 2 0 2 2]
  by (auto simp: good_env_def)

end
