(* ===== verification/UsbIo.thy ===== *)
theory UsbIo
  imports SyncIo
begin

text \<open>
  The byte pipe over the bulk endpoints of one device (\<open>usb_libusb.c\<close>): \<open>usb_bulk_write\<close>,
  \<open>usb_bulk_read\<close>, and \<open>usb_write\<close> and \<open>usb_read\<close>, which cut a buffer into transfers of at most
  4096 bytes. The loops take the single-transfer function as an argument; the locales state what they
  rely on, and are interpreted on the transfers of \<^theory_text>\<open>SyncIo\<close>.
\<close>

section \<open>Handles\<close>

record usb_handle =
  h_prev :: ptr
  h_next :: ptr
  h_dev :: addr
  devh :: addr
  h_interface :: int
  dev_bus :: u8
  dev_addr :: u8
  zero_mask :: int
  ep0 :: u8
  ep1 :: u8
  serial :: string

section \<open>Single transfers\<close>

definition usb_bulk_write :: "usb_handle \<Rightarrow> usb_dev \<Rightarrow> u8 list \<Rightarrow> fault + int \<times> usb_dev" where
  "usb_bulk_write uh d dat =
     bindF (libusb_bulk_transfer (devh uh) (ep1 uh) dat (int (length dat)) 0 d) (\<lambda>(r, tr, bs, d').
       if r \<noteq> 0 then Inr (r, d') else Inr (case tr of None \<Rightarrow> 0 | Some n \<Rightarrow> n, d'))"

definition usb_bulk_read :: "usb_handle \<Rightarrow> usb_dev \<Rightarrow> int \<Rightarrow> fault + int \<times> u8 list \<times> usb_dev" where
  "usb_bulk_read uh d len =
     bindF (libusb_bulk_transfer (devh uh) (ep0 uh) [] len 0 d) (\<lambda>(r, tr, bs, d').
       if r \<noteq> 0 then Inr (r, bs, d') else Inr (case tr of None \<Rightarrow> 0 | Some n \<Rightarrow> n, bs, d'))"

section \<open>The loops\<close>

definition XFER_MAX :: nat where "XFER_MAX = 4096"

function usb_write_loop ::
    "('d \<Rightarrow> u8 list \<Rightarrow> fault + int \<times> 'd) \<Rightarrow> 'd \<Rightarrow> u8 list \<Rightarrow> fault + int \<times> 'd" where
  "usb_write_loop bw d dat =
     (if length dat > 0
      then let xfer = (if length dat > XFER_MAX then XFER_MAX else length dat)
           in bindF (bw d (take xfer dat)) (\<lambda>(n, d').
                if n \<noteq> int xfer then Inr (-1, d') else usb_write_loop bw d' (drop xfer dat))
      else Inr (0, d))"
  by pat_completeness auto
termination
  by (relation "measure (\<lambda>(bw, d, dat). length dat)") (auto simp: XFER_MAX_def)

function usb_read_loop ::
    "('d \<Rightarrow> int \<Rightarrow> fault + int \<times> u8 list \<times> 'd) \<Rightarrow> 'd \<Rightarrow> int \<Rightarrow> fault + int \<times> u8 list \<times> 'd" where
  "usb_read_loop br d len =
     (if len > 0
      then let xfer = (if len > int XFER_MAX then int XFER_MAX else len)
           in bindF (br d xfer) (\<lambda>(n, bs, d').
                if n \<noteq> xfer
                then if n > 0
                     then bindF (usb_read_loop br d' (len - n)) (\<lambda>(r, rest, d'').
                            Inr (r, bs @ rest, d''))
                     else Inr (-1, bs, d')
                else bindF (usb_read_loop br d' (len - xfer)) (\<lambda>(r, rest, d'').
                            Inr (r, bs @ rest, d'')))
      else Inr (0, [], d))"
  by pat_completeness auto
termination
  by (relation "measure (\<lambda>(br, d, len). nat len)") (auto simp: XFER_MAX_def)

declare usb_write_loop.simps [simp del] usb_read_loop.simps [simp del]

lemma usb_write_loop_Nil [simp]: "usb_write_loop bw d [] = Inr (0, d)"
  by (simp add: usb_write_loop.simps [of _ _ "[]"])

lemma usb_write_loop_step:
  "xs \<noteq> [] \<Longrightarrow> usb_write_loop bw d xs =
     bindF (bw d (take XFER_MAX xs)) (\<lambda>(n, d').
       if n \<noteq> int (min XFER_MAX (length xs)) then Inr (-1, d')
       else usb_write_loop bw d' (drop XFER_MAX xs))"
  by (cases "length xs > XFER_MAX"; subst usb_write_loop.simps) (simp_all add: Let_def cong: if_cong)

lemma usb_read_loop_0 [simp]: "len \<le> 0 \<Longrightarrow> usb_read_loop br d len = Inr (0, [], d)"
  by (simp add: usb_read_loop.simps [of _ _ len])

text \<open>One round of reading: a short transfer is continued with what is missing.\<close>

lemma usb_read_loop_step:
  "len > 0 \<Longrightarrow> usb_read_loop br d len =
     bindF (br d (min len (int XFER_MAX))) (\<lambda>(n, bs, d').
       if n > 0 \<or> n = min len (int XFER_MAX)
       then bindF (usb_read_loop br d' (len - n)) (\<lambda>(r, rest, d''). Inr (r, bs @ rest, d''))
       else Inr (-1, bs, d'))"
  by (subst usb_read_loop.simps)
    (auto simp: Let_def min_def XFER_MAX_def intro!: bindF_cong)

definition usb_write_with ::
    "('d \<Rightarrow> u8 list \<Rightarrow> fault + int \<times> 'd) \<Rightarrow> int \<Rightarrow> 'd \<Rightarrow> u8 list \<Rightarrow> fault + int \<times> 'd" where
  "usb_write_with bw zmask d dat =
     (let need_zero = (zmask = 1 \<and> (int (length dat) AND zmask) = 0)
      in bindF (usb_write_loop bw d dat) (\<lambda>(r, d').
           if r \<noteq> 0 then Inr (r, d')
           else if need_zero then bw d' [] else Inr (0, d')))"

definition usb_write :: "usb_handle \<Rightarrow> usb_dev \<Rightarrow> u8 list \<Rightarrow> fault + int \<times> usb_dev" where
  "usb_write uh d dat = usb_write_with (usb_bulk_write uh) (zero_mask uh) d dat"

definition usb_read :: "usb_handle \<Rightarrow> usb_dev \<Rightarrow> int \<Rightarrow> fault + int \<times> u8 list \<times> usb_dev" where
  "usb_read uh d len = usb_read_loop (usb_bulk_read uh) d len"

section \<open>What the loops rely on\<close>

text \<open>A transfer to the device appends a prefix of the data to what the device has received, all of
  the prefix that a non-negative result counts; a transfer from the device takes a prefix of what the
  device has left to send.\<close>

lemma take_prefix_append:
  "j \<le> length (drop m xs) \<Longrightarrow> \<exists>k \<le> length xs. take m xs @ take j (drop m xs) = take k xs"
  by (rule exI [of _ "min (m + j) (length xs)"]) (simp add: take_add min_def)

locale bulk_out_pipe =
  fixes ok :: "'h \<Rightarrow> bool"
    and bulk_w :: "'h \<Rightarrow> 'd \<Rightarrow> u8 list \<Rightarrow> fault + int \<times> 'd"
    and outp :: "'d \<Rightarrow> u8 list"
  assumes w_law: "ok h \<Longrightarrow> bulk_w h d xs = Inr (n, d') \<Longrightarrow>
      \<exists>k \<le> length xs. outp d' = outp d @ take k xs \<and> (0 \<le> n \<longrightarrow> n = int k)"
begin

lemma write_loop_prefix:
  "ok h \<Longrightarrow> usb_write_loop (bulk_w h) d xs = Inr (r, d') \<Longrightarrow>
     r = 0 \<and> outp d' = outp d @ xs \<or> r = -1 \<and> (\<exists>k \<le> length xs. outp d' = outp d @ take k xs)"
proof (induction xs arbitrary: d rule: length_induct)
  case (1 xs)
  show ?case
  proof (cases "xs = []")
    case True
    with "1.prems" show ?thesis by simp
  next
    case False
    with "1.prems" obtain n d1 where bw: "bulk_w h d (take XFER_MAX xs) = Inr (n, d1)"
      and rest: "(if n \<noteq> int (min XFER_MAX (length xs)) then Inr (-1, d1)
        else usb_write_loop (bulk_w h) d1 (drop XFER_MAX xs)) = Inr (r, d')"
      by (auto simp: usb_write_loop_step)
    obtain k where k: "k \<le> min XFER_MAX (length xs)" "outp d1 = outp d @ take k xs"
      "0 \<le> n \<longrightarrow> n = int k"
    proof -
      from w_law [OF "1.prems"(1) bw] obtain k where "k \<le> min (length xs) XFER_MAX"
        "outp d1 = outp d @ take k (take XFER_MAX xs)" "0 \<le> n \<longrightarrow> n = int k" by auto
      then show ?thesis using that [of k] by (simp add: take_take min.commute)
    qed
    show ?thesis
    proof (cases "n = int (min XFER_MAX (length xs))")
      case False
      with rest k show ?thesis by (auto split: if_splits)
    next
      case True
      have "length (drop XFER_MAX xs) < length xs" using \<open>xs \<noteq> []\<close> by (simp add: XFER_MAX_def)
      moreover have run: "usb_write_loop (bulk_w h) d1 (drop XFER_MAX xs) = Inr (r, d')"
        using True rest by simp
      ultimately have IH: "r = 0 \<and> outp d' = outp d1 @ drop XFER_MAX xs
          \<or> r = -1 \<and> (\<exists>j \<le> length (drop XFER_MAX xs). outp d' = outp d1 @ take j (drop XFER_MAX xs))"
        using "1.IH" "1.prems"(1) run by blast
      have d1: "outp d1 = outp d @ take XFER_MAX xs" using True k by (auto simp: min_def split: if_splits)
      from IH show ?thesis
      proof
        assume "r = -1 \<and> (\<exists>j \<le> length (drop XFER_MAX xs).
            outp d' = outp d1 @ take j (drop XFER_MAX xs))"
        then show ?thesis using take_prefix_append [of _ XFER_MAX xs] d1 by fastforce
      qed (simp add: d1)
    qed
  qed
qed

end

locale bulk_in_pipe =
  fixes ok :: "'h \<Rightarrow> bool"
    and bulk_r :: "'h \<Rightarrow> 'd \<Rightarrow> int \<Rightarrow> fault + int \<times> u8 list \<times> 'd"
    and inp :: "'d \<Rightarrow> u8 list"
  assumes r_law: "ok h \<Longrightarrow> bulk_r h d len = Inr (n, bs, d') \<Longrightarrow>
      inp d = bs @ inp d' \<and> length bs \<le> nat len \<and> (0 \<le> n \<longrightarrow> n = int (length bs))"
begin

lemma read_loop_stream:
  "ok h \<Longrightarrow> usb_read_loop (bulk_r h) d len = Inr (r, bs, d') \<Longrightarrow>
     inp d = bs @ inp d' \<and> (r = 0 \<and> length bs = nat len \<or> r = -1 \<and> length bs \<le> nat len)"
proof (induction "nat len" arbitrary: d len bs rule: less_induct)
  case less
  show ?case
  proof (cases "len > 0")
    case False
    with less.prems show ?thesis by simp
  next
    case True
    with less.prems obtain n b1 d1 where br: "bulk_r h d (min len (int XFER_MAX)) = Inr (n, b1, d1)"
      and rest: "(if n > 0 \<or> n = min len (int XFER_MAX)
         then bindF (usb_read_loop (bulk_r h) d1 (len - n)) (\<lambda>(r, rest, d''). Inr (r, b1 @ rest, d''))
         else Inr (-1, b1, d1)) = Inr (r, bs, d')"
      by (auto simp: usb_read_loop_step)
    note law = r_law [OF less.prems(1) br]
    show ?thesis
    proof (cases "n > 0 \<or> n = min len (int XFER_MAX)")
      case False
      with rest law show ?thesis by auto
    next
      case go: True
      then have "n > 0" using True by (auto simp: XFER_MAX_def)
      from go rest obtain b2 where b2: "usb_read_loop (bulk_r h) d1 (len - n) = Inr (r, b2, d')"
        "bs = b1 @ b2" by auto
      have "nat (len - n) < nat len" using \<open>n > 0\<close> True by simp
      from less.hyps [OF this less.prems(1) b2(1)] law \<open>n > 0\<close> b2(2) show ?thesis by auto
    qed
  qed
qed

end

locale bulk_pipe = bulk_out_pipe ok bulk_w outp + bulk_in_pipe ok bulk_r inp
  for ok :: "'h \<Rightarrow> bool" and bulk_w :: "'h \<Rightarrow> 'd \<Rightarrow> u8 list \<Rightarrow> fault + int \<times> 'd" and outp
    and bulk_r :: "'h \<Rightarrow> 'd \<Rightarrow> int \<Rightarrow> fault + int \<times> u8 list \<times> 'd" and inp +
  assumes w_frame: "ok h \<Longrightarrow> bulk_w h d xs = Inr (n, d') \<Longrightarrow> inp d' = inp d"
    and r_frame: "ok h \<Longrightarrow> bulk_r h d len = Inr (n, bs, d') \<Longrightarrow> outp d' = outp d"
begin

lemma write_loop_frame:
  "ok h \<Longrightarrow> usb_write_loop (bulk_w h) d xs = Inr (r, d') \<Longrightarrow> inp d' = inp d"
proof (induction xs arbitrary: d rule: length_induct)
  case (1 xs)
  show ?case
  proof (cases "xs = []")
    case False
    then have less: "length (drop XFER_MAX xs) < length xs" by (simp add: XFER_MAX_def)
    from False "1.prems" obtain n d1 where bw: "bulk_w h d (take XFER_MAX xs) = Inr (n, d1)"
      and rest: "(if n \<noteq> int (min XFER_MAX (length xs)) then Inr (-1, d1)
        else usb_write_loop (bulk_w h) d1 (drop XFER_MAX xs)) = Inr (r, d')"
      by (auto simp: usb_write_loop_step)
    show ?thesis
    proof (cases "n = int (min XFER_MAX (length xs))")
      case True
      with rest have "usb_write_loop (bulk_w h) d1 (drop XFER_MAX xs) = Inr (r, d')" by simp
      with "1.IH" "1.prems"(1) less have "inp d' = inp d1" by blast
      then show ?thesis using w_frame [OF "1.prems"(1) bw] by simp
    qed (use rest w_frame [OF "1.prems"(1) bw] in simp)
  qed (use 1 in simp)
qed

lemma read_loop_frame:
  "ok h \<Longrightarrow> usb_read_loop (bulk_r h) d len = Inr (r, bs, d') \<Longrightarrow> outp d' = outp d"
proof (induction "nat len" arbitrary: d len bs rule: less_induct)
  case less
  show ?case
  proof (cases "len > 0")
    case True
    with less.prems obtain n b1 d1 where br: "bulk_r h d (min len (int XFER_MAX)) = Inr (n, b1, d1)"
      and rest: "(if n > 0 \<or> n = min len (int XFER_MAX)
         then bindF (usb_read_loop (bulk_r h) d1 (len - n)) (\<lambda>(r, rest, d''). Inr (r, b1 @ rest, d''))
         else Inr (-1, b1, d1)) = Inr (r, bs, d')"
      by (auto simp: usb_read_loop_step)
    show ?thesis
    proof (cases "n > 0 \<or> n = min len (int XFER_MAX)")
      case go: True
      then have "nat (len - n) < nat len" using True by (auto simp: XFER_MAX_def)
      moreover obtain b2 where "usb_read_loop (bulk_r h) d1 (len - n) = Inr (r, b2, d')"
        using go rest by auto
      ultimately have "outp d' = outp d1" using less.hyps less.prems(1) by blast
      then show ?thesis using r_frame [OF less.prems(1) br] by simp
    qed (use rest r_frame [OF less.prems(1) br] in auto)
  qed (use less.prems in simp)
qed

end

section \<open>The pipe of a handle\<close>

definition dev_out :: "usb_dev \<Rightarrow> u8 list" where
  "dev_out d = concat (out_xfers d)"

text \<open>A handle whose two endpoint addresses have the directions the code assumes.\<close>

definition wf_handle :: "usb_handle \<Rightarrow> bool" where
  "wf_handle uh \<longleftrightarrow> is_in (ep0 uh) \<and> \<not> is_in (ep1 uh)"

lemma usb_bulk_write_law:
  assumes "\<not> is_in (ep1 uh)" and "usb_bulk_write uh d xs = Inr (n, d')"
  shows "(\<exists>k \<le> length xs. dev_out d' = dev_out d @ take k xs \<and> (0 \<le> n \<longrightarrow> n = int k
        \<and> out_xfers d' = out_xfers d @ [take k xs]))
    \<and> in_stream d' = in_stream d"
proof -
  from assms(2) obtain r tr bs where
    "libusb_bulk_transfer (devh uh) (ep1 uh) xs (int (length xs)) 0 d = Inr (r, tr, bs, d')"
    and n: "n = (if r \<noteq> 0 then r else case tr of None \<Rightarrow> 0 | Some n \<Rightarrow> n)"
    by (auto simp: usb_bulk_write_def split: if_splits)
  from bulk_out [OF this(1) assms(1)] n show ?thesis
    by (auto simp: dev_out_def split: if_splits)
qed

lemma usb_bulk_read_law:
  assumes "is_in (ep0 uh)" and "usb_bulk_read uh d len = Inr (n, bs, d')"
  shows "in_stream d = bs @ in_stream d' \<and> length bs \<le> nat len \<and> (0 \<le> n \<longrightarrow> n = int (length bs))
    \<and> out_xfers d' = out_xfers d"
proof -
  from assms(2) obtain r tr where
    "libusb_bulk_transfer (devh uh) (ep0 uh) [] len 0 d = Inr (r, tr, bs, d')"
    and n: "n = (if r \<noteq> 0 then r else case tr of None \<Rightarrow> 0 | Some n \<Rightarrow> n)"
    by (auto simp: usb_bulk_read_def split: if_splits)
  from bulk_in [OF this(1) assms(1)] n show ?thesis
    by (auto split: if_splits)
qed

text \<open>The bulk transfers of a well-formed handle keep the laws of the pipe.\<close>

interpretation usb: bulk_pipe wf_handle usb_bulk_write dev_out usb_bulk_read in_stream
proof unfold_locales
  fix uh d xs n d'
  assume "wf_handle uh" "usb_bulk_write uh d xs = Inr (n, d')"
  then show "\<exists>k \<le> length xs. dev_out d' = dev_out d @ take k xs \<and> (0 \<le> n \<longrightarrow> n = int k)"
    and "in_stream d' = in_stream d"
    by (fastforce simp: wf_handle_def dest: usb_bulk_write_law)+
next
  fix uh d len n bs d'
  assume "wf_handle uh" "usb_bulk_read uh d len = Inr (n, bs, d')"
  then show "in_stream d = bs @ in_stream d' \<and> length bs \<le> nat len \<and> (0 \<le> n \<longrightarrow> n = int (length bs))"
    and "dev_out d' = dev_out d"
    using usb_bulk_read_law by (auto simp: wf_handle_def dev_out_def)
qed

section \<open>Whole buffers\<close>

lemma usb_write_law:
  assumes "wf_handle uh" and "usb_write uh d dat = Inr (r, d')"
  shows "in_stream d' = in_stream d
    \<and> (r = 0 \<longrightarrow> dev_out d' = dev_out d @ dat)
    \<and> (\<exists>k \<le> length dat. dev_out d' = dev_out d @ take k dat)"
proof -
  from assms(2) obtain r1 d1 where loop: "usb_write_loop (usb_bulk_write uh) d dat = Inr (r1, d1)"
    and rest: "(if r1 \<noteq> 0 then Inr (r1, d1)
      else if zero_mask uh = 1 \<and> (int (length dat) AND zero_mask uh) = 0
      then usb_bulk_write uh d1 [] else Inr (0, d1)) = Inr (r, d')"
    by (auto simp: usb_write_def usb_write_with_def)
  note l = usb.write_loop_prefix [OF assms(1) loop] usb.write_loop_frame [OF assms(1) loop]
  show ?thesis
  proof (cases "r1 = 0 \<and> zero_mask uh = 1 \<and> (int (length dat) AND zero_mask uh) = 0")
    case True
    with rest have z: "usb_bulk_write uh d1 [] = Inr (r, d')" by (metis (full_types))
    have "dev_out d' = dev_out d1 \<and> in_stream d' = in_stream d1"
      using usb.w_law [OF assms(1) z] usb.w_frame [OF assms(1) z] by simp
    with l True show ?thesis by (auto intro!: exI [of _ "length dat"])
  next
    case False
    with rest have "r = r1" "d' = d1" by (auto split: if_splits)
    with l show ?thesis by (auto intro: exI [of _ "length dat"])
  qed
qed

lemma usb_read_law:
  assumes "wf_handle uh" and "usb_read uh d len = Inr (r, bs, d')"
  shows "in_stream d = bs @ in_stream d' \<and> dev_out d' = dev_out d
    \<and> (r = 0 \<and> length bs = nat len \<or> r = -1 \<and> length bs \<le> nat len)"
  using usb.read_loop_stream [OF assms(1)] usb.read_loop_frame [OF assms(1)] assms(2)
  by (simp add: usb_read_def)

section \<open>Properties\<close>

text \<open>C12: writing to the device. On a well-formed handle, \<open>usb_write\<close> returns 0 only when the
  device has received all of the data, in order and after what it had received before; on any other
  value the device has received a prefix of it. Writing never consumes what the device sends.\<close>

theorem usb_write_delivers:
  assumes "wf_handle uh" and "usb_write uh d dat = Inr (r, d')"
  shows "in_stream d' = in_stream d
    \<and> (r = 0 \<longrightarrow> dev_out d' = dev_out d @ dat)
    \<and> (\<exists>k \<le> length dat. dev_out d' = dev_out d @ take k dat)"
  by (rule usb_write_law [OF assms])

definition sample_handle :: usb_handle where
  "sample_handle = \<lparr>h_prev = None, h_next = None, h_dev = 1, devh = 1, h_interface = 0,
     dev_bus = 1, dev_addr = 2, zero_mask = 511, ep0 = 0x81, ep1 = 0x02, serial = []\<rparr>"

definition sample_dev :: usb_dev where
  "sample_dev = \<lparr>in_stream = [10, 20, 30, 40, 50], out_xfers = [],
     envs = [good_env 2, good_env 3, good_env 1]\<rparr>"

lemma wf_sample_handle: "wf_handle sample_handle"
  by (simp add: wf_handle_def is_in_def endpoint_dir_defs sample_handle_def)

lemmas io_eval = usb_bulk_write_def usb_bulk_read_def libusb_bulk_transfer_def
  do_sync_bulk_transfer_def is_in_def endpoint_dir_defs Let_def good_env_def
  sample_handle_def sample_dev_def XFER_MAX_def

theorem usb_write_delivers_witness:
  "\<exists>d'. usb_write sample_handle sample_dev [7, 8] = Inr (0, d') \<and> dev_out d' = [7, 8]"
proof -
  obtain d' where run: "usb_write sample_handle sample_dev [7, 8] = Inr (0, d')"
    by (simp add: usb_write_def usb_write_with_def usb_write_loop_step io_eval)
  from usb_write_delivers [OF wf_sample_handle this] run show ?thesis
    by (simp add: dev_out_def sample_dev_def)
qed

text \<open>C13: reading from the device. On a well-formed handle, what \<open>usb_read\<close> stores is what the
  device has sent, in order and without gaps, whatever the sizes of the transfers it arrives in;
  0 is returned exactly when all \<open>len\<close> bytes have been stored, and -1 otherwise. Reading sends
  nothing to the device.\<close>

theorem usb_read_stream:
  assumes "wf_handle uh" and "usb_read uh d len = Inr (r, bs, d')"
  shows "in_stream d = bs @ in_stream d' \<and> dev_out d' = dev_out d
    \<and> (r = 0 \<and> length bs = nat len \<or> r = -1 \<and> length bs \<le> nat len)"
  by (rule usb_read_law [OF assms])

theorem usb_read_stream_witness:
  "\<exists>bs d'. usb_read sample_handle sample_dev 4 = Inr (0, bs, d') \<and> length bs = 4
     \<and> in_stream sample_dev = bs @ in_stream d'"
proof -
  obtain bs d' where run: "usb_read sample_handle sample_dev 4 = Inr (0, bs, d')"
    by (simp add: usb_read_def usb_read_loop_step io_eval)
  from usb_read_stream [OF wf_sample_handle this] run show ?thesis by auto
qed

text \<open>A script of a call that succeeds and moves at least one byte.\<close>

definition progresses :: "sync_env \<Rightarrow> bool" where
  "progresses e \<longleftrightarrow> alloc_ok e \<and> 0 \<le> submit_rc e \<and> no_poll_fails (polls e) \<and> completes (polls e)
     \<and> list_all (\<lambda>p. case poll_done p of None \<Rightarrow> True
          | Some (st, n) \<Rightarrow> st = TRANSFER_COMPLETED \<and> 0 < n) (polls e)"

lemma sync_wait_progress:
  "no_poll_fails ps \<Longrightarrow> completes ps \<Longrightarrow>
   list_all (\<lambda>p. case poll_done p of None \<Rightarrow> True
          | Some (st, n) \<Rightarrow> st = TRANSFER_COMPLETED \<and> 0 < n) ps \<Longrightarrow>
   \<exists>n > 0. sync_wait ps None = Inr (Done TRANSFER_COMPLETED n)"
proof (induction ps)
  case (Cons p ps)
  then show ?case
    by (cases "poll_done p") (auto simp: no_poll_fails_def completes_def)
qed (simp add: completes_def)

lemma usb_bulk_read_progress:
  assumes "wf_handle uh" "envs d = e # es" "progresses e" "len > 0" "in_stream d \<noteq> []"
  shows "\<exists>n d'. usb_bulk_read uh d len = Inr (int n, take n (in_stream d), d') \<and> 0 < n
    \<and> n \<le> nat len \<and> envs d' = es \<and> in_stream d' = drop n (in_stream d)"
proof -
  obtain n where n: "n > 0" "sync_wait (polls e) None = Inr (Done TRANSFER_COMPLETED n)"
    using assms(3) sync_wait_progress by (auto simp: progresses_def)
  let ?m = "min n (min (nat len) (length (in_stream d)))"
  show ?thesis
    by (rule exI [of _ ?m])
      (use assms n in \<open>simp add: usb_bulk_read_def libusb_bulk_transfer_def wf_handle_def
        do_sync_bulk_transfer_def progresses_def\<close>)
qed

lemma usb_read_progress:
  assumes "wf_handle uh"
  shows "nat len \<le> length (in_stream d) \<Longrightarrow> nat len \<le> length (envs d) \<Longrightarrow>
    list_all progresses (take (nat len) (envs d)) \<Longrightarrow>
    \<exists>d' k. usb_read_loop (usb_bulk_read uh) d len = Inr (0, take (nat len) (in_stream d), d')
      \<and> in_stream d' = drop (nat len) (in_stream d) \<and> envs d' = drop k (envs d) \<and> k \<le> nat len"
proof (induction "nat len" arbitrary: d len rule: less_induct)
  case less
  show ?case
  proof (cases "len > 0")
    case True
    then obtain e es where es: "envs d = e # es" "progresses e"
      using less.prems by (cases "envs d") (auto simp: take_Cons' split: if_splits)
    have "in_stream d \<noteq> []" using True less.prems by auto
    then obtain n d1 where n: "usb_bulk_read uh d (min len (int XFER_MAX))
          = Inr (int n, take n (in_stream d), d1)" "0 < n" "n \<le> nat (min len (int XFER_MAX))"
        "envs d1 = es" "in_stream d1 = drop n (in_stream d)"
      using usb_bulk_read_progress [OF assms es, of "min len (int XFER_MAX)"] True
      by (auto simp: XFER_MAX_def)
    have less_n: "nat (len - int n) < nat len" using n(2) True by simp
    have "list_all progresses (take (nat len - 1) es)"
      using less.prems es True by (auto simp: take_Cons' split: if_splits)
    then have "list_all progresses (take (nat (len - int n)) es)"
      by (rule list_all_take_le) (use n(2) in simp)
    moreover have bounds: "nat (len - int n) \<le> length (in_stream d) - n"
        "nat (len - int n) \<le> length es"
      using less.prems(1,2) n(2,3) es True by (auto simp: le_diff_conv)
    ultimately obtain d2 k where run: "usb_read_loop (usb_bulk_read uh) d1 (len - int n)
        = Inr (0, take (nat (len - int n)) (drop n (in_stream d)), d2)"
      and d2: "in_stream d2 = drop (nat (len - int n)) (drop n (in_stream d))"
        "envs d2 = drop k es" "k \<le> nat (len - int n)"
      using less.hyps [OF less_n, of d1] bounds n(4,5) by auto
    have sum: "n + nat (len - int n) = nat len" using n(3) True by auto
    then have "take n (in_stream d) @ take (nat (len - int n)) (drop n (in_stream d))
        = take (nat len) (in_stream d)" by (metis take_add)
    moreover have "in_stream d2 = drop (nat len) (in_stream d)" using d2(1) sum by (simp add: add.commute)
    moreover have "envs d2 = drop (Suc k) (envs d)" "Suc k \<le> nat len" using d2(2,3) es n(2) True by auto
    ultimately show ?thesis using True n(1,2) run
      by (intro exI [of _ d2] exI [of _ "Suc k"]) (simp add: usb_read_loop_step)
  qed (auto intro: exI [of _ 0])
qed

text \<open>Reading returns. If the device has \<open>len\<close> bytes to send and each of the next \<open>len\<close> calls
  succeeds and moves at least one byte, then \<open>usb_read\<close> returns 0 with exactly these bytes: the
  loop over short transfers ends after at most \<open>len\<close> rounds.\<close>

theorem usb_read_returns:
  assumes "wf_handle uh" "nat len \<le> length (in_stream d)" "nat len \<le> length (envs d)"
    and "list_all progresses (take (nat len) (envs d))"
  shows "\<exists>d'. usb_read uh d len = Inr (0, take (nat len) (in_stream d), d')"
  using usb_read_progress [OF assms(1), of len d] assms(2-4) by (auto simp: usb_read_def)

theorem usb_read_returns_witness:
  "\<exists>d'. usb_read sample_handle sample_dev 3 = Inr (0, [10, 20, 30], d')"
proof -
  have "list_all progresses (take (nat 3) (envs sample_dev))"
    by (simp add: sample_dev_def progresses_def good_env_def no_poll_fails_def completes_def)
  from usb_read_returns [OF wf_sample_handle _ _ this] show ?thesis
    by (simp add: sample_dev_def)
qed

text \<open>The cut of a buffer into transfers.\<close>

fun chunks :: "nat \<Rightarrow> u8 list \<Rightarrow> u8 list list" where
  "chunks n xs = (if xs = [] \<or> n = 0 then [] else take n xs # chunks n (drop n xs))"

declare chunks.simps [simp del]

text \<open>No zero-length packet is sent. For every packet size but 2, that is, whenever
  \<open>zero_mask\<close> is not 1, a successful \<open>usb_write\<close> consists of the 4096-byte cut of the data and
  nothing else: a message that is a multiple of the packet size is not terminated by an empty
  transfer, although the handle's \<open>zero_mask\<close> was set for that purpose.\<close>

theorem usb_write_no_terminator:
  assumes "wf_handle uh" "zero_mask uh \<noteq> 1" "usb_write uh d dat = Inr (0, d')"
  shows "out_xfers d' = out_xfers d @ chunks XFER_MAX dat"
proof -
  have "usb_write_loop (usb_bulk_write uh) d dat = Inr (0, d')"
    using assms(2,3) by (auto simp: usb_write_def usb_write_with_def split: if_splits)
  then show ?thesis
  proof (induction dat arbitrary: d rule: length_induct)
    case (1 dat)
    show ?case
    proof (cases "dat = []")
      case False
      with "1.prems" obtain n d1 where bw: "usb_bulk_write uh d (take XFER_MAX dat) = Inr (n, d1)"
        and rest: "(if n \<noteq> int (min XFER_MAX (length dat)) then Inr (-1, d1)
          else usb_write_loop (usb_bulk_write uh) d1 (drop XFER_MAX dat)) = Inr (0, d')"
        by (auto simp: usb_write_loop_step)
      then have n: "n = int (min XFER_MAX (length dat))"
        and loop: "usb_write_loop (usb_bulk_write uh) d1 (drop XFER_MAX dat) = Inr (0, d')"
        by (auto split: if_splits)
      have "out_xfers d1 = out_xfers d @ [take XFER_MAX dat]"
        using usb_bulk_write_law [OF _ bw] assms(1) n
        by (auto simp: wf_handle_def min_def split: if_splits)
      moreover have "length (drop XFER_MAX dat) < length dat" using False by (simp add: XFER_MAX_def)
      then have "out_xfers d' = out_xfers d1 @ chunks XFER_MAX (drop XFER_MAX dat)"
        using "1.IH" loop by blast
      ultimately show ?thesis using False
        by (subst chunks.simps) (simp add: XFER_MAX_def)
    qed (use 1 in \<open>simp add: chunks.simps\<close>)
  qed
qed

theorem usb_write_no_terminator_witness:
  "\<exists>d'. usb_write sample_handle sample_dev [7, 8] = Inr (0, d') \<and> out_xfers d' = [[7, 8]]"
proof -
  obtain d' where run: "usb_write sample_handle sample_dev [7, 8] = Inr (0, d')"
    by (simp add: usb_write_def usb_write_with_def usb_write_loop_step io_eval)
  from usb_write_no_terminator [OF wf_sample_handle _ this] run show ?thesis
    by (simp add: sample_handle_def sample_dev_def chunks.simps XFER_MAX_def)
qed

end
