(* ===== verification/Fifo.thy ===== *)
theory Fifo
  imports Prelude
begin

text \<open>
  Queues linked through their elements: a head pointer, a tail pointer and a \<open>next\<close> pointer in every
  element, as \<open>received\<close>/\<open>last\<close> in \<open>send.c\<close> and \<open>keylist\<close>/\<open>last\<close> in \<open>keycode.c\<close> have it. The heap is
  seen through the map from the allocated addresses to their \<open>next\<close> pointers. The locale
  \<open>fifo_queue\<close> is the contract of such a queue: first in, first out over any legal use.
\<close>

section \<open>Chains of next pointers\<close>

fun chain :: "(addr \<rightharpoonup> ptr) \<Rightarrow> ptr \<Rightarrow> addr list \<Rightarrow> bool" where
  "chain n p [] = (p = None)"
| "chain n p (a # as) = (p = Some a \<and> (case n a of None \<Rightarrow> False | Some q \<Rightarrow> chain n q as))"

definition fifo_rep :: "(addr \<rightharpoonup> ptr) \<Rightarrow> ptr \<Rightarrow> ptr \<Rightarrow> addr list \<Rightarrow> bool" where
  "fifo_rep n hd_p tl_p xs \<longleftrightarrow>
     chain n hd_p xs \<and> distinct xs \<and> tl_p = (if xs = [] then None else Some (last xs))"

lemma chain_upd_other [simp]: "a \<notin> set xs \<Longrightarrow> chain (n(a := v)) p xs = chain n p xs"
  by (induction xs arbitrary: p) (auto split: option.splits)

lemma chain_dom: "chain n p xs \<Longrightarrow> set xs \<subseteq> dom n"
  by (induction xs arbitrary: p) (auto split: option.splits)

lemma chain_unique: "chain n p xs \<Longrightarrow> chain n p ys \<Longrightarrow> xs = ys"
proof (induction xs arbitrary: p ys)
  case Nil
  then show ?case by (cases ys) auto
next
  case (Cons a xs)
  then show ?case by (cases ys) (auto split: option.splits)
qed

lemma chain_last: "chain n p xs \<Longrightarrow> xs \<noteq> [] \<Longrightarrow> n (last xs) = Some None"
  by (induction xs arbitrary: p) (auto split: option.splits if_splits)

lemma chain_append:
  "chain n p xs \<Longrightarrow> distinct xs \<Longrightarrow> xs \<noteq> [] \<Longrightarrow> b \<notin> set xs \<Longrightarrow>
     chain (n(last xs \<mapsto> Some b, b \<mapsto> None)) p (xs @ [b])"
proof (induction xs arbitrary: p)
  case (Cons a xs)
  show ?case
  proof (cases "xs = []")
    case False
    with Cons.prems have "a \<noteq> last xs" "a \<noteq> b" by auto
    with Cons False show ?thesis by (auto split: option.splits)
  qed (use Cons.prems in auto)
qed simp

lemma fifo_rep_Nil: "fifo_rep n hd_p tl_p [] \<longleftrightarrow> hd_p = None \<and> tl_p = None"
  by (auto simp: fifo_rep_def)

lemma fifo_rep_empty_iff: "fifo_rep n hd_p tl_p xs \<Longrightarrow> hd_p = None \<longleftrightarrow> xs = []"
  by (cases xs) (auto simp: fifo_rep_def)

lemma fifo_rep_enq_empty:
  "fifo_rep (n(p \<mapsto> None)) (Some p) (Some p) [p]"
  by (simp add: fifo_rep_def)

lemma fifo_rep_enq:
  "fifo_rep n hd_p tl_p xs \<Longrightarrow> xs \<noteq> [] \<Longrightarrow> p \<notin> set xs \<Longrightarrow>
     fifo_rep (n(last xs \<mapsto> Some p, p \<mapsto> None)) hd_p (Some p) (xs @ [p])"
  by (auto simp: fifo_rep_def chain_append simp del: fun_upd_apply)

lemma fifo_rep_deq:
  "fifo_rep n hd_p tl_p (x # xs) \<Longrightarrow>
     hd_p = Some x \<and> (\<exists>q. n x = Some q
       \<and> fifo_rep n q (if q = None then None else tl_p) xs)"
  by (cases xs) (auto simp: fifo_rep_def split: option.splits)

lemma fifo_rep_cong: "fifo_rep n hd_p tl_p xs \<Longrightarrow> (\<And>a. a \<in> set xs \<Longrightarrow> n a = m a) \<Longrightarrow>
   fifo_rep m hd_p tl_p xs"
proof -
  have "chain n p xs \<Longrightarrow> (\<And>a. a \<in> set xs \<Longrightarrow> n a = m a) \<Longrightarrow> chain m p xs" for p
    by (induction xs arbitrary: p) (auto split: option.splits)
  then show "fifo_rep n hd_p tl_p xs \<Longrightarrow> (\<And>a. a \<in> set xs \<Longrightarrow> n a = m a) \<Longrightarrow>
    fifo_rep m hd_p tl_p xs" by (auto simp: fifo_rep_def)
qed

section \<open>The contract of a queue\<close>

datatype fifo_op = Put addr | Get

text \<open>What a queue must answer: the results of the \<open>Get\<close>s and the elements left.\<close>

fun fifo_spec :: "fifo_op list \<Rightarrow> addr list \<Rightarrow> ptr list \<times> addr list" where
  "fifo_spec [] xs = ([], xs)"
| "fifo_spec (Put p # ops) xs = fifo_spec ops (xs @ [p])"
| "fifo_spec (Get # ops) [] = (let (rs, ys) = fifo_spec ops [] in (None # rs, ys))"
| "fifo_spec (Get # ops) (x # xs) = (let (rs, ys) = fifo_spec ops xs in (Some x # rs, ys))"

text \<open>Legal uses put allocated elements that are not in the queue.\<close>

fun fifo_legal :: "(addr \<Rightarrow> bool) \<Rightarrow> fifo_op list \<Rightarrow> addr list \<Rightarrow> bool" where
  "fifo_legal al [] xs = True"
| "fifo_legal al (Put p # ops) xs = (al p \<and> p \<notin> set xs \<and> fifo_legal al ops (xs @ [p]))"
| "fifo_legal al (Get # ops) [] = fifo_legal al ops []"
| "fifo_legal al (Get # ops) (x # xs) = fifo_legal al ops xs"

fun fifo_run :: "(addr \<Rightarrow> 's \<Rightarrow> fault + 's) \<Rightarrow> ('s \<Rightarrow> fault + ptr \<times> 's) \<Rightarrow> fifo_op list \<Rightarrow> 's
    \<Rightarrow> fault + ptr list \<times> 's" where
  "fifo_run enq deq [] s = Inr ([], s)"
| "fifo_run enq deq (Put p # ops) s = bindF (enq p s) (fifo_run enq deq ops)"
| "fifo_run enq deq (Get # ops) s =
     bindF (deq s) (\<lambda>(r, s'). bindF (fifo_run enq deq ops s') (\<lambda>(rs, t). Inr (r # rs, t)))"

locale fifo_queue =
  fixes rep :: "'s \<Rightarrow> addr list \<Rightarrow> bool"
    and al :: "'s \<Rightarrow> addr \<Rightarrow> bool"
    and enq :: "addr \<Rightarrow> 's \<Rightarrow> fault + 's"
    and deq :: "'s \<Rightarrow> fault + ptr \<times> 's"
  assumes enq_law: "rep s xs \<Longrightarrow> al s p \<Longrightarrow> p \<notin> set xs \<Longrightarrow>
      \<exists>s'. enq p s = Inr s' \<and> rep s' (xs @ [p]) \<and> al s' = al s"
    and deq_nil: "rep s [] \<Longrightarrow> \<exists>s'. deq s = Inr (None, s') \<and> rep s' [] \<and> al s' = al s"
    and deq_cons: "rep s (x # xs) \<Longrightarrow>
      \<exists>s'. deq s = Inr (Some x, s') \<and> rep s' xs \<and> al s' = al s"
begin

text \<open>Any legal use of the queue runs without a fault and answers what the list answers.\<close>

lemma run_refines_spec:
  "rep s xs \<Longrightarrow> fifo_legal (al s) ops xs \<Longrightarrow>
     \<exists>s'. fifo_run enq deq ops s = Inr (fst (fifo_spec ops xs), s')
       \<and> rep s' (snd (fifo_spec ops xs))"
proof (induction ops xs arbitrary: s rule: fifo_spec.induct)
  case (2 p ops xs)
  from 2 obtain s1 where "enq p s = Inr s1" "rep s1 (xs @ [p])" "al s1 = al s"
    using enq_law by fastforce
  with 2 show ?case by simp
next
  case (3 ops)
  from 3 obtain s1 where "deq s = Inr (None, s1)" "rep s1 []" "al s1 = al s"
    using deq_nil by blast
  with 3 show ?case by (fastforce simp: split_beta)
next
  case (4 ops x xs)
  from 4 obtain s1 where "deq s = Inr (Some x, s1)" "rep s1 xs" "al s1 = al s"
    using deq_cons by blast
  with 4 show ?case by (fastforce simp: split_beta)
qed simp

end

end
