(* ===== verification/World.thy ===== *)
theory World
  imports Packet UsbIo Fifo
begin

text \<open>
  The state of the client: the heap of packets, the transports and USB handles, the connection's
  identifiers and the queue of received packets of \<open>send.c\<close>, with the packet allocator and the
  operations of that queue. Sequential semantics: a mutex section is one step.
\<close>

section \<open>State\<close>

text \<open>The function pointers of a transport: unset after \<open>calloc\<close>, or those of the USB transport.\<close>

datatype transport_ops = Unset | UsbOps

record atransport =
  t_next :: ptr
  t_prev :: ptr
  t_ops :: transport_ops
  connection_state :: int
  t_usb :: ptr
  t_serial :: "string option"
  kicked :: int

definition CS_OFFLINE :: int where "CS_OFFLINE = 0"
definition CS_NOPERM :: int where "CS_NOPERM = 5"

text \<open>Calls into libusb that change the state of its handles and devices, in order.\<close>

datatype lib_call =
    OpenDevice addr addr
  | ClaimInterface addr int
  | ReleaseInterface addr int
  | CloseHandle addr
  | RefDevice addr
  | UnrefDevice addr

text \<open>
  \<open>heap\<close> holds the packets, \<open>brk\<close> the address the next allocation returns. \<open>malloc_ok\<close> says whether
  allocations succeed, \<open>junk\<close> is what freshly allocated memory contains, \<open>host_big\<close> is the build's
  byte order. \<open>thread_ok\<close> says whether threads can be created, and \<open>threads\<close> lists the transports
  whose output thread has been started, latest first. \<open>devs\<close> gives the device behind the USB handle at an address. The identifiers \<open>seed\<close>,
  \<open>conn_id\<close> (\<open>id\<close> in the source) and \<open>remote_id\<close> are 32-bit patterns: the code compares the signed
  variables with the unsigned words of packets.
\<close>

record world =
  heap :: "addr \<rightharpoonup> apacket"
  brk :: addr
  malloc_ok :: bool
  junk :: "nat \<Rightarrow> u8"
  host_big :: bool
  transports :: "addr \<rightharpoonup> atransport"
  handles :: "addr \<rightharpoonup> usb_handle"
  transport :: ptr
  devs :: "addr \<Rightarrow> usb_dev"
  lib :: "lib_call list"
  thread_ok :: bool
  threads :: "addr list"
  seed :: u32
  conn_id :: u32
  remote_id :: u32
  received :: ptr
  last_r :: ptr

section \<open>The packet allocator\<close>

definition get_apacket :: "world \<Rightarrow> fault + addr \<times> world" where
  "get_apacket w =
     (if \<not> malloc_ok w then Inl (Exit (-1))
      else Inr (brk w, w\<lparr>heap := (heap w)(brk w \<mapsto>
                \<lparr>nxt = None, plen = 0, pptr = None, msg = zero_message, data = junk w\<rparr>),
              brk := Suc (brk w)\<rparr>))"

definition put_apacket :: "addr \<Rightarrow> world \<Rightarrow> fault + world" where
  "put_apacket p w =
     (if heap w p = None then Inl UseAfterFree else Inr (w\<lparr>heap := (heap w)(p := None)\<rparr>))"

section \<open>The queue of received packets\<close>

definition store_received_packet :: "addr \<Rightarrow> world \<Rightarrow> fault + world" where
  "store_received_packet p w =
     bindF (if received w = None then Inr (w\<lparr>received := Some p, last_r := Some p\<rparr>)
            else bindF (deref (heap w) (last_r w)) (\<lambda>(l, pk).
                   Inr (w\<lparr>heap := (heap w)(l \<mapsto> pk\<lparr>nxt := Some p\<rparr>), last_r := Some p\<rparr>)))
       (\<lambda>w1. bindF (deref (heap w1) (last_r w1)) (\<lambda>(l, pk).
          Inr (w1\<lparr>heap := (heap w1)(l \<mapsto> pk\<lparr>nxt := None\<rparr>)\<rparr>)))"

definition shift_received_packet :: "world \<Rightarrow> fault + ptr \<times> world" where
  "shift_received_packet w =
     (case received w of
        None \<Rightarrow> Inr (None, w)
      | Some p \<Rightarrow> bindF (deref (heap w) (Some p)) (\<lambda>(_, pk).
          (let w1 = w\<lparr>received := nxt pk\<rparr>
           in Inr (Some p, if nxt pk = None then w1\<lparr>last_r := None\<rparr> else w1))))"

text \<open>The freeing loop, with one unit of fuel per address ever allocated.\<close>

fun clear_loop :: "nat \<Rightarrow> world \<Rightarrow> fault + world" where
  "clear_loop 0 w = Inl Blocked"
| "clear_loop (Suc fuel) w =
     (case received w of
        None \<Rightarrow> Inr w
      | Some p \<Rightarrow> bindF (deref (heap w) (Some p)) (\<lambda>(_, pk).
          bindF (put_apacket p (w\<lparr>received := nxt pk\<rparr>)) (clear_loop fuel)))"

definition clear_received_packet :: "world \<Rightarrow> fault + world" where
  "clear_received_packet w =
     bindF (clear_loop (Suc (brk w)) w) (\<lambda>w1. Inr (w1\<lparr>received := None, last_r := None\<rparr>))"

section \<open>Well-formed worlds\<close>

definition nexts :: "(addr \<rightharpoonup> apacket) \<Rightarrow> addr \<rightharpoonup> ptr" where
  "nexts h = (\<lambda>a. map_option nxt (h a))"

text \<open>The received packets are the addresses \<open>xs\<close>, oldest first.\<close>

definition received_rep :: "world \<Rightarrow> addr list \<Rightarrow> bool" where
  "received_rep w xs \<longleftrightarrow> fifo_rep (nexts (heap w)) (received w) (last_r w) xs"

definition heap_bounded :: "world \<Rightarrow> bool" where
  "heap_bounded w \<longleftrightarrow> (\<forall>a. heap w a \<noteq> None \<longrightarrow> a < brk w)"

definition allocated :: "world \<Rightarrow> addr \<Rightarrow> bool" where
  "allocated w p \<longleftrightarrow> heap w p \<noteq> None"

lemma nexts_upd [simp]:
  "nexts (h(a \<mapsto> pk)) = (nexts h)(a \<mapsto> nxt pk)"
  "nexts (h(a := None)) = (nexts h)(a := None)"
  by (auto simp: nexts_def)

lemma nexts_Some: "nexts h a = Some q \<longleftrightarrow> (\<exists>pk. h a = Some pk \<and> nxt pk = q)"
  by (auto simp: nexts_def)

lemma received_rep_allocated: "received_rep w xs \<Longrightarrow> a \<in> set xs \<Longrightarrow> allocated w a"
  using chain_dom [of "nexts (heap w)" "received w" xs]
  by (auto simp: received_rep_def fifo_rep_def allocated_def nexts_def)

lemma received_rep_empty: "received_rep w xs \<Longrightarrow> received w = None \<longleftrightarrow> xs = []"
  unfolding received_rep_def by (rule fifo_rep_empty_iff)

lemma received_rep_length:
  assumes "received_rep w xs" "heap_bounded w"
  shows "length xs \<le> brk w"
proof -
  have "set xs \<subseteq> {..<brk w}"
    using received_rep_allocated [OF assms(1)] assms(2)
    by (auto simp: heap_bounded_def allocated_def)
  moreover have "distinct xs" using assms(1) by (simp add: received_rep_def fifo_rep_def)
  ultimately show ?thesis
    using card_mono [of "{..<brk w}" "set xs"] by (simp add: distinct_card)
qed

text \<open>What storing a packet does to the rest of the state.\<close>

definition same_but_nexts :: "world \<Rightarrow> world \<Rightarrow> bool" where
  "same_but_nexts w w' \<longleftrightarrow>
     (\<forall>a. map_option msg (heap w' a) = map_option msg (heap w a)
        \<and> map_option data (heap w' a) = map_option data (heap w a))
     \<and> brk w' = brk w \<and> malloc_ok w' = malloc_ok w \<and> junk w' = junk w \<and> host_big w' = host_big w
     \<and> transports w' = transports w \<and> handles w' = handles w \<and> transport w' = transport w
     \<and> devs w' = devs w \<and> lib w' = lib w \<and> thread_ok w' = thread_ok w
     \<and> threads w' = threads w \<and> seed w' = seed w \<and> conn_id w' = conn_id w
     \<and> remote_id w' = remote_id w"

lemma same_but_nexts_allocated: "same_but_nexts w w' \<Longrightarrow> allocated w' = allocated w"
proof -
  assume "same_but_nexts w w'"
  then have "map_option msg (heap w' a) = map_option msg (heap w a)" for a
    by (simp add: same_but_nexts_def)
  then have "heap w' a = None \<longleftrightarrow> heap w a = None" for a by (metis map_option_is_None)
  then show ?thesis by (simp add: allocated_def fun_eq_iff)
qed

lemma store_received_ok:
  assumes rep: "received_rep w xs" and p: "allocated w p" "p \<notin> set xs"
  shows "\<exists>w'. store_received_packet p w = Inr w' \<and> received_rep w' (xs @ [p])
    \<and> same_but_nexts w w'"
proof -
  obtain pk where pk: "heap w p = Some pk" using p by (auto simp: allocated_def)
  show ?thesis
  proof (cases "xs = []")
    case True
    then have "received w = None" using rep by (simp add: received_rep_def fifo_rep_Nil)
    then show ?thesis using pk True
      by (auto simp: store_received_packet_def received_rep_def fifo_rep_enq_empty
          same_but_nexts_def)
  next
    case False
    then have r: "received w \<noteq> None" using received_rep_empty [OF rep] by simp
    have l: "last_r w = Some (last xs)" using rep False by (simp add: received_rep_def fifo_rep_def)
    then obtain lk where lk: "heap w (last xs) = Some lk"
      using received_rep_allocated [OF rep, of "last xs"] False by (auto simp: allocated_def)
    have ne: "p \<noteq> last xs" using p False by auto
    have "fifo_rep ((nexts (heap w))(last xs \<mapsto> Some p, p \<mapsto> None)) (received w) (Some p) (xs @ [p])"
      using rep False p by (intro fifo_rep_enq) (auto simp: received_rep_def)
    moreover let ?w' = "w\<lparr>heap := (heap w)(last xs \<mapsto> lk\<lparr>nxt := Some p\<rparr>, p \<mapsto> pk\<lparr>nxt := None\<rparr>),
        last_r := Some p\<rparr>"
    have "store_received_packet p w = Inr ?w'"
      using r l lk pk ne by (auto simp: store_received_packet_def)
    moreover have "same_but_nexts w ?w'"
      using lk pk ne by (simp add: same_but_nexts_def)
    ultimately show ?thesis by (intro exI [of _ ?w']) (simp add: received_rep_def)
  qed
qed

lemma shift_received_Nil:
  "received_rep w [] \<Longrightarrow> shift_received_packet w = Inr (None, w)"
  by (auto simp: received_rep_def fifo_rep_Nil shift_received_packet_def)

lemma shift_received_Cons:
  assumes "received_rep w (x # xs)"
  shows "\<exists>w'. shift_received_packet w = Inr (Some x, w') \<and> received_rep w' xs
    \<and> heap w' = heap w \<and> same_but_nexts w w'"
proof -
  from fifo_rep_deq [OF assms [unfolded received_rep_def]] obtain pk where
    "received w = Some x" "heap w x = Some pk"
    "fifo_rep (nexts (heap w)) (nxt pk) (if nxt pk = None then None else last_r w) xs"
    by (auto simp: nexts_Some)
  then show ?thesis
    by (auto simp: shift_received_packet_def Let_def received_rep_def same_but_nexts_def)
qed

text \<open>The queue of received packets keeps the contract of a queue.\<close>

interpretation received: fifo_queue received_rep allocated store_received_packet shift_received_packet
proof unfold_locales
  fix w xs p assume "received_rep w xs" "allocated w p" "p \<notin> set xs"
  then show "\<exists>w'. store_received_packet p w = Inr w' \<and> received_rep w' (xs @ [p])
      \<and> allocated w' = allocated w"
    using store_received_ok same_but_nexts_allocated by blast
next
  fix w assume "received_rep w []"
  then show "\<exists>w'. shift_received_packet w = Inr (None, w') \<and> received_rep w' []
      \<and> allocated w' = allocated w"
    using shift_received_Nil by blast
next
  fix w x xs assume "received_rep w (x # xs)"
  then show "\<exists>w'. shift_received_packet w = Inr (Some x, w') \<and> received_rep w' xs
      \<and> allocated w' = allocated w"
    using shift_received_Cons same_but_nexts_allocated by blast
qed

section \<open>Emptying the queue\<close>

lemma clear_loop_ok:
  "chain (nexts (heap w)) (received w) xs \<Longrightarrow> distinct xs \<Longrightarrow> length xs < fuel \<Longrightarrow>
     clear_loop fuel w = Inr (w\<lparr>heap := heap w |` (- set xs), received := None\<rparr>)"
proof (induction xs arbitrary: w fuel)
  case Nil
  then obtain k where "fuel = Suc k" by (cases fuel) auto
  then show ?case using Nil by simp
next
  case (Cons x xs)
  then obtain k where k: "fuel = Suc k" "length xs < k" by (cases fuel) auto
  from Cons.prems obtain pk where pk: "received w = Some x" "heap w x = Some pk"
    and ch: "chain (nexts (heap w)) (nxt pk) xs"
    by (auto simp: nexts_def split: option.splits)
  let ?w1 = "w\<lparr>received := nxt pk, heap := (heap w)(x := None)\<rparr>"
  have "clear_loop k ?w1 = Inr (?w1\<lparr>heap := heap ?w1 |` (- set xs), received := None\<rparr>)"
    using ch Cons.prems k(2) by (intro Cons.IH) (auto simp del: fun_upd_apply)
  moreover have "((heap w)(x := None)) |` (- set xs) = heap w |` (- set (x # xs))"
    by (auto simp: restrict_map_def fun_eq_iff)
  ultimately show ?case using k pk by (simp add: put_apacket_def)
qed

lemma clear_received_ok:
  assumes "received_rep w xs" "heap_bounded w"
  shows "clear_received_packet w =
    Inr (w\<lparr>heap := heap w |` (- set xs), received := None, last_r := None\<rparr>)"
  using clear_loop_ok [of w xs "Suc (brk w)"] received_rep_length [OF assms] assms(1)
  by (simp add: clear_received_packet_def received_rep_def fifo_rep_def)

lemma received_rep_cleared: "received w = None \<Longrightarrow> last_r w = None \<Longrightarrow> received_rep w []"
  by (simp add: received_rep_def fifo_rep_Nil)

section \<open>Properties\<close>

text \<open>The received-packet queue is a first-in first-out queue. For every legal sequence of
  \<open>store_received_packet\<close> and \<open>shift_received_packet\<close>, the linked structure answers what a list of
  packets answers, no null or dangling pointer is followed, and the queue it leaves is the list's.\<close>

theorem received_queue_fifo:
  assumes "received_rep w xs" and "fifo_legal (allocated w) ops xs"
  shows "\<exists>w'. fifo_run store_received_packet shift_received_packet ops w
      = Inr (fst (fifo_spec ops xs), w') \<and> received_rep w' (snd (fifo_spec ops xs))"
  by (rule received.run_refines_spec [OF assms])

definition sample_world :: world where
  "sample_world = \<lparr>heap = [0 \<mapsto> sample_packet, 1 \<mapsto> sample_packet, 2 \<mapsto> sample_packet],
     brk = 3, malloc_ok = True, junk = (\<lambda>_. 0xAA), host_big = False,
     transports = Map.empty, handles = Map.empty, transport = None,
     devs = (\<lambda>_. sample_dev), lib = [], thread_ok = True, threads = [], seed = 0, conn_id = -1, remote_id = -1,
     received = None, last_r = None\<rparr>"

theorem received_queue_fifo_witness:
  "\<exists>w'. fifo_run store_received_packet shift_received_packet [Put 2, Put 0, Get, Put 1, Get, Get, Get]
     sample_world = Inr ([Some 2, Some 0, Some 1, None], w')"
proof -
  have "received_rep sample_world []"
    by (rule received_rep_cleared) (simp_all add: sample_world_def)
  moreover have "fifo_legal (allocated sample_world) [Put 2, Put 0, Get, Put 1, Get, Get, Get] []"
    by (simp add: allocated_def sample_world_def)
  ultimately show ?thesis using received_queue_fifo [of sample_world "[]"] by fastforce
qed

text \<open>Emptying the queue ends and frees. On a well-formed world, \<open>clear_received_packet\<close>
  returns, frees exactly the queued packets, each once, and leaves both pointers null.\<close>

theorem clear_received_frees:
  assumes "received_rep w xs" "heap_bounded w"
  shows "\<exists>w'. clear_received_packet w = Inr w' \<and> received_rep w' []
    \<and> dom (heap w') = dom (heap w) - set xs"
  using clear_received_ok [OF assms] received_rep_cleared by auto

theorem clear_received_frees_witness:
  "\<exists>w w'. store_received_packet 1 sample_world = Inr w \<and> clear_received_packet w = Inr w'
     \<and> dom (heap w') = {0, 2}"
proof -
  have r0: "received_rep sample_world []"
    by (rule received_rep_cleared) (simp_all add: sample_world_def)
  have "allocated sample_world 1" by (simp add: allocated_def sample_world_def)
  then obtain w where w: "store_received_packet 1 sample_world = Inr w" "received_rep w [1]"
      "same_but_nexts sample_world w"
    using store_received_ok [OF r0, of 1] by auto
  have al: "allocated w = allocated sample_world" by (rule same_but_nexts_allocated [OF w(3)])
  have "brk w = 3" using w(3) by (simp add: same_but_nexts_def sample_world_def)
  moreover have dom: "heap w a \<noteq> None \<longleftrightarrow> a = 0 \<or> a = 1 \<or> a = 2" for a
    using al [THEN fun_cong, of a] by (simp add: allocated_def sample_world_def)
  ultimately have "heap_bounded w" by (auto simp: heap_bounded_def)
  from clear_received_frees [OF w(2) this] obtain w' where
    w': "clear_received_packet w = Inr w'" "dom (heap w') = dom (heap w) - {1}" by auto
  have domw: "dom (heap w) = {0, 1, 2}" using dom by (simp add: dom_def set_eq_iff)
  have "dom (heap w') = {0, 2}" unfolding w'(2) domw by auto
  with w(1) w'(1) show ?thesis by blast
qed

end
