(* ===== verification/DList.thy ===== *)
theory DList
  imports Prelude
begin

text \<open>
  The circular doubly-linked lists of libusb (\<open>struct list_head\<close> in \<open>libusbi.h\<close>): a head node and
  the nodes embedded in the elements, each with pointers to its neighbours. The operations follow
  the source pointer by pointer; \<open>dll s h xs\<close> says that the store \<open>s\<close> holds the list \<open>xs\<close> behind
  the head \<open>h\<close>, and the locale \<open>linked_list\<close> states the contract the clients of the lists use.
\<close>

section \<open>Nodes and operations\<close>

record list_head =
  lprev :: ptr
  lnext :: ptr

type_synonym list_store = "addr \<rightharpoonup> list_head"

definition set_lprev :: "ptr \<Rightarrow> ptr \<Rightarrow> list_store \<Rightarrow> fault + list_store" where
  "set_lprev p v s = bindF (deref s p) (\<lambda>(a, c). Inr (s(a \<mapsto> c\<lparr>lprev := v\<rparr>)))"

definition set_lnext :: "ptr \<Rightarrow> ptr \<Rightarrow> list_store \<Rightarrow> fault + list_store" where
  "set_lnext p v s = bindF (deref s p) (\<lambda>(a, c). Inr (s(a \<mapsto> c\<lparr>lnext := v\<rparr>)))"

definition list_init :: "addr \<Rightarrow> list_store \<Rightarrow> fault + list_store" where
  "list_init entry s =
     bindF (set_lnext (Some entry) (Some entry) s) (set_lprev (Some entry) (Some entry))"

definition list_empty :: "addr \<Rightarrow> list_store \<Rightarrow> fault + bool" where
  "list_empty entry s = bindF (deref s (Some entry)) (\<lambda>(_, c). Inr (lnext c = Some entry))"

definition list_add :: "addr \<Rightarrow> addr \<Rightarrow> list_store \<Rightarrow> fault + list_store" where
  "list_add entry head s =
     bindF (deref s (Some head)) (\<lambda>(_, hc).
     bindF (set_lnext (Some entry) (lnext hc) s) (\<lambda>s1.
     bindF (set_lprev (Some entry) (Some head) s1) (\<lambda>s2.
     bindF (deref s2 (Some head)) (\<lambda>(_, hc2).
     bindF (set_lprev (lnext hc2) (Some entry) s2) (\<lambda>s3.
     set_lnext (Some head) (Some entry) s3)))))"

definition list_add_tail :: "addr \<Rightarrow> addr \<Rightarrow> list_store \<Rightarrow> fault + list_store" where
  "list_add_tail entry head s =
     bindF (set_lnext (Some entry) (Some head) s) (\<lambda>s1.
     bindF (deref s1 (Some head)) (\<lambda>(_, hc).
     bindF (set_lprev (Some entry) (lprev hc) s1) (\<lambda>s2.
     bindF (deref s2 (Some head)) (\<lambda>(_, hc2).
     bindF (set_lnext (lprev hc2) (Some entry) s2) (\<lambda>s3.
     set_lprev (Some head) (Some entry) s3)))))"

definition list_del :: "addr \<Rightarrow> list_store \<Rightarrow> fault + list_store" where
  "list_del entry s =
     bindF (deref s (Some entry)) (\<lambda>(_, ec).
     bindF (set_lprev (lnext ec) (lprev ec) s) (\<lambda>s1.
     bindF (deref s1 (Some entry)) (\<lambda>(_, ec1).
     set_lnext (lprev ec1) (lnext ec1) s1)))"

section \<open>Neighbours\<close>

text \<open>The two pointer fields as functions of the address; null where nothing is allocated.\<close>

definition nx :: "list_store \<Rightarrow> addr \<Rightarrow> ptr" where
  "nx s a = Option.bind (s a) lnext"

definition pv :: "list_store \<Rightarrow> addr \<Rightarrow> ptr" where
  "pv s a = Option.bind (s a) lprev"

text \<open>The nodes \<open>xs\<close> lead from \<open>p\<close> to \<open>q\<close> forwards and from \<open>q\<close> to \<open>p\<close> backwards.\<close>

fun links :: "(addr \<Rightarrow> ptr) \<Rightarrow> (addr \<Rightarrow> ptr) \<Rightarrow> addr \<Rightarrow> addr list \<Rightarrow> addr \<Rightarrow> bool" where
  "links n v p [] q = (n p = Some q \<and> v q = Some p)"
| "links n v p (x # xs) q = (n p = Some x \<and> v x = Some p \<and> links n v x xs q)"

definition dll :: "list_store \<Rightarrow> addr \<Rightarrow> addr list \<Rightarrow> bool" where
  "dll s h xs \<longleftrightarrow> links (nx s) (pv s) h xs h \<and> distinct (h # xs)"

lemma links_next_other [simp]:
  "a \<noteq> p \<Longrightarrow> a \<notin> set xs \<Longrightarrow> links (n(a := r)) v p xs q = links n v p xs q"
  by (induction xs arbitrary: p) auto

lemma links_prev_other [simp]:
  "a \<noteq> q \<Longrightarrow> a \<notin> set xs \<Longrightarrow> links n (v(a := r)) p xs q = links n v p xs q"
  by (induction xs arbitrary: p) auto

lemma links_append:
  "links n v p (xs @ y # ys) q \<longleftrightarrow> links n v p xs y \<and> links n v y ys q"
  by (induction xs arbitrary: p) auto

text \<open>Insertion between two neighbours, and its converse.\<close>

lemma links_insert:
  "links n v p (xs @ zs) q \<Longrightarrow> distinct (p # xs @ zs) \<Longrightarrow> q \<notin> set (xs @ zs) \<Longrightarrow>
   e \<notin> set (p # q # xs @ zs) \<Longrightarrow>
   links (n(e := Some (hd (zs @ [q])), last (p # xs) := Some e))
         (v(e := Some (last (p # xs)), hd (zs @ [q]) := Some e)) p (xs @ e # zs) q"
proof (induction xs arbitrary: p)
  case Nil
  then show ?case
    by (cases zs) (auto simp: fun_upd_same fun_upd_other simp del: fun_upd_apply)
next
  case (Cons x xs)
  then have IH: "links (n(e := Some (hd (zs @ [q])), last (x # xs) := Some e))
         (v(e := Some (last (x # xs)), hd (zs @ [q]) := Some e)) x (xs @ e # zs) q"
    by (intro Cons.IH) auto
  have "p \<noteq> last (x # xs)" using Cons.prems(2) last_in_set [of "x # xs"] by auto
  moreover have "x \<noteq> hd (zs @ [q])" "e \<noteq> hd (zs @ [q])" using Cons.prems(2-4) by (cases zs; auto)+
  ultimately show ?case using Cons.prems IH
    by (auto simp: fun_upd_same fun_upd_other simp del: fun_upd_apply)
qed

lemma links_remove:
  "links n v p (xs @ e # zs) q \<Longrightarrow> distinct (p # xs @ e # zs) \<Longrightarrow> q \<notin> set (xs @ e # zs) \<Longrightarrow>
   links (n(last (p # xs) := Some (hd (zs @ [q])))) (v(hd (zs @ [q]) := Some (last (p # xs))))
     p (xs @ zs) q"
proof (induction xs arbitrary: p)
  case Nil
  then show ?case
    by (cases zs) (auto simp: fun_upd_same fun_upd_other simp del: fun_upd_apply)
next
  case (Cons x xs)
  then have IH: "links (n(last (x # xs) := Some (hd (zs @ [q]))))
      (v(hd (zs @ [q]) := Some (last (x # xs)))) x (xs @ zs) q"
    by (intro Cons.IH) auto
  have "p \<noteq> last (x # xs)" using Cons.prems(2) last_in_set [of "x # xs"] by auto
  moreover have "x \<noteq> hd (zs @ [q])" using Cons.prems(2,3) by (cases zs) auto
  ultimately show ?case using Cons.prems IH
    by (auto simp: fun_upd_same fun_upd_other simp del: fun_upd_apply)
qed

lemma links_nodes: "links n v p xs q \<Longrightarrow> a \<in> set xs \<Longrightarrow> n a \<noteq> None"
  by (induction xs arbitrary: p rule: list.induct) (auto, metis links.elims(2) option.distinct(1))

lemma links_ends:
  "links n v p (xs @ zs) q \<Longrightarrow>
     n (last (p # xs)) = Some (hd (zs @ [q])) \<and> v (hd (zs @ [q])) = Some (last (p # xs))"
proof (induction xs arbitrary: p)
  case Nil
  then show ?case by (cases zs) auto
next
  case (Cons x xs)
  then have "links n v x (xs @ zs) q" by simp
  from Cons.IH [OF this] show ?case by simp
qed

section \<open>The operations on lists\<close>

lemma nx_Some: "nx s a = Some b \<Longrightarrow> \<exists>c. s a = Some c \<and> lnext c = Some b"
  by (auto simp: nx_def bind_eq_Some_conv)

lemma pv_Some: "pv s a = Some b \<Longrightarrow> \<exists>c. s a = Some c \<and> lprev c = Some b"
  by (auto simp: pv_def bind_eq_Some_conv)

lemma dll_node: "dll s h xs \<Longrightarrow> a \<in> set (h # xs) \<Longrightarrow> \<exists>c. s a = Some c"
proof -
  assume d: "dll s h xs" and a: "a \<in> set (h # xs)"
  have "nx s a \<noteq> None"
  proof (cases "a = h")
    case True
    then show ?thesis using d by (cases xs) (auto simp: dll_def)
  next
    case False
    then show ?thesis using d a links_nodes by (auto simp: dll_def)
  qed
  then show ?thesis by (cases "s a") (auto simp: nx_def)
qed

lemma dll_neighbours:
  assumes "dll s h (xs @ zs)"
  shows "\<exists>c d. s (last (h # xs)) = Some c \<and> lnext c = Some (hd (zs @ [h]))
    \<and> s (hd (zs @ [h])) = Some d \<and> lprev d = Some (last (h # xs))"
  using links_ends [of "nx s" "pv s" h xs zs h] assms nx_Some pv_Some
  by (fastforce simp: dll_def)

text \<open>Writing the two pointers of a node and the pointers of its new neighbours.\<close>

lemma nx_upd [simp]: "nx (s(a \<mapsto> c)) = (nx s)(a := lnext c)"
  by (auto simp: nx_def fun_eq_iff)

lemma pv_upd [simp]: "pv (s(a \<mapsto> c)) = (pv s)(a := lprev c)"
  by (auto simp: pv_def fun_eq_iff)

lemma set_lnext_alloc [simp]: "s a = Some c \<Longrightarrow> set_lnext (Some a) v s = Inr (s(a \<mapsto> c\<lparr>lnext := v\<rparr>))"
  by (simp add: set_lnext_def)

lemma set_lprev_alloc [simp]: "s a = Some c \<Longrightarrow> set_lprev (Some a) v s = Inr (s(a \<mapsto> c\<lparr>lprev := v\<rparr>))"
  by (simp add: set_lprev_def)

text \<open>\<open>list_add_tail\<close> before any node of the list: before the head it appends.\<close>

lemma list_add_tail_ok:
  assumes d: "dll s h (xs @ zs)" and e: "s e \<noteq> None" "e \<notin> set (h # xs @ zs)"
  shows "\<exists>s'. list_add_tail e (hd (zs @ [h])) s = Inr s' \<and> dll s' h (xs @ e # zs)
    \<and> dom s' = dom s \<and> (\<forall>a. a \<notin> set (h # e # xs @ zs) \<longrightarrow> s' a = s a)"
proof -
  let ?a = "last (h # xs)" and ?b = "hd (zs @ [h])"
  obtain ca cb where ca: "s ?a = Some ca" "lnext ca = Some ?b" and cb: "s ?b = Some cb" "lprev cb = Some ?a"
    using dll_neighbours [OF d] by blast
  obtain ce where ce: "s e = Some ce" using e by auto
  have mem: "?a \<in> set (h # xs @ zs)" "?b \<in> set (h # xs @ zs)"
    using last_in_set [of "h # xs"] hd_in_set [of "zs @ [h]"] by auto
  have ne: "?a \<noteq> e" "?b \<noteq> e" using mem e(2) by metis+
  let ?s1 = "s(e \<mapsto> \<lparr>lprev = Some ?a, lnext = Some ?b\<rparr>)"
  let ?s2 = "?s1(?a \<mapsto> ca\<lparr>lnext := Some e\<rparr>)"
  define s' where "s' = ?s2(?b \<mapsto> (if ?a = ?b then ca\<lparr>lnext := Some e, lprev := Some e\<rparr>
    else cb\<lparr>lprev := Some e\<rparr>))"
  have run: "list_add_tail e ?b s = Inr s'"
    using ca cb ce ne by (auto simp: list_add_tail_def s'_def)
  have nxs: "nx s' = (nx s)(e := Some ?b, ?a := Some e)"
    using ne ca cb by (auto simp: s'_def nx_def fun_eq_iff)
  have pvs: "pv s' = (pv s)(e := Some ?a, ?b := Some e)"
    using ne ca cb by (auto simp: s'_def pv_def fun_eq_iff)
  have "dll s' h (xs @ e # zs)"
    using links_insert [of "nx s" "pv s" h xs zs h e] d e(2)
    unfolding dll_def nxs pvs by auto
  moreover have "dom s' = dom s" using ca cb ce by (auto simp: s'_def)
  moreover have "\<forall>a. a \<notin> set (h # e # xs @ zs) \<longrightarrow> s' a = s a"
    using mem by (auto simp: s'_def)
  ultimately show ?thesis using run by blast
qed

text \<open>\<open>list_add\<close> behind the head.\<close>

lemma list_add_ok:
  assumes d: "dll s h zs" and e: "s e \<noteq> None" "e \<notin> set (h # zs)"
  shows "\<exists>s'. list_add e h s = Inr s' \<and> dll s' h (e # zs)
    \<and> dom s' = dom s \<and> (\<forall>a. a \<notin> set (h # e # zs) \<longrightarrow> s' a = s a)"
proof -
  let ?b = "hd (zs @ [h])"
  obtain ca cb where ca: "s h = Some ca" "lnext ca = Some ?b" and cb: "s ?b = Some cb" "lprev cb = Some h"
    using dll_neighbours [of s h "[]" zs] d by auto
  obtain ce where ce: "s e = Some ce" using e by auto
  have mem: "?b \<in> set (h # zs)" using hd_in_set [of "zs @ [h]"] by auto
  have ne: "h \<noteq> e" "?b \<noteq> e" using mem e(2) by (auto simp del: hd_append2)
  define s' where "s' = s(e \<mapsto> \<lparr>lprev = Some h, lnext = Some ?b\<rparr>, ?b \<mapsto> cb\<lparr>lprev := Some e\<rparr>,
    h \<mapsto> (if h = ?b then ca\<lparr>lprev := Some e, lnext := Some e\<rparr> else ca\<lparr>lnext := Some e\<rparr>))"
  have run: "list_add e h s = Inr s'"
    using ca cb ce ne by (auto simp: list_add_def s'_def)
  have nxs: "nx s' = (nx s)(e := Some ?b, h := Some e)"
    using ne ca cb by (auto simp: s'_def nx_def fun_eq_iff)
  have pvs: "pv s' = (pv s)(e := Some h, ?b := Some e)"
    using ne ca cb by (auto simp: s'_def pv_def fun_eq_iff)
  have "dll s' h (e # zs)"
    using links_insert [of "nx s" "pv s" h "[]" zs h e] d e(2)
    unfolding dll_def nxs pvs by auto
  moreover have "dom s' = dom s" using ca cb ce by (auto simp: s'_def)
  moreover have "\<forall>a. a \<notin> set (h # e # zs) \<longrightarrow> s' a = s a"
    using mem by (auto simp: s'_def)
  ultimately show ?thesis using run by blast
qed

text \<open>\<open>list_del\<close> unlinks a node and leaves the node's own pointers as they are.\<close>

lemma list_del_ok:
  assumes d: "dll s h (xs @ e # zs)"
  shows "\<exists>s'. list_del e s = Inr s' \<and> dll s' h (xs @ zs)
    \<and> dom s' = dom s \<and> (\<forall>a. a \<notin> set (h # xs @ zs) \<longrightarrow> s' a = s a)"
proof -
  let ?a = "last (h # xs)" and ?b = "hd (zs @ [h])"
  obtain ca ce where ca: "s ?a = Some ca" "lnext ca = Some e" and ce: "s e = Some ce" "lprev ce = Some ?a"
    using dll_neighbours [OF d] by auto
  obtain cb where cb: "s ?b = Some cb" "lprev cb = Some e" and ce2: "lnext ce = Some ?b"
    using dll_neighbours [of s h "xs @ [e]" zs] d ce by auto
  have mem: "?a \<in> set (h # xs @ zs)" "?b \<in> set (h # xs @ zs)"
    using last_in_set [of "h # xs"] hd_in_set [of "zs @ [h]"] by auto
  have e: "e \<notin> set (h # xs @ zs)" using d by (auto simp: dll_def)
  have ne: "?a \<noteq> e" "?b \<noteq> e" using mem e by metis+
  define s' where "s' = s(?b \<mapsto> cb\<lparr>lprev := Some ?a\<rparr>,
    ?a \<mapsto> (if ?a = ?b then cb\<lparr>lprev := Some ?a, lnext := Some ?b\<rparr> else ca\<lparr>lnext := Some ?b\<rparr>))"
  have run: "list_del e s = Inr s'"
    using ca cb ce ce2 ne by (auto simp: list_del_def s'_def)
  have nxs: "nx s' = (nx s)(?a := Some ?b)"
    using ne ca cb by (auto simp: s'_def nx_def fun_eq_iff)
  have pvs: "pv s' = (pv s)(?b := Some ?a)"
    using ne ca cb by (auto simp: s'_def pv_def fun_eq_iff)
  have "dll s' h (xs @ zs)"
    using links_remove [of "nx s" "pv s" h xs e zs h] d
    unfolding dll_def nxs pvs by auto
  moreover have "dom s' = dom s" using ca cb by (auto simp: s'_def)
  moreover have "\<forall>a. a \<notin> set (h # xs @ zs) \<longrightarrow> s' a = s a"
    using mem by (auto simp: s'_def)
  ultimately show ?thesis using run by blast
qed

lemma list_init_ok: "s h \<noteq> None \<Longrightarrow> \<exists>s'. list_init h s = Inr s' \<and> dll s' h [] \<and> dom s' = dom s"
  by (auto simp: list_init_def dll_def nx_def pv_def)

lemma list_empty_ok: "dll s h xs \<Longrightarrow> list_empty h s = Inr (xs = [])"
  using dll_neighbours [of s h "[]" xs] by (cases xs) (auto simp: list_empty_def dll_def)

section \<open>The contract of a linked list\<close>

locale linked_list =
  fixes rep :: "'s \<Rightarrow> addr \<Rightarrow> addr list \<Rightarrow> bool"
    and node :: "'s \<Rightarrow> addr \<Rightarrow> bool"
    and add_head :: "addr \<Rightarrow> addr \<Rightarrow> 's \<Rightarrow> fault + 's"
    and add_before :: "addr \<Rightarrow> addr \<Rightarrow> 's \<Rightarrow> fault + 's"
    and del :: "addr \<Rightarrow> 's \<Rightarrow> fault + 's"
  assumes add_head_law: "rep s h xs \<Longrightarrow> node s e \<Longrightarrow> e \<notin> set (h # xs) \<Longrightarrow>
      \<exists>s'. add_head e h s = Inr s' \<and> rep s' h (e # xs) \<and> node s' = node s"
    and add_before_law: "rep s h (xs @ zs) \<Longrightarrow> node s e \<Longrightarrow> e \<notin> set (h # xs @ zs) \<Longrightarrow>
      \<exists>s'. add_before e (hd (zs @ [h])) s = Inr s' \<and> rep s' h (xs @ e # zs) \<and> node s' = node s"
    and del_law: "rep s h (xs @ e # zs) \<Longrightarrow>
      \<exists>s'. del e s = Inr s' \<and> rep s' h (xs @ zs) \<and> node s' = node s"
begin

lemma append_law: "rep s h xs \<Longrightarrow> node s e \<Longrightarrow> e \<notin> set (h # xs) \<Longrightarrow>
    \<exists>s'. add_before e h s = Inr s' \<and> rep s' h (xs @ [e]) \<and> node s' = node s"
  using add_before_law [of s h xs "[]" e] by simp

lemma del_member: "rep s h xs \<Longrightarrow> distinct xs \<Longrightarrow> e \<in> set xs \<Longrightarrow>
    \<exists>s'. del e s = Inr s' \<and> rep s' h (remove1 e xs) \<and> node s' = node s"
proof -
  assume r: "rep s h xs" "distinct xs" "e \<in> set xs"
  then obtain as bs where xs: "xs = as @ e # bs" "e \<notin> set as" by (meson split_list_first)
  then have "remove1 e xs = as @ bs" by (simp add: remove1_append)
  then show ?thesis using del_law [of s h as e bs] r xs by simp
qed

text \<open>Adding and removing again leaves the list as it was.\<close>

lemma del_after_add: "rep s h (xs @ zs) \<Longrightarrow> node s e \<Longrightarrow> e \<notin> set (h # xs @ zs) \<Longrightarrow>
    \<exists>s1 s2. add_before e (hd (zs @ [h])) s = Inr s1 \<and> del e s1 = Inr s2 \<and> rep s2 h (xs @ zs)"
  using add_before_law del_law by metis

end

definition is_node :: "list_store \<Rightarrow> addr \<Rightarrow> bool" where
  "is_node s a \<longleftrightarrow> s a \<noteq> None"

lemma is_node_dom: "dom s' = dom s \<Longrightarrow> is_node s' = is_node s"
  by (simp add: is_node_def fun_eq_iff dom_def set_eq_iff)

text \<open>The operations of \<open>libusbi.h\<close> keep the contract.\<close>

interpretation lh: linked_list dll is_node list_add list_add_tail list_del
proof unfold_locales
  fix s h xs e assume "dll s h xs" "is_node s e" "e \<notin> set (h # xs)"
  then show "\<exists>s'. list_add e h s = Inr s' \<and> dll s' h (e # xs) \<and> is_node s' = is_node s"
    using list_add_ok is_node_dom unfolding is_node_def by metis
next
  fix s h xs zs e assume "dll s h (xs @ zs)" "is_node s e" "e \<notin> set (h # xs @ zs)"
  then show "\<exists>s'. list_add_tail e (hd (zs @ [h])) s = Inr s' \<and> dll s' h (xs @ e # zs)
      \<and> is_node s' = is_node s"
    using list_add_tail_ok is_node_dom unfolding is_node_def by metis
next
  fix s h xs e zs assume "dll s h (xs @ e # zs)"
  then show "\<exists>s'. list_del e s = Inr s' \<and> dll s' h (xs @ zs) \<and> is_node s' = is_node s"
    using list_del_ok is_node_dom by metis
qed

section \<open>Properties\<close>

text \<open>C29: the pointer operations refine list operations. On a well-formed circular list of
  allocated nodes, \<open>list_add\<close> puts a new node in front, \<open>list_add_tail\<close> at any node puts it just
  before that node (at the head: at the end), and \<open>list_del\<close> removes a member; none of them follows
  a null or dangling pointer and each leaves a well-formed circular list.\<close>

theorem list_ops_refine:
  assumes "dll s h (xs @ zs)" "s e \<noteq> None" "e \<notin> set (h # xs @ zs)"
  shows "(\<exists>s'. list_add e h s = Inr s' \<and> dll s' h (e # xs @ zs))
    \<and> (\<exists>s'. list_add_tail e (hd (zs @ [h])) s = Inr s' \<and> dll s' h (xs @ e # zs)
         \<and> (\<exists>s''. list_del e s' = Inr s'' \<and> dll s'' h (xs @ zs)))"
  using lh.add_head_law [of s h "xs @ zs" e] lh.add_before_law [OF assms(1), of e]
    lh.del_law assms unfolding is_node_def by metis

definition sample_list :: list_store where
  "sample_list = [0 \<mapsto> \<lparr>lprev = Some 2, lnext = Some 1\<rparr>, 1 \<mapsto> \<lparr>lprev = Some 0, lnext = Some 2\<rparr>,
     2 \<mapsto> \<lparr>lprev = Some 1, lnext = Some 0\<rparr>, 3 \<mapsto> \<lparr>lprev = None, lnext = None\<rparr>]"

theorem list_ops_refine_witness:
  "\<exists>s'. list_add_tail 3 2 sample_list = Inr s' \<and> dll s' 0 [1, 3, 2]"
proof -
  have d: "dll sample_list 0 ([1] @ [2])"
    by (simp add: dll_def sample_list_def nx_def pv_def)
  have "sample_list 3 \<noteq> None" "3 \<notin> set (0 # [1::nat] @ [2])" by (simp_all add: sample_list_def)
  from list_ops_refine [OF d this] show ?thesis by (simp del: One_nat_def) blast
qed

end
