(* ===== verification/Vendors.thy ===== *)
theory Vendors
  imports Prelude "HOL-Library.Char_ord"
begin

text \<open>
  The table of USB vendor identifiers (\<open>usb_vendors.c\<close>), filled from the built-in list and the
  user's \<open>adb_usb.ini\<close>, and the interface test that consults it (\<open>transport_usb.c\<close>). The environment is
  explicit: the value of \<open>HOME\<close>, the readable files by path, \<open>LONG_MAX\<close> and the value of \<open>errno\<close>.
\<close>

section \<open>The built-in table\<close>

definition builtInVendorIds :: "int list" where
  "builtInVendorIds =
     [0x18d1, 0x0bb4, 0x04e8, 0x22b8, 0x1004, 0x12D1, 0x0502, 0x0FCE, 0x0489, 0x413c, 0x0955,
      0x091E, 0x04dd, 0x19D2, 0x0482, 0x10A9, 0x05c6, 0x2257, 0x0409, 0x04DA, 0x0930, 0x1F53,
      0x2116, 0x0b05, 0x0471, 0x0451]"

definition BUILT_IN_VENDOR_COUNT :: nat where
  "BUILT_IN_VENDOR_COUNT = length builtInVendorIds"

definition VENDOR_COUNT_MAX :: nat where "VENDOR_COUNT_MAX = 128"

definition PATH_MAX :: nat where "PATH_MAX = 4096"
definition INT_MAX :: int where "INT_MAX = 2147483647"
definition EINVAL :: int where "EINVAL = 22"
definition ERANGE :: int where "ERANGE = 34"

record vendor_state =
  vendorIds :: "int list"
  vendorIdCount :: nat
  v_errno :: int
  open_files :: nat

section \<open>The C library functions the parser uses\<close>

text \<open>\<open>strtol\<close> with base 0; \<open>errno\<close> is written only when the value does not fit. A text without
  digits is 0.\<close>

definition is_space :: "char \<Rightarrow> bool" where
  "is_space c \<longleftrightarrow> c = CHR '' '' \<or> (9 \<le> (of_char c :: nat) \<and> (of_char c :: nat) \<le> 13)"

definition digit_val :: "char \<Rightarrow> nat option" where
  "digit_val c = (let n = of_char c :: nat in
     if 48 \<le> n \<and> n \<le> 57 then Some (n - 48)
     else if 97 \<le> n \<and> n \<le> 102 then Some (n - 87)
     else if 65 \<le> n \<and> n \<le> 70 then Some (n - 55)
     else None)"

definition is_digit :: "nat \<Rightarrow> char \<Rightarrow> bool" where
  "is_digit base c = (case digit_val c of None \<Rightarrow> False | Some n \<Rightarrow> n < base)"

definition digits_val :: "nat \<Rightarrow> string \<Rightarrow> int" where
  "digits_val base ds =
     foldl (\<lambda>a c. a * int base + (case digit_val c of None \<Rightarrow> 0 | Some n \<Rightarrow> int n)) 0 ds"

definition strtol_prefix :: "string \<Rightarrow> nat \<times> string" where
  "strtol_prefix s =
     (case s of
        z # x # d # r \<Rightarrow>
          if z = CHR ''0'' \<and> (x = CHR ''x'' \<or> x = CHR ''X'') \<and> is_digit 16 d then (16, d # r)
          else if z = CHR ''0'' then (8, s) else (10, s)
      | z # r \<Rightarrow> if z = CHR ''0'' then (8, s) else (10, s)
      | [] \<Rightarrow> (10, s))"

definition strtol0 :: "int \<Rightarrow> string \<Rightarrow> int \<Rightarrow> int \<times> int" where
  "strtol0 lmax s err =
     (let s1 = dropWhile is_space s;
          neg = (s1 \<noteq> [] \<and> hd s1 = CHR ''-'');
          s2 = (if s1 \<noteq> [] \<and> (hd s1 = CHR ''-'' \<or> hd s1 = CHR ''+'') then tl s1 else s1);
          (base, s3) = strtol_prefix s2;
          m = digits_val base (takeWhile (is_digit base) s3);
          v = (if neg then - m else m)
      in if v > lmax then (lmax, ERANGE)
         else if v < - lmax - 1 then (- lmax - 1, ERANGE)
         else (v, err))"

text \<open>\<open>fgets\<close> into a buffer of \<open>n\<close> characters: the text stored and the rest of the file.\<close>

definition fgets :: "nat \<Rightarrow> string \<Rightarrow> (string \<times> string) option" where
  "fgets n s =
     (if s = [] then None
      else let l = takeWhile (\<lambda>c. c \<noteq> CHR 0x0A) s;
               line = take (n - 1) (take (Suc (length l)) s)
           in Some (line, drop (length line) s))"

lemma take_drop_length_take: "take m s @ drop (length (take m s)) s = s"
  by (cases "m \<le> length s") (simp_all add: min_def)

lemma fgets_line:
  assumes "fgets n s = Some (line, rest)" "1 < n"
  shows "s = line @ rest \<and> line \<noteq> []"
proof -
  let ?m = "min (n - 1) (Suc (length (takeWhile (\<lambda>c. c \<noteq> CHR 0x0A) s)))"
  from assms have ne: "s \<noteq> []" and "line = take ?m s \<and> rest = drop (length (take ?m s)) s"
    by (auto simp: fgets_def Let_def simp del: length_take split: if_splits)
  moreover have "?m \<noteq> 0" using assms(2) by simp
  ultimately show ?thesis using take_drop_length_take [of ?m s] by auto
qed

lemma fgets_shorter: "fgets n s = Some (line, rest) \<Longrightarrow> 1 < n \<Longrightarrow> length rest < length s"
  using fgets_line by fastforce

section \<open>Filling the table\<close>

definition build_path :: "nat \<Rightarrow> string \<Rightarrow> int \<times> string" where
  "build_path len home =
     (let full = home @ ''/'' @ ''.android'' @ ''/'' @ ''adb_usb.ini''
      in (if length full \<ge> len then 1 else 0, snprintf_s len full))"

definition get_adb_usb_ini :: "nat \<Rightarrow> string option \<Rightarrow> int \<times> string" where
  "get_adb_usb_ini len home = build_path len (case home of None \<Rightarrow> ''/tmp'' | Some h \<Rightarrow> h)"

function vendors_loop :: "int \<Rightarrow> string \<Rightarrow> vendor_state \<Rightarrow> fault + vendor_state" where
  "vendors_loop lmax s v =
     (case fgets PATH_MAX s of
        None \<Rightarrow> Inr v
      | Some (line, rest) \<Rightarrow>
          if hd line = CHR ''#'' then vendors_loop lmax rest v
          else let (val, e) = strtol0 lmax line (v_errno v)
               in if e = EINVAL \<or> e = ERANGE \<or> val > INT_MAX \<or> val < 0 then Inl (Exit 2)
                  else if VENDOR_COUNT_MAX \<le> vendorIdCount v then Inl OutOfBounds
                  else let v2 = v\<lparr>v_errno := e,
                                  vendorIds := (vendorIds v)[vendorIdCount v := val],
                                  vendorIdCount := Suc (vendorIdCount v)\<rparr>
                       in if vendorIdCount v2 = VENDOR_COUNT_MAX then Inr v2
                          else vendors_loop lmax rest v2)"
  by pat_completeness auto
termination
  by (relation "measure (\<lambda>(lmax, s, v). length s)") (auto simp: PATH_MAX_def dest: fgets_shorter)

declare vendors_loop.simps [simp del]

definition usb_vendors_init ::
    "int \<Rightarrow> string option \<Rightarrow> (string \<rightharpoonup> string) \<Rightarrow> vendor_state \<Rightarrow> fault + vendor_state" where
  "usb_vendors_init lmax home files v =
     (if VENDOR_COUNT_MAX < BUILT_IN_VENDOR_COUNT then Inl (Exit 2)
      else let v1 = v\<lparr>vendorIds := builtInVendorIds @ drop BUILT_IN_VENDOR_COUNT (vendorIds v),
                      vendorIdCount := BUILT_IN_VENDOR_COUNT\<rparr>
           in if VENDOR_COUNT_MAX = BUILT_IN_VENDOR_COUNT then Inr v1
              else let (r, path) = get_adb_usb_ini PATH_MAX home
                   in if r = 0
                      then (case files path of
                              None \<Rightarrow> Inr v1
                            | Some content \<Rightarrow>
                                vendors_loop lmax content (v1\<lparr>open_files := Suc (open_files v1)\<rparr>))
                      else Inr v1)"

text \<open>The table of a program that has just started.\<close>

definition initial_vendors :: "int \<Rightarrow> vendor_state" where
  "initial_vendors err = \<lparr>vendorIds = replicate VENDOR_COUNT_MAX 0, vendorIdCount = 0,
     v_errno = err, open_files = 0\<rparr>"

section \<open>The interface test\<close>

definition ADB_CLASS :: int where "ADB_CLASS = 0xff"
definition ADB_SUBCLASS :: int where "ADB_SUBCLASS = 0x42"
definition ADB_PROTOCOL :: int where "ADB_PROTOCOL = 0x1"

fun vendor_scan :: "int list \<Rightarrow> int \<Rightarrow> int \<Rightarrow> int \<Rightarrow> int \<Rightarrow> int" where
  "vendor_scan [] vid cls sub proto = 0"
| "vendor_scan (i # is) vid cls sub proto =
     (if vid = i
      then if cls = ADB_CLASS \<and> sub = ADB_SUBCLASS \<and> proto = ADB_PROTOCOL then 1 else 0
      else vendor_scan is vid cls sub proto)"

definition is_adb_interface :: "vendor_state \<Rightarrow> int \<Rightarrow> int \<Rightarrow> int \<Rightarrow> int \<Rightarrow> int \<Rightarrow> int" where
  "is_adb_interface v vid pid cls sub proto =
     vendor_scan (take (vendorIdCount v) (vendorIds v)) vid cls sub proto"

section \<open>The table after initialisation\<close>

definition table_ok :: "vendor_state \<Rightarrow> bool" where
  "table_ok v \<longleftrightarrow> length (vendorIds v) = VENDOR_COUNT_MAX
     \<and> BUILT_IN_VENDOR_COUNT \<le> vendorIdCount v \<and> vendorIdCount v \<le> VENDOR_COUNT_MAX
     \<and> take BUILT_IN_VENDOR_COUNT (vendorIds v) = builtInVendorIds
     \<and> list_all (\<lambda>i. 0 \<le> i \<and> i \<le> INT_MAX) (vendorIds v)"

lemmas table_consts = BUILT_IN_VENDOR_COUNT_def VENDOR_COUNT_MAX_def INT_MAX_def

lemma table_ok_update:
  assumes "table_ok v" "vendorIdCount v < VENDOR_COUNT_MAX" "0 \<le> i" "i \<le> INT_MAX"
  shows "table_ok (v\<lparr>v_errno := e, vendorIds := (vendorIds v)[vendorIdCount v := i],
           vendorIdCount := Suc (vendorIdCount v)\<rparr>)"
  using assms unfolding table_ok_def
  by (auto simp: list_all_length nth_list_update take_update_cancel)

lemma vendors_loop_ok:
  "table_ok v \<Longrightarrow> vendorIdCount v < VENDOR_COUNT_MAX \<Longrightarrow>
     (case vendors_loop lmax s v of Inl f \<Rightarrow> f = Exit 2 | Inr v' \<Rightarrow> table_ok v')"
proof (induction lmax s v rule: vendors_loop.induct)
  case (1 lmax s v)
  show ?case
  proof (cases "fgets PATH_MAX s")
    case None
    then show ?thesis using 1 by (simp add: vendors_loop.simps)
  next
    case (Some lr)
    then obtain line rest where lr: "fgets PATH_MAX s = Some (line, rest)" by (cases lr) auto
    obtain val e where ve: "strtol0 lmax line (v_errno v) = (val, e)" by (meson surj_pair)
    consider "hd line = CHR ''#''"
      | "hd line \<noteq> CHR ''#''" "e = EINVAL \<or> e = ERANGE \<or> val > INT_MAX \<or> val < 0"
      | "hd line \<noteq> CHR ''#''" "\<not> (e = EINVAL \<or> e = ERANGE \<or> val > INT_MAX \<or> val < 0)"
      by blast
    then show ?thesis
    proof cases
      case 1
      then show ?thesis using lr "1.IH"(1) [OF lr refl] "1.prems"
        by (subst vendors_loop.simps) simp
    next
      case 2
      then show ?thesis using lr ve by (subst vendors_loop.simps) simp
    next
      case 3
      let ?v2 = "v\<lparr>v_errno := e, vendorIds := (vendorIds v)[vendorIdCount v := val],
                    vendorIdCount := Suc (vendorIdCount v)\<rparr>"
      have ok2: "table_ok ?v2" using table_ok_update [of v val e] "1.prems" 3 by simp
      show ?thesis
      proof (cases "Suc (vendorIdCount v) = VENDOR_COUNT_MAX")
        case True
        then show ?thesis using lr ve 3 ok2 "1.prems"(2)
          by (subst vendors_loop.simps) (simp add: Let_def)
      next
        case False
        then have "vendorIdCount ?v2 < VENDOR_COUNT_MAX" using "1.prems"(2) by simp
        then show ?thesis
          using lr ve 3 ok2 "1.prems"(2) False
            "1.IH"(2) [OF lr refl 3(1) ve [symmetric] refl 3(2)]
          by (subst vendors_loop.simps) (simp add: Let_def)
      qed
    qed
  qed
qed

section \<open>The table as the contents of the file\<close>

function file_lines :: "string \<Rightarrow> string list" where
  "file_lines s = (case fgets PATH_MAX s of None \<Rightarrow> [] | Some (l, r) \<Rightarrow> l # file_lines r)"
  by pat_completeness auto
termination
  by (relation "measure length") (auto simp: PATH_MAX_def dest: fgets_shorter)

declare file_lines.simps [simp del]

definition id_lines :: "string \<Rightarrow> string list" where
  "id_lines s = filter (\<lambda>l. hd l \<noteq> CHR ''#'') (file_lines s)"

definition line_id :: "int \<Rightarrow> string \<Rightarrow> int" where
  "line_id lmax l = fst (strtol0 lmax l 0)"

definition line_ok :: "int \<Rightarrow> string \<Rightarrow> bool" where
  "line_ok lmax l \<longleftrightarrow> snd (strtol0 lmax l 0) = 0 \<and> 0 \<le> line_id lmax l \<and> line_id lmax l \<le> INT_MAX"

lemma id_lines_step:
  "id_lines s = (case fgets PATH_MAX s of None \<Rightarrow> []
     | Some (l, r) \<Rightarrow> if hd l = CHR ''#'' then id_lines r else l # id_lines r)"
  by (auto simp: id_lines_def file_lines.simps [of s] split: option.splits)

lemma strtol0_ok: "line_ok lmax l \<Longrightarrow> strtol0 lmax l err = (line_id lmax l, err)"
  by (auto simp: line_ok_def line_id_def strtol0_def Let_def ERANGE_def split: prod.splits if_splits)

lemma vendors_loop_exact:
  "vendorIdCount v < VENDOR_COUNT_MAX \<Longrightarrow> length (vendorIds v) = VENDOR_COUNT_MAX \<Longrightarrow>
   v_errno v \<noteq> EINVAL \<Longrightarrow> v_errno v \<noteq> ERANGE \<Longrightarrow> list_all (line_ok lmax) (id_lines s) \<Longrightarrow>
   \<exists>v'. vendors_loop lmax s v = Inr v'
      \<and> take (vendorIdCount v') (vendorIds v') = take VENDOR_COUNT_MAX
          (take (vendorIdCount v) (vendorIds v) @ map (line_id lmax) (id_lines s))"
proof (induction lmax s v rule: vendors_loop.induct)
  case (1 lmax s v)
  show ?case
  proof (cases "fgets PATH_MAX s")
    case None
    then show ?thesis using 1 by (simp add: vendors_loop.simps [of lmax s] id_lines_step [of s])
  next
    case (Some lr)
    then obtain line rest where lr: "fgets PATH_MAX s = Some (line, rest)" by (cases lr) auto
    show ?thesis
    proof (cases "hd line = CHR ''#''")
      case True
      then show ?thesis using lr "1.IH"(1) [OF lr refl True] "1.prems"
        by (simp add: vendors_loop.simps [of lmax s] id_lines_step [of s])
    next
      case False
      then have ok: "line_ok lmax line" and ids: "id_lines s = line # id_lines rest"
        using lr "1.prems"(5) by (auto simp: id_lines_step [of s])
      let ?i = "line_id lmax line"
      have g: "\<not> (v_errno v = EINVAL \<or> v_errno v = ERANGE \<or> ?i > INT_MAX \<or> ?i < 0)"
        using ok "1.prems"(3,4) by (auto simp: line_ok_def)
      let ?v2 = "v\<lparr>v_errno := v_errno v, vendorIds := (vendorIds v)[vendorIdCount v := ?i],
                    vendorIdCount := Suc (vendorIdCount v)\<rparr>"
      have tk: "take (Suc (vendorIdCount v)) ((vendorIds v)[vendorIdCount v := ?i])
          = take (vendorIdCount v) (vendorIds v) @ [?i]"
        using "1.prems"(1,2) by (simp add: take_Suc_conv_app_nth)
      have run: "vendors_loop lmax s v
          = (if vendorIdCount ?v2 = VENDOR_COUNT_MAX then Inr ?v2 else vendors_loop lmax rest ?v2)"
        using lr False g "1.prems"(1) strtol0_ok [OF ok, of "v_errno v"]
        by (simp add: vendors_loop.simps [of lmax s] Let_def)
      show ?thesis
      proof (cases "vendorIdCount ?v2 = VENDOR_COUNT_MAX")
        case True
        then have "VENDOR_COUNT_MAX - vendorIdCount v = 1" by simp
        then show ?thesis using run tk ids "1.prems"(1,2) True
          by (intro exI [of _ ?v2]) simp
      next
        case notfull: False
        have "list_all (line_ok lmax) (id_lines rest)" using "1.prems"(5) ids by simp
        then show ?thesis
          using "1.IH"(2) [OF lr refl False strtol0_ok [OF ok, symmetric] refl g _ _ notfull]
            run notfull tk ids "1.prems"(1-4)
          by simp
      qed
    qed
  qed
qed

lemma vendor_scan_spec:
  "vendor_scan is vid cls sub proto =
     (if vid \<in> set is \<and> cls = ADB_CLASS \<and> sub = ADB_SUBCLASS \<and> proto = ADB_PROTOCOL then 1 else 0)"
  by (induction "is") auto

section \<open>Properties\<close>

lemma init_table_ok:
  "length (vendorIds v) = VENDOR_COUNT_MAX \<Longrightarrow> list_all (\<lambda>i. 0 \<le> i \<and> i \<le> INT_MAX) (vendorIds v) \<Longrightarrow>
   table_ok (v\<lparr>vendorIds := builtInVendorIds @ drop BUILT_IN_VENDOR_COUNT (vendorIds v),
     vendorIdCount := BUILT_IN_VENDOR_COUNT, open_files := k\<rparr>)"
  by (auto simp: table_ok_def table_consts builtInVendorIds_def list_all_iff dest: in_set_dropD)

lemma initial_ok:
  "length (vendorIds (initial_vendors err)) = VENDOR_COUNT_MAX"
  "list_all (\<lambda>i. 0 \<le> i \<and> i \<le> INT_MAX) (vendorIds (initial_vendors err))"
  by (auto simp: initial_vendors_def list_all_iff INT_MAX_def)

text \<open>The vendor table stays within its bounds. Whatever the environment and the contents of the
  vendor file, initialisation returns or leaves with exit code 2: it never writes outside the
  128-entry array, the built-in identifiers stay in front, and every entry is a nonnegative
  \<open>int\<close>.\<close>

theorem vendors_init_bounds:
  "(case usb_vendors_init lmax home files (initial_vendors err) of
      Inl f \<Rightarrow> f = Exit 2 | Inr v' \<Rightarrow> table_ok v')"
proof -
  let ?v1 = "(initial_vendors err)\<lparr>
      vendorIds := builtInVendorIds @ drop BUILT_IN_VENDOR_COUNT (vendorIds (initial_vendors err)),
      vendorIdCount := BUILT_IN_VENDOR_COUNT\<rparr>"
  have ok: "table_ok (?v1\<lparr>open_files := k\<rparr>)" for k
    by (rule init_table_ok [OF initial_ok])
  have ok1: "table_ok ?v1" using ok [of "open_files ?v1"] by simp
  have lt: "BUILT_IN_VENDOR_COUNT < VENDOR_COUNT_MAX" by (simp add: table_consts builtInVendorIds_def)
  show ?thesis
    using ok1 vendors_loop_ok [OF ok] lt
    by (auto simp: usb_vendors_init_def Let_def split: option.splits prod.splits)
qed

text \<open>What the vendor file means. Starting with a clean \<open>errno\<close>, when every line that is not a
  comment is a number that fits an \<open>int\<close>, initialisation succeeds, and afterwards an interface is
  accepted exactly when it has the ADB class, subclass and protocol and its vendor is built in or
  among the first 102 identifiers of the file.\<close>

theorem vendor_file_accepted:
  assumes "get_adb_usb_ini PATH_MAX home = (0, path)" "files path = Some content"
    and "list_all (line_ok lmax) (id_lines content)"
  shows "\<exists>v. usb_vendors_init lmax home files (initial_vendors 0) = Inr v
    \<and> (is_adb_interface v vid pid cls sub proto = 1 \<longleftrightarrow>
         (vid \<in> set builtInVendorIds \<or> vid \<in> set (take 102 (map (line_id lmax) (id_lines content))))
         \<and> cls = ADB_CLASS \<and> sub = ADB_SUBCLASS \<and> proto = ADB_PROTOCOL)"
proof -
  let ?v1 = "(initial_vendors 0)\<lparr>
      vendorIds := builtInVendorIds @ drop BUILT_IN_VENDOR_COUNT (vendorIds (initial_vendors 0)),
      vendorIdCount := BUILT_IN_VENDOR_COUNT, open_files := 1\<rparr>"
  have lt: "BUILT_IN_VENDOR_COUNT < VENDOR_COUNT_MAX" by (simp add: table_consts builtInVendorIds_def)
  have "table_ok ?v1" by (rule init_table_ok [OF initial_ok])
  then have front: "take BUILT_IN_VENDOR_COUNT (vendorIds ?v1) = builtInVendorIds"
    and len: "length (vendorIds ?v1) = VENDOR_COUNT_MAX" by (simp_all add: table_ok_def)
  obtain v where run: "vendors_loop lmax content ?v1 = Inr v"
    and tk: "take (vendorIdCount v) (vendorIds v)
      = take VENDOR_COUNT_MAX (builtInVendorIds @ map (line_id lmax) (id_lines content))"
    using vendors_loop_exact [of ?v1 lmax content] lt len front assms(3)
    by (auto simp: EINVAL_def ERANGE_def initial_vendors_def)
  have "usb_vendors_init lmax home files (initial_vendors 0) = Inr v"
    using assms(1,2) lt run
    by (simp add: usb_vendors_init_def Let_def initial_vendors_def)
  moreover have "set (take (vendorIdCount v) (vendorIds v))
      = set builtInVendorIds \<union> set (take 102 (map (line_id lmax) (id_lines content)))"
    unfolding tk by (simp add: VENDOR_COUNT_MAX_def builtInVendorIds_def)
  ultimately show ?thesis by (auto simp: is_adb_interface_def vendor_scan_spec)
qed

definition sample_ini :: string where
  "sample_ini = ''# phones'' @ [CHR 0x0A] @ ''0x1d91'' @ [CHR 0x0A] @ '' 17'' @ [CHR 0x0A] @ ''010''"

lemma sample_id_lines: "id_lines sample_ini = [''0x1d91'' @ [CHR 0x0A], '' 17'' @ [CHR 0x0A], ''010'']"
  by (simp add: id_lines_step fgets_def PATH_MAX_def sample_ini_def)

theorem vendor_file_accepted_witness:
  "\<exists>v. usb_vendors_init 2147483647 (Some ''/root'')
      [''/root/.android/adb_usb.ini'' \<mapsto> sample_ini] (initial_vendors 0) = Inr v
    \<and> is_adb_interface v 0x1d91 1 0xff 0x42 1 = 1 \<and> is_adb_interface v 10 1 0xff 0x42 1 \<noteq> 1"
proof -
  have p: "get_adb_usb_ini PATH_MAX (Some ''/root'') = (0, ''/root/.android/adb_usb.ini'')"
    by (simp add: get_adb_usb_ini_def build_path_def PATH_MAX_def snprintf_s_def)
  have ids: "map (line_id 2147483647) (id_lines sample_ini) = [0x1d91, 17, 8]"
    by (simp add: sample_id_lines) code_simp
  have ok: "list_all (line_ok 2147483647) (id_lines sample_ini)"
    by (simp add: sample_id_lines) code_simp
  let ?files = "[''/root/.android/adb_usb.ini'' \<mapsto> sample_ini]"
  have f: "?files ''/root/.android/adb_usb.ini'' = Some sample_ini" by simp
  from vendor_file_accepted [where files = ?files, OF p f ok, where vid = 7569 and pid = 1 and cls = 255 and sub = 66
        and proto = 1]
    vendor_file_accepted [where files = ?files, OF p f ok, where vid = 10 and pid = 1 and cls = 255 and sub = 66
        and proto = 1]
  show ?thesis
    by (auto simp: ids ADB_CLASS_def ADB_SUBCLASS_def ADB_PROTOCOL_def builtInVendorIds_def)
qed

text \<open>A stale \<open>errno\<close>: it is never cleared before \<open>strtol\<close>, so a value left by an earlier library call
  makes the first valid line end the program.\<close>

lemma stale_errno_exits:
  assumes "get_adb_usb_ini PATH_MAX home = (0, path)" "files path = Some content"
    and "fgets PATH_MAX content = Some (line, rest)" "hd line \<noteq> CHR ''#''" "line_ok lmax line"
    and "err = EINVAL \<or> err = ERANGE"
  shows "usb_vendors_init lmax home files (initial_vendors err) = Inl (Exit 2)"
proof -
  have "BUILT_IN_VENDOR_COUNT < VENDOR_COUNT_MAX" by (simp add: table_consts builtInVendorIds_def)
  then show ?thesis
    using assms strtol0_ok [OF assms(5), of err]
    by (auto simp: usb_vendors_init_def Let_def vendors_loop.simps [of lmax content] initial_vendors_def)
qed

end
