(* ===== verification/Devices.thy ===== *)
theory Devices
  imports World DList Vendors
begin

text \<open>
  The registry of USB handles and transports (\<open>usb_libusb.c\<close>, and \<open>register_usb_transport\<close>,
  \<open>unregister_usb_transport\<close> and \<open>init_usb_transport\<close>): the circular list of open handles, the
  classification of a device by its descriptors, reading its serial number, registering and
  releasing it, and the scan over the bus. What libusb and the device answer is an explicit script.
  The head \<open>handle_list\<close> of the list is the object at address 0 of \<open>handles\<close>.
\<close>

section \<open>The list of handles\<close>

definition HANDLE_LIST :: addr where "HANDLE_LIST = 0"

definition set_h_prev :: "ptr \<Rightarrow> ptr \<Rightarrow> (addr \<rightharpoonup> usb_handle) \<Rightarrow> fault + (addr \<rightharpoonup> usb_handle)" where
  "set_h_prev p v hs = bindF (deref hs p) (\<lambda>(a, c). Inr (hs(a \<mapsto> c\<lparr>h_prev := v\<rparr>)))"

definition set_h_next :: "ptr \<Rightarrow> ptr \<Rightarrow> (addr \<rightharpoonup> usb_handle) \<Rightarrow> fault + (addr \<rightharpoonup> usb_handle)" where
  "set_h_next p v hs = bindF (deref hs p) (\<lambda>(a, c). Inr (hs(a \<mapsto> c\<lparr>h_next := v\<rparr>)))"

text \<open>The unlinking at the start of \<open>usb_close\<close> and in \<open>usb_kick\<close>.\<close>

definition unlink_handle :: "addr \<Rightarrow> (addr \<rightharpoonup> usb_handle) \<Rightarrow> fault + (addr \<rightharpoonup> usb_handle)" where
  "unlink_handle h hs =
     bindF (deref hs (Some h)) (\<lambda>(_, hc).
     bindF (set_h_prev (h_next hc) (h_prev hc) hs) (\<lambda>s1.
     bindF (deref s1 (Some h)) (\<lambda>(_, hc1).
     bindF (set_h_next (h_prev hc1) (h_next hc1) s1) (\<lambda>s2.
     bindF (set_h_prev (Some h) None s2) (set_h_next (Some h) None)))))"

text \<open>The linking in \<open>register_device\<close>.\<close>

definition link_handle :: "addr \<Rightarrow> (addr \<rightharpoonup> usb_handle) \<Rightarrow> fault + (addr \<rightharpoonup> usb_handle)" where
  "link_handle usb hs =
     bindF (set_h_next (Some usb) (Some HANDLE_LIST) hs) (\<lambda>s1.
     bindF (deref s1 (Some HANDLE_LIST)) (\<lambda>(_, hl).
     bindF (set_h_prev (Some usb) (h_prev hl) s1) (\<lambda>s2.
     bindF (deref s2 (Some usb)) (\<lambda>(_, uc).
     bindF (set_h_next (h_prev uc) (Some usb) s2) (\<lambda>s3.
     bindF (deref s3 (Some usb)) (\<lambda>(_, uc1).
     set_h_prev (h_next uc1) (Some usb) s3))))))"

section \<open>Releasing a handle\<close>

definition unregister_usb_transport :: "addr \<Rightarrow> world \<Rightarrow> fault + world" where
  "unregister_usb_transport usb w =
     (case transport w of
        None \<Rightarrow> Inr w
      | Some t \<Rightarrow> bindF (deref (transports w) (Some t)) (\<lambda>(_, tr).
          Inr (if t_usb tr = Some usb then w\<lparr>transport := None\<rparr> else w)))"

text \<open>What both \<open>usb_close\<close> and \<open>usb_kick\<close> do with the libusb objects before they free the handle.\<close>

definition release_handle :: "addr \<Rightarrow> world \<Rightarrow> fault + world" where
  "release_handle h w =
     bindF (unlink_handle h (handles w)) (\<lambda>hs.
     bindF (deref hs (Some h)) (\<lambda>(_, hc).
       Inr (w\<lparr>handles := hs(h := None),
              lib := lib w @ [ReleaseInterface (devh hc) (h_interface hc),
                              CloseHandle (devh hc), UnrefDevice (h_dev hc)]\<rparr>)))"

definition usb_close :: "addr \<Rightarrow> world \<Rightarrow> fault + int \<times> world" where
  "usb_close h w = bindF (release_handle h w) (\<lambda>w'. Inr (0, w'))"

definition usb_kick :: "addr \<Rightarrow> world \<Rightarrow> fault + world" where
  "usb_kick h w =
     bindF (deref (handles w) (Some h)) (\<lambda>_.
     bindF (unregister_usb_transport h w) (release_handle h))"

section \<open>Registering a transport\<close>

definition init_usb_transport :: "addr \<Rightarrow> ptr \<Rightarrow> int \<Rightarrow> world \<Rightarrow> fault + world" where
  "init_usb_transport t h state w =
     bindF (deref (transports w) (Some t)) (\<lambda>(_, tr).
       Inr (w\<lparr>transports := (transports w)(t \<mapsto>
              tr\<lparr>t_ops := UsbOps, connection_state := state, t_usb := h\<rparr>)\<rparr>))"

definition register_usb_transport :: "addr \<Rightarrow> string option \<Rightarrow> bool \<Rightarrow> world \<Rightarrow> fault + world" where
  "register_usb_transport usb sn writeable w =
     (if \<not> malloc_ok w then Inl NullDeref
      else let t = brk w;
               w1 = w\<lparr>brk := Suc t, transports := (transports w)(t \<mapsto>
                      \<lparr>t_next = None, t_prev = None, t_ops = Unset, connection_state = 0,
                       t_usb = None, t_serial = None, kicked = 0\<rparr>)\<rparr>
           in bindF (init_usb_transport t (Some usb) (if writeable then CS_OFFLINE else CS_NOPERM) w1) (\<lambda>w2.
              bindF (case sn of
                       None \<Rightarrow> Inr w2
                     | Some s \<Rightarrow> bindF (deref (transports w2) (Some t)) (\<lambda>(_, tr).
                         Inr (w2\<lparr>transports := (transports w2)(t \<mapsto> tr\<lparr>t_serial := Some s\<rparr>)\<rparr>))) (\<lambda>w3.
              let w4 = w3\<lparr>transport := Some t\<rparr>
              in if thread_ok w4 then Inr (w4\<lparr>threads := t # threads w4\<rparr>)
                 else Inl (Exit (-1)))))"

text \<open>\<open>serial\<close> of a handle is the raw array of 128 characters.\<close>

definition register_device :: "usb_handle \<Rightarrow> string \<Rightarrow> world \<Rightarrow> fault + int \<times> world" where
  "register_device uh sn w =
     (if \<not> malloc_ok w then Inl NullDeref
      else if nul \<notin> set (serial uh) then Inl OutOfBounds
      else let usb = brk w
           in bindF (link_handle usb ((handles w)(usb \<mapsto> uh))) (\<lambda>hs.
              bindF (register_usb_transport usb (Some sn) True (w\<lparr>brk := Suc usb, handles := hs\<rparr>)) (\<lambda>w'.
              Inr (1, w'))))"

fun registered_loop :: "nat \<Rightarrow> (addr \<rightharpoonup> usb_handle) \<Rightarrow> ptr \<Rightarrow> usb_handle \<Rightarrow> fault + bool" where
  "registered_loop 0 hs usb uh = Inl Blocked"
| "registered_loop (Suc fuel) hs usb uh =
     (if usb = Some HANDLE_LIST then Inr False
      else bindF (deref hs usb) (\<lambda>(_, c).
             if dev_bus c = dev_bus uh \<and> dev_addr c = dev_addr uh then Inr True
             else registered_loop fuel hs (h_next c) uh))"

definition already_registered :: "usb_handle \<Rightarrow> world \<Rightarrow> fault + bool" where
  "already_registered uh w =
     bindF (deref (handles w) (Some HANDLE_LIST)) (\<lambda>(_, hl).
       registered_loop (Suc (brk w)) (handles w) (h_next hl) uh)"

section \<open>Classifying a device\<close>

text \<open>One round of the loop over the endpoints of an interface setting.\<close>

definition check_endpoint ::
    "interface_descriptor \<Rightarrow> endpoint_descriptor \<Rightarrow> usb_handle \<Rightarrow> usb_handle option" where
  "check_endpoint idesc edesc uh =
     (if bmAttributes edesc \<noteq> TRANSFER_TYPE_BULK then None
      else let uh1 = (if bEndpointAddress edesc AND ENDPOINT_IN \<noteq> 0
                      then uh\<lparr>ep0 := bEndpointAddress edesc\<rparr>
                      else uh\<lparr>ep1 := bEndpointAddress edesc\<rparr>)
           in Some (if bInterfaceProtocol idesc = 0x01
                    then uh1\<lparr>zero_mask := int (unat (wMaxPacketSize edesc)) - 1\<rparr> else uh1))"

text \<open>The loop; the result says whether all endpoints were bulk endpoints.\<close>

fun check_endpoints ::
    "interface_descriptor \<Rightarrow> nat \<Rightarrow> nat \<Rightarrow> usb_handle \<Rightarrow> fault + bool \<times> usb_handle" where
  "check_endpoints idesc e 0 uh = Inr (True, uh)"
| "check_endpoints idesc e (Suc n) uh =
     (if length (endpoint idesc) \<le> e then Inl OutOfBounds
      else case check_endpoint idesc (endpoint idesc ! e) uh of
             None \<Rightarrow> Inr (False, uh)
           | Some uh' \<Rightarrow> check_endpoints idesc (Suc e) n uh')"

definition check_usb_interface ::
    "vendor_state \<Rightarrow> usb_interface \<Rightarrow> device_descriptor \<Rightarrow> usb_handle \<Rightarrow> fault + int \<times> usb_handle" where
  "check_usb_interface v iface desc uh =
     (if num_altsetting iface = 0 then Inr (-1, uh)
      else if altsetting iface = [] then Inl OutOfBounds
      else let idesc = altsetting iface ! 0
           in if bNumEndpoints idesc \<noteq> 2 then Inr (-1, uh)
              else bindF (check_endpoints idesc 0 (unat (bNumEndpoints idesc)) uh) (\<lambda>(bulk, uh').
                if \<not> bulk then Inr (-1, uh')
                else if is_adb_interface v (uint (idVendor desc)) (uint (idProduct desc))
                       (uint (bInterfaceClass idesc)) (uint (bInterfaceSubClass idesc))
                       (uint (bInterfaceProtocol idesc)) = 0
                then Inr (-1, uh') else Inr (1, uh')))"

fun interfaces_loop ::
    "vendor_state \<Rightarrow> config_descriptor \<Rightarrow> device_descriptor \<Rightarrow> nat \<Rightarrow> nat \<Rightarrow> usb_handle
     \<Rightarrow> fault + int \<times> usb_handle" where
  "interfaces_loop v config desc i 0 uh = Inr (-1, uh)"
| "interfaces_loop v config desc i (Suc n) uh =
     (if length (interface config) \<le> i then Inl OutOfBounds
      else bindF (check_usb_interface v (interface config ! i) desc uh) (\<lambda>(r, uh').
             if r \<noteq> -1 then Inr (int i, uh') else interfaces_loop v config desc (Suc i) n uh'))"

definition check_usb_interfaces ::
    "vendor_state \<Rightarrow> config_descriptor \<Rightarrow> device_descriptor \<Rightarrow> usb_handle \<Rightarrow> fault + int \<times> usb_handle"
  where
  "check_usb_interfaces v config desc uh =
     interfaces_loop v config desc 0 (unat (bNumInterfaces config)) uh"

section \<open>The serial number\<close>

text \<open>A buffer of 128 16-bit words into which the first bytes of an answer have been copied.\<close>

definition word_buffer :: "bool \<Rightarrow> u8 list \<Rightarrow> u16 list" where
  "word_buffer big bs =
     (let raw = bs @ replicate (256 - length bs) 0
      in map (\<lambda>i. if big then of_le16 (raw ! (2 * i + 1)) (raw ! (2 * i))
                  else of_le16 (raw ! (2 * i)) (raw ! (2 * i + 1))) [0..<128])"

text \<open>One control request for a string descriptor: the next answer of the script.\<close>

definition string_request ::
    "addr \<Rightarrow> u16 \<Rightarrow> u16 \<Rightarrow> (u8 list \<times> sync_env) list
     \<Rightarrow> fault + int \<times> u8 list \<times> (u8 list \<times> sync_env) list" where
  "string_request dh wValue wIndex script =
     (case script of
        [] \<Rightarrow> Inl Blocked
      | (incoming, env) # rest \<Rightarrow>
          bindF (libusb_control_transfer dh ENDPOINT_IN REQUEST_GET_DESCRIPTOR wValue wIndex
                   (replicate 256 0) 256 0 incoming env) (\<lambda>(res, bs). Inr (ret res, bs, rest)))"

text \<open>The loop \<open>for (j = 1; j < r; ++j) serial[j - 1] = buffer[j]\<close>, with \<open>n\<close> rounds left.\<close>

fun serial_copy :: "u16 list \<Rightarrow> nat \<Rightarrow> nat \<Rightarrow> string \<Rightarrow> fault + nat \<times> string" where
  "serial_copy buf j 0 sn = Inr (j, sn)"
| "serial_copy buf j (Suc n) sn =
     (if length buf \<le> j \<or> length sn \<le> j - 1 then Inl OutOfBounds
      else serial_copy buf (Suc j) n (sn[j - 1 := char_of (unat (buf ! j))]))"

definition store_serial :: "u16 list \<Rightarrow> int \<Rightarrow> string \<Rightarrow> fault + string" where
  "store_serial buf r sn =
     bindF (serial_copy buf 1 (nat (r div 2) - 1) sn) (\<lambda>(j, sn').
       if length sn' \<le> j - 1 then Inl OutOfBounds else Inr (sn'[j - 1 := nul]))"

text \<open>The loop over the languages; \<open>n\<close> rounds are left.\<close>

fun serial_loop ::
    "bool \<Rightarrow> addr \<Rightarrow> u8 \<Rightarrow> u16 list \<Rightarrow> nat \<Rightarrow> nat \<Rightarrow> (u8 list \<times> sync_env) list \<Rightarrow> string
     \<Rightarrow> fault + string" where
  "serial_loop big dh iSerial languages i 0 script sn = Inr sn"
| "serial_loop big dh iSerial languages i (Suc n) script sn =
     (if length languages \<le> i then Inl OutOfBounds
      else bindF (string_request dh (push_bit 8 (ucast DT_STRING) OR ucast iSerial)
                    (languages ! i) script) (\<lambda>(r, bs, rest).
             if r > 0 then store_serial (word_buffer big bs) r sn
             else serial_loop big dh iSerial languages (Suc i) n rest sn))"

text \<open>Reading the serial number; \<open>None\<close> when the languages cannot be read. C division truncates
  towards zero.\<close>

definition read_serial ::
    "bool \<Rightarrow> addr \<Rightarrow> u8 \<Rightarrow> (u8 list \<times> sync_env) list \<Rightarrow> fault + string option" where
  "read_serial big dh iSerial script =
     bindF (string_request dh (push_bit 8 (ucast DT_STRING)) 0 script) (\<lambda>(r, bs, rest).
       if r \<le> 0 then Inr None
       else let languageCount = (if r < 2 then 0 else (r - 2) div 2)
            in bindF (serial_loop big dh iSerial (word_buffer big bs) 1 (nat languageCount) rest
                        (replicate 256 nul)) (\<lambda>sn. Inr (Some sn)))"

section \<open>Checking a device\<close>

text \<open>What libusb and the device answer while one device is checked; \<open>sc_garbage\<close> is the initial
  content of the local variable \<open>uh\<close>.\<close>

record dev_script =
  sc_dev :: addr
  sc_desc_rc :: int
  sc_desc :: device_descriptor
  sc_bus :: u8
  sc_addr :: u8
  sc_cfg_rc :: int
  sc_cfg :: "config_descriptor option"
  sc_open_rc :: int
  sc_devh :: addr
  sc_claim_rc :: int
  sc_strings :: "(u8 list \<times> sync_env) list"
  sc_garbage :: usb_handle

definition log_lib :: "lib_call \<Rightarrow> world \<Rightarrow> world" where
  "log_lib c w = w\<lparr>lib := lib w @ [c]\<rparr>"

text \<open>From \<open>libusb_claim_interface\<close> on, for a device whose interface \<open>uh\<close> describes.\<close>

definition claim_and_register ::
    "dev_script \<Rightarrow> usb_handle \<Rightarrow> world \<Rightarrow> fault + world" where
  "claim_and_register sc uh w =
     (if sc_claim_rc sc < 0 then Inr (log_lib (CloseHandle (devh uh)) w)
      else let w1 = log_lib (ClaimInterface (devh uh) (h_interface uh)) w
           in if iSerialNumber (sc_desc sc) = 0 then Inr w1
              else bindF (read_serial (host_big w) (devh uh) (iSerialNumber (sc_desc sc))
                            (sc_strings sc)) (\<lambda>sn. case sn of
                     None \<Rightarrow> Inr (log_lib (CloseHandle (devh uh)) w1)
                   | Some s \<Rightarrow> bindF (register_device uh (cstr s) w1) (\<lambda>(r, w2).
                       if r = 0
                       then Inr (log_lib (CloseHandle (devh uh))
                                  (log_lib (ReleaseInterface (devh uh) (h_interface uh)) w2))
                       else Inr (log_lib (RefDevice (sc_dev sc)) w2))))"

definition check_device :: "vendor_state \<Rightarrow> dev_script \<Rightarrow> world \<Rightarrow> fault + world" where
  "check_device v sc w =
     (let desc = sc_desc sc
      in if sc_desc_rc sc \<noteq> 0 then Inr w
         else if idVendor desc = 0 \<and> idProduct desc = 0 then Inr w
         else if is_adb_interface v (uint (idVendor desc)) (uint (idProduct desc))
                   ADB_CLASS ADB_SUBCLASS ADB_PROTOCOL = 0 then Inr w
         else let uh = (sc_garbage sc)\<lparr>dev_bus := sc_bus sc, dev_addr := sc_addr sc\<rparr>
              in bindF (already_registered uh w) (\<lambda>known.
                   if known then Inr w
                   else if sc_cfg_rc sc \<noteq> 0 then Inr w
                   else case sc_cfg sc of
                     None \<Rightarrow> Inr w
                   | Some config \<Rightarrow>
                       bindF (if interface config = [] then Inr (-1, uh)
                              else check_usb_interfaces v config desc uh) (\<lambda>(found, uh1).
                         if sc_open_rc sc \<noteq> 0 then Inr w
                         else let uh2 = uh1\<lparr>devh := sc_devh sc, h_dev := sc_dev sc\<rparr>;
                                  w1 = log_lib (OpenDevice (sc_dev sc) (sc_devh sc)) w
                              in if found \<ge> 0
                                 then claim_and_register sc (uh2\<lparr>h_interface := found\<rparr>) w1
                                 else Inr w1)))"

section \<open>Scanning the bus\<close>

text \<open>\<open>active\<close> is what \<open>libusb_kernel_driver_active\<close> answers for an open handle.\<close>

definition check_device_connected :: "(addr \<Rightarrow> int) \<Rightarrow> usb_handle \<Rightarrow> int" where
  "check_device_connected active c =
     (let r = active (devh c)
      in if r = rc LIBUSB_ERROR_NO_DEVICE then 0 else if r < 0 then -1 else 1)"

fun kick_loop :: "nat \<Rightarrow> (addr \<Rightarrow> int) \<Rightarrow> ptr \<Rightarrow> world \<Rightarrow> fault + world" where
  "kick_loop 0 active usb w = Inl Blocked"
| "kick_loop (Suc fuel) active usb w =
     (if usb = Some HANDLE_LIST then Inr w
      else bindF (deref (handles w) usb) (\<lambda>(h, c).
           bindF (if check_device_connected active c = 0 then usb_kick h w else Inr w) (\<lambda>w1.
           bindF (deref (handles w1) usb) (\<lambda>(_, c1). kick_loop fuel active (h_next c1) w1))))"

definition kick_disconnected :: "(addr \<Rightarrow> int) \<Rightarrow> world \<Rightarrow> fault + world" where
  "kick_disconnected active w =
     bindF (deref (handles w) (Some HANDLE_LIST)) (\<lambda>(_, hl).
       kick_loop (Suc (brk w)) active (h_next hl) w)"

fun check_devices :: "vendor_state \<Rightarrow> dev_script list \<Rightarrow> world \<Rightarrow> fault + world" where
  "check_devices v [] w = Inr w"
| "check_devices v (sc # scs) w = bindF (check_device v sc w) (check_devices v scs)"

text \<open>\<open>cnt\<close> is what \<open>libusb_get_device_list\<close> returns; the list holds a reference to each device,
  which \<open>libusb_free_device_list(devs, 1)\<close> gives back.\<close>

definition scan_usb_devices :: "vendor_state \<Rightarrow> int \<Rightarrow> dev_script list \<Rightarrow> world \<Rightarrow> fault + world" where
  "scan_usb_devices v cnt scs w =
     (if cnt < 0 then Inr w
      else bindF (check_devices v scs w) (\<lambda>w'.
             Inr (w'\<lparr>lib := lib w' @ map (\<lambda>sc. UnrefDevice (sc_dev sc)) scs\<rparr>)))"

text \<open>One round of \<open>device_poll_thread\<close> after its sleep.\<close>

definition device_poll_round ::
    "vendor_state \<Rightarrow> (addr \<Rightarrow> int) \<Rightarrow> int \<Rightarrow> dev_script list \<Rightarrow> world \<Rightarrow> fault + world" where
  "device_poll_round v active cnt scs w =
     bindF (kick_disconnected active w) (scan_usb_devices v cnt scs)"

section \<open>The registry as a list\<close>

text \<open>The links of the handles, seen as a store of list nodes, and the handles without their links.\<close>

definition lst :: "(addr \<rightharpoonup> usb_handle) \<Rightarrow> list_store" where
  "lst hs = (\<lambda>a. map_option (\<lambda>c. \<lparr>lprev = h_prev c, lnext = h_next c\<rparr>) (hs a))"

definition bare :: "(addr \<rightharpoonup> usb_handle) \<Rightarrow> addr \<rightharpoonup> usb_handle" where
  "bare hs = (\<lambda>a. map_option (\<lambda>c. c\<lparr>h_prev := None, h_next := None\<rparr>) (hs a))"

lemma lst_simps [simp]:
  "lst (hs(a \<mapsto> c)) = (lst hs)(a \<mapsto> \<lparr>lprev = h_prev c, lnext = h_next c\<rparr>)"
  "lst (hs(a := None)) = (lst hs)(a := None)"
  "dom (lst hs) = dom hs"
  "lst hs a = None \<longleftrightarrow> hs a = None"
  by (auto simp: lst_def fun_eq_iff)

lemma lst_Some: "lst hs a = Some n \<Longrightarrow> \<exists>c. hs a = Some c \<and> h_prev c = lprev n \<and> h_next c = lnext n"
  by (auto simp: lst_def)

lemma bare_simps [simp]:
  "bare (hs(a \<mapsto> c)) = (bare hs)(a \<mapsto> c\<lparr>h_prev := None, h_next := None\<rparr>)"
  "bare (hs(a := None)) = (bare hs)(a := None)"
  by (auto simp: bare_def fun_eq_iff)

lemma bare_upd_links [simp]:
  "hs a = Some c \<Longrightarrow> (bare hs)(a \<mapsto> c\<lparr>h_prev := None, h_next := None\<rparr>) = bare hs"
  by (auto simp: bare_def fun_eq_iff)

lemma bare_dom: "bare hs' = bare hs \<Longrightarrow> dom hs' = dom hs"
proof -
  have "dom (bare k) = dom k" for k by (auto simp: bare_def)
  then show "bare hs' = bare hs \<Longrightarrow> dom hs' = dom hs" by metis
qed

lemma bare_same:
  assumes "bare hs = bare hs'" "hs a = Some c"
  shows "\<exists>c'. hs' a = Some c' \<and> h_dev c' = h_dev c \<and> devh c' = devh c \<and> h_interface c' = h_interface c
    \<and> dev_bus c' = dev_bus c \<and> dev_addr c' = dev_addr c \<and> zero_mask c' = zero_mask c
    \<and> ep0 c' = ep0 c \<and> ep1 c' = ep1 c \<and> serial c' = serial c"
proof -
  obtain c' where c': "hs' a = Some c'" using bare_dom [OF assms(1)] assms(2) by auto
  have eq: "c\<lparr>h_prev := None, h_next := None\<rparr> = c'\<lparr>h_prev := None, h_next := None\<rparr>"
    using fun_cong [OF assms(1), of a] assms(2) c' by (simp add: bare_def)
  show ?thesis
    using c' arg_cong [OF eq, of h_dev] arg_cong [OF eq, of devh] arg_cong [OF eq, of h_interface]
      arg_cong [OF eq, of dev_bus] arg_cong [OF eq, of dev_addr] arg_cong [OF eq, of zero_mask]
      arg_cong [OF eq, of ep0] arg_cong [OF eq, of ep1] arg_cong [OF eq, of serial]
    by simp
qed

lemma dll_other: "e \<notin> set (h # xs) \<Longrightarrow> dll (s(e := c)) h xs \<longleftrightarrow> dll s h xs"
proof -
  assume e: "e \<notin> set (h # xs)"
  have "nx (s(e := c)) = (nx s)(e := Option.bind c lnext)"
    and "pv (s(e := c)) = (pv s)(e := Option.bind c lprev)"
    by (auto simp: nx_def pv_def fun_eq_iff)
  then show ?thesis using e by (simp add: dll_def)
qed

lemma set_h_prev_sim: "map_sum id lst (set_h_prev p v hs) = set_lprev p v (lst hs)"
  by (cases p) (auto simp: set_h_prev_def set_lprev_def deref_def lst_def split: option.splits)

lemma set_h_next_sim: "map_sum id lst (set_h_next p v hs) = set_lnext p v (lst hs)"
  by (cases p) (auto simp: set_h_next_def set_lnext_def deref_def lst_def split: option.splits)

lemma set_links_bare:
  "set_h_prev p v hs = Inr hs' \<Longrightarrow> bare hs' = bare hs"
  "set_h_next p v hs = Inr hs' \<Longrightarrow> bare hs' = bare hs"
  by (auto simp: set_h_prev_def set_h_next_def fault_simps)

lemma map_sum_eq_Inr: "map_sum id f m = Inr y \<longleftrightarrow> (\<exists>x. m = Inr x \<and> f x = y)"
  by (cases m) auto

text \<open>The unlinking is \<open>list_del\<close> on the links, followed by clearing the node's own pointers.\<close>

lemma unlink_handle_ok:
  assumes "dll (lst hs) HANDLE_LIST (xs @ h # zs)"
  shows "\<exists>hs'. unlink_handle h hs = Inr hs' \<and> dll (lst hs') HANDLE_LIST (xs @ zs) \<and> bare hs' = bare hs"
proof -
  obtain s' where del: "list_del h (lst hs) = Inr s'" and rep: "dll s' HANDLE_LIST (xs @ zs)"
    using lh.del_law [OF assms] by blast
  from del obtain n s1 n1 where n: "lst hs h = Some n"
    and s1: "set_lprev (lnext n) (lprev n) (lst hs) = Inr s1"
    and n1: "s1 h = Some n1" and s2: "set_lnext (lprev n1) (lnext n1) s1 = Inr s'"
    by (auto simp: list_del_def fault_simps)
  from n obtain c where c: "hs h = Some c" "h_prev c = lprev n" "h_next c = lnext n"
    using lst_Some by blast
  from s1 obtain hs1 where hs1: "set_h_prev (lnext n) (lprev n) hs = Inr hs1" "lst hs1 = s1"
    by (auto simp flip: set_h_prev_sim simp: map_sum_eq_Inr)
  from n1 obtain c1 where c1: "hs1 h = Some c1" "h_prev c1 = lprev n1" "h_next c1 = lnext n1"
    using lst_Some hs1(2) by blast
  from s2 obtain hs2 where hs2: "set_h_next (lprev n1) (lnext n1) hs1 = Inr hs2" "lst hs2 = s'"
    using hs1(2) by (auto simp flip: set_h_next_sim simp: map_sum_eq_Inr)
  have b: "bare hs2 = bare hs" using set_links_bare hs1(1) hs2(1) by metis
  have "h \<in> dom hs2" using bare_dom [OF b] c by auto
  then obtain c2 where c2: "hs2 h = Some c2" by auto
  let ?hs' = "hs2(h \<mapsto> c2\<lparr>h_prev := None, h_next := None\<rparr>)"
  have "unlink_handle h hs = Inr ?hs'"
    using c c1 c2 hs1(1) hs2(1)
    by (simp add: unlink_handle_def set_h_prev_def [of "Some h"] set_h_next_def [of "Some h"])
  moreover have "h \<notin> set (HANDLE_LIST # xs @ zs)" using assms by (auto simp: dll_def)
  then have "dll (lst ?hs') HANDLE_LIST (xs @ zs)"
    using rep hs2(2) by (simp add: dll_other)
  moreover have "bare ?hs' = bare hs" using bare_upd_links [of hs2 h, OF c2] b by simp
  ultimately show ?thesis by blast
qed

text \<open>The linking is \<open>list_add_tail\<close>.\<close>

lemma link_handle_ok:
  assumes "dll (lst hs) HANDLE_LIST xs" "hs usb \<noteq> None" "usb \<notin> set (HANDLE_LIST # xs)"
  shows "\<exists>hs'. link_handle usb hs = Inr hs' \<and> dll (lst hs') HANDLE_LIST (xs @ [usb]) \<and> bare hs' = bare hs"
proof -
  obtain s' where add: "list_add_tail usb HANDLE_LIST (lst hs) = Inr s'"
    and rep: "dll s' HANDLE_LIST (xs @ [usb])"
    using lh.append_law [OF assms(1) _ assms(3)] assms(2) by (auto simp: is_node_def)
  from add obtain s1 n1 s2 n2 s3 where s1: "set_lnext (Some usb) (Some HANDLE_LIST) (lst hs) = Inr s1"
    and n1: "s1 HANDLE_LIST = Some n1" and s2: "set_lprev (Some usb) (lprev n1) s1 = Inr s2"
    and n2: "s2 HANDLE_LIST = Some n2" and s3: "set_lnext (lprev n2) (Some usb) s2 = Inr s3"
    and s4: "set_lprev (Some HANDLE_LIST) (Some usb) s3 = Inr s'"
    by (auto simp: list_add_tail_def fault_simps)
  from s1 obtain hs1 where hs1: "set_h_next (Some usb) (Some HANDLE_LIST) hs = Inr hs1" "lst hs1 = s1"
    by (auto simp flip: set_h_next_sim simp: map_sum_eq_Inr)
  from n1 obtain c1 where c1: "hs1 HANDLE_LIST = Some c1" "h_prev c1 = lprev n1"
    using lst_Some hs1(2) by blast
  from s2 obtain hs2 where hs2: "set_h_prev (Some usb) (lprev n1) hs1 = Inr hs2" "lst hs2 = s2"
    using hs1(2) by (auto simp flip: set_h_prev_sim simp: map_sum_eq_Inr)
  have ne: "usb \<noteq> HANDLE_LIST" using assms(3) by auto
  obtain c2 where c2: "hs2 usb = Some c2" "h_prev c2 = lprev n1" "h_next c2 = Some HANDLE_LIST"
    using hs1(1) hs2(1) by (auto simp: set_h_next_def set_h_prev_def fault_simps)
  have "s2 HANDLE_LIST = s1 HANDLE_LIST" using s2 ne by (auto simp: set_lprev_def fault_simps)
  then have "n2 = n1" using n1 n2 by simp
  with s3 obtain hs3 where hs3: "set_h_next (lprev n1) (Some usb) hs2 = Inr hs3" "lst hs3 = s3"
    using hs2(2) by (auto simp flip: set_h_next_sim simp: map_sum_eq_Inr)
  from s4 obtain hs' where hs': "set_h_prev (Some HANDLE_LIST) (Some usb) hs3 = Inr hs'" "lst hs' = s'"
    using hs3(2) by (auto simp flip: set_h_prev_sim simp: map_sum_eq_Inr)
  have "lprev n1 \<noteq> Some usb"
  proof -
    have "pv (lst hs) HANDLE_LIST = Some (last (HANDLE_LIST # xs))"
      using dll_neighbours [of "lst hs" HANDLE_LIST xs "[]"] assms(1) by (auto simp: pv_def)
    moreover have "s1 HANDLE_LIST = lst hs HANDLE_LIST"
      using s1 ne by (auto simp: set_lnext_def fault_simps)
    ultimately have "lprev n1 = Some (last (HANDLE_LIST # xs))" 
      using n1 by (metis pv_def bind.bind_lunit)
    then show ?thesis using assms(3) last_in_set [of "HANDLE_LIST # xs"] by auto
  qed
  then obtain c3 where c3: "hs3 usb = Some c3" "h_next c3 = Some HANDLE_LIST"
    using hs3(1) c2 by (auto simp: set_h_next_def fault_simps)
  have "link_handle usb hs = Inr hs'"
    using hs1(1) c1 hs2(1) c2 hs3(1) c3 hs'(1) by (simp add: link_handle_def)
  moreover have "bare hs' = bare hs" using set_links_bare hs1(1) hs2(1) hs3(1) hs'(1) by metis
  ultimately show ?thesis using rep hs'(2) by blast
qed

section \<open>The invariant of the registry\<close>

text \<open>
  The allocated handles are the head and the listed ones, each once; addresses of handles and
  transports have been handed out by the allocator; the current transport, if any, is a USB
  transport over a listed handle.
\<close>

definition registry :: "world \<Rightarrow> addr list \<Rightarrow> bool" where
  "registry w xs \<longleftrightarrow>
     dll (lst (handles w)) HANDLE_LIST xs \<and> dom (handles w) = set (HANDLE_LIST # xs)
     \<and> (\<forall>a \<in> dom (handles w). a < brk w) \<and> (\<forall>a \<in> dom (transports w). a < brk w)
     \<and> (\<forall>t. transport w = Some t \<longrightarrow> (\<exists>tr h. transports w t = Some tr \<and> t_ops tr = UsbOps
            \<and> t_usb tr = Some h \<and> h \<in> set xs))"

lemma registry_handle: "registry w xs \<Longrightarrow> h \<in> set xs \<Longrightarrow> \<exists>c. handles w h = Some c"
  by (auto simp: registry_def)

lemma registry_distinct: "registry w xs \<Longrightarrow> distinct (HANDLE_LIST # xs)"
  by (simp add: registry_def dll_def)

lemma registry_length:
  assumes "registry w xs" shows "length xs < brk w"
proof -
  have "card (set (HANDLE_LIST # xs)) \<le> card {..<brk w}"
    using assms by (intro card_mono) (auto simp: registry_def)
  then show ?thesis using distinct_card [OF registry_distinct [OF assms]] by simp
qed

lemma registered_loop_ok:
  "links (nx (lst hs)) (pv (lst hs)) p xs HANDLE_LIST \<Longrightarrow> HANDLE_LIST \<notin> set xs \<Longrightarrow> length xs < fuel \<Longrightarrow>
   registered_loop fuel hs (nx (lst hs) p) uh = Inr (\<exists>h \<in> set xs. \<exists>c. hs h = Some c
     \<and> dev_bus c = dev_bus uh \<and> dev_addr c = dev_addr uh)"
proof (induction xs arbitrary: p fuel)
  case Nil
  then show ?case by (cases fuel) auto
next
  case (Cons x xs)
  then obtain k where k: "fuel = Suc k" "length xs < k" by (cases fuel) auto
  have l: "links (nx (lst hs)) (pv (lst hs)) x xs HANDLE_LIST" "nx (lst hs) p = Some x"
    using Cons.prems(1) by auto
  have "\<exists>c. lst hs x = Some c" using links_nodes [of "nx (lst hs)" "pv (lst hs)" p "x # xs"] l(1)
    by (cases xs) (auto simp: nx_def bind_eq_Some_conv)
  then obtain c where c: "hs x = Some c" using lst_Some by blast
  then have "nx (lst hs) x = h_next c" by (simp add: nx_def lst_def)
  then show ?case
    using Cons.IH [OF l(1) _ k(2)] Cons.prems(2) k(1) l(2) c by auto
qed

lemma already_registered_ok:
  assumes "registry w xs"
  shows "already_registered uh w = Inr (\<exists>h \<in> set xs. \<exists>c. handles w h = Some c
    \<and> dev_bus c = dev_bus uh \<and> dev_addr c = dev_addr uh)"
proof -
  have "HANDLE_LIST \<in> dom (handles w)" using assms by (simp add: registry_def)
  then obtain hl where hl: "handles w HANDLE_LIST = Some hl" by auto
  then have "nx (lst (handles w)) HANDLE_LIST = h_next hl" by (simp add: nx_def lst_def)
  moreover have "links (nx (lst (handles w))) (pv (lst (handles w))) HANDLE_LIST xs HANDLE_LIST"
    using assms by (simp add: registry_def dll_def)
  ultimately show ?thesis
    using registered_loop_ok [of "handles w" HANDLE_LIST xs "Suc (brk w)" uh] hl
      registry_length [OF assms] registry_distinct [OF assms]
    by (simp add: already_registered_def)
qed

lemma unregister_ok:
  assumes "registry w xs"
  obtains w1 where "unregister_usb_transport h w = Inr w1" "w1 = w \<or> w1 = w\<lparr>transport := None\<rparr>"
    "\<And>t tr. transport w1 = Some t \<Longrightarrow> transports w t = Some tr \<Longrightarrow> t_usb tr \<noteq> Some h"
proof (cases "transport w")
  case None
  show ?thesis by (rule that [of w]) (simp_all add: None unregister_usb_transport_def)
next
  case (Some t)
  then obtain tr where tr: "transports w t = Some tr" using assms by (auto simp: registry_def)
  show ?thesis
  proof (cases "t_usb tr = Some h")
    case True
    show ?thesis by (rule that [of "w\<lparr>transport := None\<rparr>"])
        (simp_all add: Some tr True unregister_usb_transport_def)
  next
    case False
    show ?thesis by (rule that [of w]) (use Some tr False in \<open>auto simp: unregister_usb_transport_def\<close>)
  qed
qed

lemma usb_kick_ok:
  assumes "registry w (xs @ h # zs)" and hc: "handles w h = Some hc"
  shows "\<exists>w'. usb_kick h w = Inr w' \<and> registry w' (xs @ zs)
    \<and> lib w' = lib w @ [ReleaseInterface (devh hc) (h_interface hc), CloseHandle (devh hc),
                         UnrefDevice (h_dev hc)]
    \<and> bare (handles w') = (bare (handles w))(h := None)"
proof -
  obtain hs where hs: "unlink_handle h (handles w) = Inr hs" "dll (lst hs) HANDLE_LIST (xs @ zs)"
    "bare hs = bare (handles w)"
    using unlink_handle_ok [of "handles w" xs h zs] assms(1) by (auto simp: registry_def)
  obtain c where c: "hs h = Some c" and same: "devh c = devh hc" "h_interface c = h_interface hc"
    "h_dev c = h_dev hc"
    using bare_same [OF hs(3) [symmetric] hc] by auto
  obtain w1 where u: "unregister_usb_transport h w = Inr w1" "w1 = w \<or> w1 = w\<lparr>transport := None\<rparr>"
    and tr: "\<And>t tr. transport w1 = Some t \<Longrightarrow> transports w t = Some tr \<Longrightarrow> t_usb tr \<noteq> Some h"
    by (rule unregister_ok [OF assms(1), of h]) blast
  from u have w1: "unregister_usb_transport h w = Inr w1" "handles w1 = handles w" "lib w1 = lib w"
    "brk w1 = brk w" "transports w1 = transports w" "transport w1 = None \<or> transport w1 = transport w"
    by auto
  let ?w' = "w1\<lparr>handles := hs(h := None), lib := lib w @ [ReleaseInterface (devh hc) (h_interface hc),
      CloseHandle (devh hc), UnrefDevice (h_dev hc)]\<rparr>"
  have "usb_kick h w = Inr ?w'"
    using hs(1) hc c same w1 by (simp add: usb_kick_def release_handle_def)
  moreover have d: "distinct (HANDLE_LIST # xs @ h # zs)" using registry_distinct [OF assms(1)] .
  then have "dll (lst (hs(h := None))) HANDLE_LIST (xs @ zs)" using hs(2) by (simp add: dll_other)
  moreover have "dom (hs(h := None)) = set (HANDLE_LIST # xs @ zs)"
    using bare_dom [OF hs(3)] assms(1) d by (auto simp: registry_def)
  moreover have "\<exists>tr k. transports w t = Some tr \<and> t_ops tr = UsbOps
      \<and> t_usb tr = Some k \<and> k \<in> set (xs @ zs)" if "transport w1 = Some t" for t
  proof -
    have "transport w = Some t" using that w1(6) by auto
    then obtain r k where "transports w t = Some r" "t_ops r = UsbOps" "t_usb r = Some k"
      "k \<in> set (xs @ h # zs)" using assms(1) by (auto simp: registry_def)
    then show ?thesis using tr [OF that] by auto
  qed
  ultimately have "registry ?w' (xs @ zs)"
    using assms(1) w1 unfolding registry_def by auto
  with \<open>usb_kick h w = Inr ?w'\<close> show ?thesis using hs(3) by (intro exI [of _ ?w']) simp
qed

lemma register_usb_transport_Inr:
  assumes "register_usb_transport usb sn wr w = Inr w'"
  shows "malloc_ok w \<and> thread_ok w \<and> w' = w\<lparr>brk := Suc (brk w),
    transports := (transports w)(brk w \<mapsto> \<lparr>t_next = None, t_prev = None, t_ops = UsbOps,
       connection_state = (if wr then CS_OFFLINE else CS_NOPERM), t_usb = Some usb,
       t_serial = sn, kicked = 0\<rparr>),
    transport := Some (brk w), threads := brk w # threads w\<rparr>"
  using assms
  by (cases sn) (simp_all add: register_usb_transport_def init_usb_transport_def Let_def split: if_splits)

lemma register_device_ok:
  assumes reg: "registry w xs" and run: "register_device uh sn w = Inr (r, w')"
  shows "r = 1 \<and> registry w' (xs @ [brk w]) \<and> lib w' = lib w \<and> transport w' = Some (Suc (brk w))
    \<and> bare (handles w') = (bare (handles w))(brk w \<mapsto> uh\<lparr>h_prev := None, h_next := None\<rparr>)"
proof -
  let ?usb = "brk w"
  have fresh: "?usb \<notin> dom (handles w)" using reg by (auto simp: registry_def)
  then have fresh2: "?usb \<notin> set (HANDLE_LIST # xs)" using reg by (simp add: registry_def)
  let ?hs = "(handles w)(?usb \<mapsto> uh)"
  have "dll (lst ?hs) HANDLE_LIST xs"
    using reg fresh2 by (simp add: dll_other registry_def)
  then obtain hs where hs: "link_handle ?usb ?hs = Inr hs"
    "dll (lst hs) HANDLE_LIST (xs @ [?usb])" "bare hs = bare ?hs"
    using link_handle_ok [of ?hs xs ?usb] fresh2 by auto
  let ?w1 = "w\<lparr>brk := Suc ?usb, handles := hs\<rparr>"
  from run hs(1) have r: "r = 1" and rt: "register_usb_transport ?usb (Some sn) True ?w1 = Inr w'"
    by (auto simp: register_device_def Let_def split: if_splits)
  note w' = register_usb_transport_Inr [OF rt]
  have d: "dom hs = set (HANDLE_LIST # xs @ [?usb])"
    using bare_dom [OF hs(3)] reg by (auto simp: registry_def)
  have "registry w' (xs @ [?usb])"
    using w' hs(2) d reg unfolding registry_def by (auto simp: less_SucI)
  then show ?thesis using r w' hs(3) by simp
qed

section \<open>What a check leaves behind\<close>

lemma registry_log [simp]: "registry (log_lib c w) xs = registry w xs"
  by (simp add: registry_def log_lib_def)

lemma log_lib_simps [simp]:
  "handles (log_lib c w) = handles w" "transport (log_lib c w) = transport w"
  "lib (log_lib c w) = lib w @ [c]" "brk (log_lib c w) = brk w"
  by (simp_all add: log_lib_def)

lemma claim_and_register_outcomes:
  assumes reg: "registry w xs" and run: "claim_and_register sc uh w = Inr w'"
  shows "registry w' xs \<and> handles w' = handles w \<and> transport w' = transport w
      \<and> lib w' \<in> {lib w @ [CloseHandle (devh uh)], lib w @ [ClaimInterface (devh uh) (h_interface uh)],
           lib w @ [ClaimInterface (devh uh) (h_interface uh), CloseHandle (devh uh)]}
    \<or> registry w' (xs @ [brk w]) \<and> transport w' = Some (Suc (brk w))
      \<and> bare (handles w') = (bare (handles w))(brk w \<mapsto> uh\<lparr>h_prev := None, h_next := None\<rparr>)
      \<and> lib w' = lib w @ [ClaimInterface (devh uh) (h_interface uh), RefDevice (sc_dev sc)]"
proof -
  let ?w1 = "log_lib (ClaimInterface (devh uh) (h_interface uh)) w"
  consider "w' = log_lib (CloseHandle (devh uh)) w" | "w' = ?w1" | "w' = log_lib (CloseHandle (devh uh)) ?w1"
    | s r w2 where "register_device uh (cstr s) ?w1 = Inr (r, w2)"
        "w' = (if r = 0 then log_lib (CloseHandle (devh uh))
           (log_lib (ReleaseInterface (devh uh) (h_interface uh)) w2) else log_lib (RefDevice (sc_dev sc)) w2)"
    using run by (fastforce simp: claim_and_register_def Let_def split: if_splits option.splits)
  then show ?thesis
  proof cases
    case 4
    have "registry ?w1 xs" using reg by simp
    from register_device_ok [OF this 4(1)] 4(2) show ?thesis by simp
  qed (use reg in simp_all)
qed

lemma check_device_cases:
  assumes "check_device v sc w = Inr w'"
  obtains "w' = w" | "w' = log_lib (OpenDevice (sc_dev sc) (sc_devh sc)) w"
    | uh where "devh uh = sc_devh sc" "h_dev uh = sc_dev sc"
        "claim_and_register sc uh (log_lib (OpenDevice (sc_dev sc) (sc_devh sc)) w) = Inr w'"
proof -
  let ?open = "log_lib (OpenDevice (sc_dev sc) (sc_devh sc)) w"
  have "w' = w \<or> (\<exists>found uh1. w' = (if sc_open_rc sc \<noteq> 0 then w else ?open))
    \<or> (\<exists>found uh1. claim_and_register sc (uh1\<lparr>devh := sc_devh sc, h_dev := sc_dev sc,
          h_interface := found\<rparr>) ?open = Inr w')"
    using assms
    by (fastforce simp: check_device_def Let_def split: if_splits option.splits)
  then show thesis
  proof (elim disjE exE)
    fix found and uh1 :: usb_handle
    assume "claim_and_register sc (uh1\<lparr>devh := sc_devh sc, h_dev := sc_dev sc,
        h_interface := found\<rparr>) ?open = Inr w'"
    then show thesis
      by (rule that(3) [of "uh1\<lparr>devh := sc_devh sc, h_dev := sc_dev sc, h_interface := found\<rparr>",
            rotated 2]) simp_all
  qed (use that in \<open>auto split: if_splits\<close>)
qed

text \<open>C16: what checking a device leaves behind. When \<open>check_device\<close> returns, the registry of handles
  is intact and one of two things has happened. Either a new handle is registered at the end of the
  list, its transport is the current one, and the calls made were open, claim and reference; or the
  list and the transport are as before, and the device was not opened, was opened and closed, or
  was left open.\<close>

theorem check_device_outcomes:
  assumes reg: "registry w xs" and run: "check_device v sc w = Inr w'"
  shows "registry w' xs \<and> handles w' = handles w \<and> transport w' = transport w
      \<and> (\<exists>i. let op = OpenDevice (sc_dev sc) (sc_devh sc); cl = CloseHandle (sc_devh sc);
                 cm = ClaimInterface (sc_devh sc) i
             in lib w' \<in> {lib w, lib w @ [op], lib w @ [op, cl], lib w @ [op, cm], lib w @ [op, cm, cl]})
    \<or> registry w' (xs @ [brk w]) \<and> transport w' = Some (Suc (brk w))
      \<and> (\<exists>c i. handles w' (brk w) = Some c \<and> devh c = sc_devh sc \<and> h_dev c = sc_dev sc
           \<and> lib w' = lib w @ [OpenDevice (sc_dev sc) (sc_devh sc), ClaimInterface (sc_devh sc) i,
                               RefDevice (sc_dev sc)])"
  using run
proof (cases rule: check_device_cases)
  case (3 uh)
  let ?w1 = "log_lib (OpenDevice (sc_dev sc) (sc_devh sc)) w"
  have "registry ?w1 xs" using reg by simp
  from claim_and_register_outcomes [OF this 3(3)] show ?thesis
  proof (elim disjE conjE)
    assume a: "registry w' (xs @ [brk ?w1])" "transport w' = Some (Suc (brk ?w1))"
      "bare (handles w') = (bare (handles ?w1))(brk ?w1 \<mapsto> uh\<lparr>h_prev := None, h_next := None\<rparr>)"
      "lib w' = lib ?w1 @ [ClaimInterface (devh uh) (h_interface uh), RefDevice (sc_dev sc)]"
    then have "bare (handles w') = bare ((handles w)(brk w \<mapsto> uh))" by simp
    then obtain c where "handles w' (brk w) = Some c" "devh c = devh uh" "h_dev c = h_dev uh"
      using bare_same [of "(handles w)(brk w \<mapsto> uh)" "handles w'" "brk w" uh] by auto
    then show ?thesis using a 3(1,2) by auto
  next
    assume "registry w' xs" "handles w' = handles ?w1" "transport w' = transport ?w1"
      "lib w' \<in> {lib ?w1 @ [CloseHandle (devh uh)],
         lib ?w1 @ [ClaimInterface (devh uh) (h_interface uh)],
         lib ?w1 @ [ClaimInterface (devh uh) (h_interface uh), CloseHandle (devh uh)]}"
    then show ?thesis using 3(1) by (auto simp: Let_def)
  qed
qed (use reg in \<open>auto simp: Let_def\<close>)

text \<open>An Android device without a serial number is never registered, and each scan opens it once
  more. For a device with the ADB interface that can be opened and claimed but whose descriptor
  names no serial number, \<open>check_device\<close> returns with the device open and its interface claimed,
  and no handle, transport or registry entry refers to it.\<close>

theorem check_device_no_serial_leaks:
  assumes "sc_desc_rc sc = 0" "iSerialNumber (sc_desc sc) = 0"
    and "is_adb_interface v (uint (idVendor (sc_desc sc))) (uint (idProduct (sc_desc sc)))
      ADB_CLASS ADB_SUBCLASS ADB_PROTOCOL = 1" "idVendor (sc_desc sc) \<noteq> 0"
    and "already_registered ((sc_garbage sc)\<lparr>dev_bus := sc_bus sc, dev_addr := sc_addr sc\<rparr>) w = Inr False"
    and "sc_cfg_rc sc = 0" "sc_cfg sc = Some config" "interface config \<noteq> []"
    and "check_usb_interfaces v config (sc_desc sc)
      ((sc_garbage sc)\<lparr>dev_bus := sc_bus sc, dev_addr := sc_addr sc\<rparr>) = Inr (found, uh1)" "0 \<le> found"
    and "sc_open_rc sc = 0" "0 \<le> sc_claim_rc sc"
  shows "check_device v sc w = Inr (w\<lparr>lib := lib w @ [OpenDevice (sc_dev sc) (sc_devh sc),
    ClaimInterface (sc_devh sc) found]\<rparr>)"
  using assms by (simp add: check_device_def claim_and_register_def log_lib_def)

section \<open>Kicking disconnected devices\<close>

definition connected :: "(addr \<Rightarrow> int) \<Rightarrow> world \<Rightarrow> addr \<Rightarrow> bool" where
  "connected active w h \<longleftrightarrow> (case handles w h of None \<Rightarrow> False
     | Some c \<Rightarrow> check_device_connected active c \<noteq> 0)"

lemma nx_handle: "hs a = Some c \<Longrightarrow> nx (lst hs) a = h_next c"
  by (simp add: nx_def lst_def)

lemma kick_loop_result:
  "registry w (pre @ xs) \<Longrightarrow> length xs < fuel \<Longrightarrow>
   kick_loop fuel active (nx (lst (handles w)) (last (HANDLE_LIST # pre))) w
     = (if list_all (connected active w) xs then Inr w else Inl UseAfterFree)"
proof (induction xs arbitrary: pre fuel)
  case Nil
  then have "nx (lst (handles w)) (last (HANDLE_LIST # pre)) = Some HANDLE_LIST"
    using links_ends [of "nx (lst (handles w))" "pv (lst (handles w))" HANDLE_LIST pre "[]" HANDLE_LIST]
    by (simp add: registry_def dll_def)
  then show ?case using Nil.prems by (cases fuel) simp_all
next
  case (Cons x xs)
  then obtain k where k: "fuel = Suc k" "length xs < k" by (cases fuel) auto
  have nxt: "nx (lst (handles w)) (last (HANDLE_LIST # pre)) = Some x"
    using links_ends [of "nx (lst (handles w))" "pv (lst (handles w))" HANDLE_LIST pre "x # xs" HANDLE_LIST]
      Cons.prems(1) by (simp add: registry_def dll_def)
  obtain c where c: "handles w x = Some c" using registry_handle [OF Cons.prems(1)] by auto
  have x0: "x \<noteq> HANDLE_LIST" using registry_distinct [OF Cons.prems(1)] by auto
  show ?case
  proof (cases "check_device_connected active c = 0")
    case True
    obtain w' where kick: "usb_kick x w = Inr w'" "registry w' (pre @ xs)"
      using usb_kick_ok [OF Cons.prems(1) c] by blast
    have "x \<notin> dom (handles w')"
      using kick(2) registry_distinct [OF Cons.prems(1)] by (auto simp: registry_def)
    then have "handles w' x = None" by auto
    then show ?thesis
      using k nxt c x0 True kick(1) by (simp add: connected_def)
  next
    case False
    have "kick_loop k active (nx (lst (handles w)) x) w
        = (if list_all (connected active w) xs then Inr w else Inl UseAfterFree)"
      using Cons.IH [of "pre @ [x]" k] Cons.prems(1) k(2) by simp
    moreover have "connected active w x" using c False by (simp add: connected_def)
    ultimately show ?thesis using k nxt c x0 False nx_handle [of "handles w", OF c] by simp
  qed
qed

text \<open>The scan for disconnected devices reads a handle after it has been freed. On an intact
  registry, \<open>kick_disconnected\<close> changes nothing when every registered device still answers; as soon
  as one is gone, the loop kicks it and then follows the \<open>next\<close> pointer of the freed handle.\<close>

theorem kick_disconnected_result:
  assumes "registry w xs"
  shows "kick_disconnected active w
    = (if list_all (connected active w) xs then Inr w else Inl UseAfterFree)"
proof -
  have "HANDLE_LIST \<in> dom (handles w)" using assms by (simp add: registry_def)
  then obtain hl where hl: "handles w HANDLE_LIST = Some hl" by auto
  show ?thesis
    using kick_loop_result [of w "[]" xs "Suc (brk w)" active] assms registry_length [OF assms] hl
      nx_handle [of "handles w", OF hl]
    by (simp add: kick_disconnected_def)
qed

section \<open>Witnesses\<close>

definition empty_handle :: usb_handle where
  "empty_handle = \<lparr>h_prev = Some HANDLE_LIST, h_next = Some HANDLE_LIST, h_dev = 0, devh = 0,
     h_interface = 0, dev_bus = 0, dev_addr = 0, zero_mask = 0, ep0 = 0, ep1 = 0,
     serial = replicate 128 nul\<rparr>"

definition start_world :: world where
  "start_world = sample_world\<lparr>heap := Map.empty, handles := [HANDLE_LIST \<mapsto> empty_handle], brk := 1\<rparr>"

lemma registry_start: "registry start_world []"
  by (simp add: registry_def start_world_def sample_world_def dll_def nx_def pv_def lst_def
      empty_handle_def HANDLE_LIST_def)

definition bulk_endpoint :: "u8 \<Rightarrow> endpoint_descriptor" where
  "bulk_endpoint a = \<lparr>ed_bLength = 7, ed_bDescriptorType = DT_ENDPOINT, bEndpointAddress = a,
     bmAttributes = TRANSFER_TYPE_BULK, wMaxPacketSize = 512, bInterval = 0, bRefresh = 0,
     bSynchAddress = 0, ed_extra = []\<rparr>"

definition adb_config :: config_descriptor where
  "adb_config = \<lparr>cd_bLength = 9, cd_bDescriptorType = DT_CONFIG, wTotalLength = 32,
     bNumInterfaces = 1, bConfigurationValue = 1, iConfiguration = 0, cd_bmAttributes = 0x80,
     MaxPower = 250, interface = [\<lparr>altsetting = [\<lparr>id_bLength = 9, id_bDescriptorType = DT_INTERFACE,
       bInterfaceNumber = 0, bAlternateSetting = 0, bNumEndpoints = 2, bInterfaceClass = 0xff,
       bInterfaceSubClass = 0x42, bInterfaceProtocol = 1, iInterface = 0,
       endpoint = [bulk_endpoint 0x81, bulk_endpoint 0x02], id_extra = []\<rparr>], num_altsetting = 1\<rparr>],
     cd_extra = []\<rparr>"

definition adb_device :: "u8 \<Rightarrow> device_descriptor" where
  "adb_device i = \<lparr>dd_bLength = 18, dd_bDescriptorType = DT_DEVICE, bcdUSB = 0x200, bDeviceClass = 0,
     bDeviceSubClass = 0, bDeviceProtocol = 0, bMaxPacketSize0 = 64, idVendor = 0x18d1,
     idProduct = 0x4e12, bcdDevice = 0x100, iManufacturer = 1, iProduct = 2, iSerialNumber = i,
     bNumConfigurations = 1\<rparr>"

definition adb_script :: "u8 \<Rightarrow> (u8 list \<times> sync_env) list \<Rightarrow> dev_script" where
  "adb_script i strs = \<lparr>sc_dev = 70, sc_desc_rc = 0, sc_desc = adb_device i, sc_bus = 1, sc_addr = 5,
     sc_cfg_rc = 0, sc_cfg = Some adb_config, sc_open_rc = 0, sc_devh = 71, sc_claim_rc = 0,
     sc_strings = strs, sc_garbage = empty_handle\<rparr>"

definition builtin_vendors :: vendor_state where
  "builtin_vendors = \<lparr>vendorIds = builtInVendorIds @ replicate 102 0, vendorIdCount = 26,
     v_errno = 0, open_files = 0\<rparr>"

lemmas adb_sample_defs = adb_script_def adb_device_def adb_config_def bulk_endpoint_def

lemma builtin_accepts:
  "is_adb_interface builtin_vendors 0x18d1 pid cls sub proto
     = (if cls = ADB_CLASS \<and> sub = ADB_SUBCLASS \<and> proto = ADB_PROTOCOL then 1 else 0)"
  by (simp add: is_adb_interface_def vendor_scan_spec builtin_vendors_def builtInVendorIds_def)

lemma start_not_registered: "already_registered uh start_world = Inr False"
  using already_registered_ok [OF registry_start] by simp

lemma check_endpoints_2:
  "check_endpoints idesc e 2 uh = check_endpoints idesc e (Suc (Suc 0)) uh"
  by (simp only: numeral_2_eq_2)

lemma adb_config_found:
  "check_usb_interfaces builtin_vendors adb_config (adb_device i) uh
     = Inr (0, uh\<lparr>ep0 := 0x81, zero_mask := 511, ep1 := 0x02\<rparr>)"
  by (simp add: check_usb_interfaces_def check_usb_interface_def check_endpoint_def builtin_accepts
      adb_sample_defs TRANSFER_TYPE_BULK_def ENDPOINT_IN_def ADB_CLASS_def ADB_SUBCLASS_def
      ADB_PROTOCOL_def Let_def check_endpoints_2)

theorem check_device_no_serial_leaks_witness:
  "check_device builtin_vendors (adb_script 0 []) start_world
     = Inr (start_world\<lparr>lib := [OpenDevice 70 71, ClaimInterface 71 0]\<rparr>)"
  using check_device_no_serial_leaks [of "adb_script 0 []" builtin_vendors start_world adb_config 0]
    adb_config_found [of 0] start_not_registered
  by (simp add: adb_script_def adb_device_def builtin_accepts adb_config_def start_world_def
      sample_world_def)

section \<open>Reading the serial number\<close>

text \<open>A string request that the device answers in one piece.\<close>

lemma string_request_good:
  "256 \<le> n \<Longrightarrow> string_request dh wv wi ((incoming, good_env n) # rest)
     = Inr (int (min 256 (length incoming)), take 256 incoming, rest)"
  by (simp add: string_request_def libusb_control_transfer_def good_env_def Let_def
      endpoint_dir_defs min_def)

text \<open>However the transfer ends, an IN request never reports more bytes than were asked for.\<close>

lemma control_in_bounds:
  "(case libusb_control_transfer dh ENDPOINT_IN rq wv wi dat 256 0 incoming env of
      Inl f \<Rightarrow> f = Blocked | Inr (res, bs) \<Rightarrow> ret res \<le> 256)"
  using control_in [of dh rq wv wi dat 256 0 incoming env]
    control_in_blocked [of dh rq wv wi dat 256 0 incoming env]
  by (fastforce split: sum.splits)

lemma string_request_bounds:
  "(case string_request dh wv wi script of Inl f \<Rightarrow> f = Blocked | Inr (r, bs, rest) \<Rightarrow> r \<le> 256)"
proof (cases script)
  case (Cons a rest)
  obtain incoming env where a: "a = (incoming, env)" by (cases a) auto
  show ?thesis
    using control_in_bounds [of dh REQUEST_GET_DESCRIPTOR wv wi "replicate 256 0" incoming env] Cons a
    by (auto simp: string_request_def split: sum.splits prod.splits)
qed (simp add: string_request_def)

lemma serial_copy_ok:
  "j + n \<le> length buf \<Longrightarrow> j + n \<le> Suc (length sn) \<Longrightarrow> 0 < j \<Longrightarrow>
     serial_copy buf j n sn = Inr (j + n, take (j - 1) sn @
       map (\<lambda>w. char_of (unat w)) (take n (drop j buf)) @ drop (j - 1 + n) sn)"
proof (induction n arbitrary: j sn)
  case (Suc n)
  let ?c = "char_of (unat (buf ! j)) :: char"
  have "drop j buf = buf ! j # drop (Suc j) buf" using Suc.prems(1) by (simp add: Cons_nth_drop_Suc)
  moreover have "take j (sn[j - 1 := ?c]) = take (j - 1) sn @ [?c]"
    using Suc.prems(2,3) by (cases j) (simp_all add: take_Suc_conv_app_nth)
  ultimately show ?case using Suc by simp
qed simp

lemma length_word_buffer [simp]: "length (word_buffer big bs) = 128"
  by (simp add: word_buffer_def Let_def)

lemma store_serial_ok:
  assumes "r \<le> 256" "0 < r" "length buf = 128" "length sn = 256"
  shows "\<exists>sn'. store_serial buf r sn = Inr sn' \<and> length sn' = 256 \<and> nul \<in> set sn'
    \<and> sn' = map (\<lambda>w. char_of (unat w)) (take (nat (r div 2) - 1) (drop 1 buf))
        @ nul # drop (Suc (nat (r div 2) - 1)) sn"
proof -
  let ?n = "nat (r div 2) - 1"
  have n: "?n \<le> 127" using assms(1) by simp
  have c: "serial_copy buf 1 ?n sn
      = Inr (1 + ?n, map (\<lambda>w. char_of (unat w)) (take ?n (drop 1 buf)) @ drop ?n sn)"
    using serial_copy_ok [of 1 ?n buf sn] n assms(3,4) by simp
  let ?s = "map (\<lambda>w. char_of (unat w)) (take ?n (drop 1 buf)) @ drop ?n sn"
  have len: "length ?s = 256" "length (map (\<lambda>w. char_of (unat w) :: char) (take ?n (drop 1 buf))) = ?n"
    using n assms(3,4) by simp_all
  have "drop ?n sn \<noteq> []" using n assms(4) by simp
  then obtain a rest where d: "drop ?n sn = a # rest" by (cases "drop ?n sn") auto
  then have rest: "rest = drop (Suc ?n) sn" by (metis drop_Suc list.sel(3) tl_drop)
  have upd: "?s[?n := nul] = map (\<lambda>w. char_of (unat w)) (take ?n (drop 1 buf)) @ nul # rest"
    using len(2) d by (simp add: list_update_append)
  have "store_serial buf r sn = Inr (?s[?n := nul])"
    using c n len(1) by (simp add: store_serial_def del: length_append)
  then show ?thesis using upd rest len(1) by (metis length_list_update in_set_conv_decomp)
qed

lemma serial_loop_ok:
  "i + n \<le> 128 \<Longrightarrow> length languages = 128 \<Longrightarrow> length sn = 256 \<Longrightarrow> nul \<in> set sn \<Longrightarrow>
   (case serial_loop big dh is languages i n script sn of
      Inl f \<Rightarrow> f = Blocked | Inr sn' \<Rightarrow> length sn' = 256 \<and> nul \<in> set sn')"
proof (induction n arbitrary: i script)
  case (Suc n)
  let ?q = "string_request dh (push_bit 8 (ucast DT_STRING) OR ucast is) (languages ! i) script"
  show ?case
  proof (cases ?q)
    case (Inl f)
    then show ?thesis using Suc.prems
        string_request_bounds [of dh "push_bit 8 (ucast DT_STRING) OR ucast is" "languages ! i" script]
      by simp
  next
    case (Inr x)
    then obtain r bs rest where x: "?q = Inr (r, bs, rest)" by (cases x) auto
    then have "r \<le> 256"
      using string_request_bounds [of dh "push_bit 8 (ucast DT_STRING) OR ucast is" "languages ! i" script]
      by simp
    then show ?thesis
      using x Suc.prems Suc.IH [of "Suc i" rest] store_serial_ok [of r "word_buffer big bs" sn]
      by (cases "r > 0") auto
  qed
qed simp

text \<open>Reading the serial number stays within its buffers. Whatever the device and libusb answer,
  on either byte order, the number of languages, the indices into the two 128-word buffers and
  the index into the 256-character buffer stay in bounds, and the text stored is terminated.\<close>

theorem read_serial_in_bounds:
  "(case read_serial big dh is script of
      Inl f \<Rightarrow> f = Blocked
    | Inr None \<Rightarrow> True
    | Inr (Some sn) \<Rightarrow> length sn = 256 \<and> nul \<in> set sn)"
proof (cases "string_request dh (push_bit 8 (ucast DT_STRING)) 0 script")
  case (Inl f)
  then show ?thesis
    using string_request_bounds [of dh "push_bit 8 (ucast DT_STRING)" 0 script]
    by (simp add: read_serial_def)
next
  case (Inr x)
  then obtain r bs rest where x: "string_request dh (push_bit 8 (ucast DT_STRING)) 0 script
      = Inr (r, bs, rest)" by (cases x) auto
  let ?n = "nat (if r < 2 then 0 else (r - 2) div 2)"
  have "r \<le> 256" using x string_request_bounds [of dh "push_bit 8 (ucast DT_STRING)" 0 script] by simp
  then have "1 + ?n \<le> 128" by auto
  then have "(case serial_loop big dh is (word_buffer big bs) 1 ?n rest (replicate 256 nul) of
      Inl f \<Rightarrow> f = Blocked | Inr sn' \<Rightarrow> length sn' = 256 \<and> nul \<in> set sn')"
    by (intro serial_loop_ok) simp_all
  then show ?thesis using x
    by (cases "serial_loop big dh is (word_buffer big bs) 1 ?n rest (replicate 256 nul)")
      (auto simp: read_serial_def Let_def)
qed

text \<open>The string descriptor of an ASCII serial number, and what the code reads out of it.\<close>

definition string_desc :: "string \<Rightarrow> u8 list" where
  "string_desc s = [of_nat (2 + 2 * length s), DT_STRING] @ concat (map (\<lambda>c. [of_char c, 0]) s)"

lemma pairs_nth:
  "i < length s \<Longrightarrow> concat (map (\<lambda>c. [f c, g c]) s) ! (2 * i) = f (s ! i)
     \<and> concat (map (\<lambda>c. [f c, g c]) s) ! Suc (2 * i) = g (s ! i)"
proof (induction s arbitrary: i)
  case (Cons a s)
  then show ?case by (cases i) auto
qed simp

lemma length_pairs [simp]: "length (concat (map (\<lambda>c. [f c, g c]) s)) = 2 * length s"
  by (induction s) auto

lemma of_le16_zero: "unat (of_le16 b 0) = unat b"
  by (simp add: of_le16_def unsigned_ucast_eq take_bit_nat_eq_self u8_less
      less_trans [OF u8_less [of b], of 65536])

lemma word_buffer_string_desc:
  assumes "length s \<le> 126"
  shows "map (\<lambda>w. char_of (unat w)) (take (length s) (drop 1 (word_buffer False (string_desc s)))) = s"
proof (rule nth_equalityI)
  let ?raw = "string_desc s @ replicate (256 - length (string_desc s)) 0"
  let ?l = "map (\<lambda>w. char_of (unat w) :: char) (take (length s) (drop 1 (word_buffer False (string_desc s))))"
  show "length ?l = length s" using assms by simp
  fix i assume "i < length ?l"
  then have i: "i < length s" using assms by simp
  have "?raw ! (2 * Suc i) = of_char (s ! i)" "?raw ! Suc (2 * Suc i) = 0"
    using i pairs_nth [of i s of_char "\<lambda>_. 0 :: u8"] by (simp_all add: string_desc_def nth_append)
  then show "?l ! i = s ! i"
    using i assms by (simp add: word_buffer_def Let_def of_le16_zero unat_of_char)
qed

text \<open>The serial number of a device is read as the device has it. On a little-endian host, a
  device that names one language and answers with the string descriptor of a serial number of at
  most 126 characters without zero bytes is registered under exactly this serial number.\<close>

theorem read_serial_roundtrip:
  assumes "length s \<le> 126" "nul \<notin> set s"
  shows "\<exists>sn. read_serial False dh is
      [([4, DT_STRING, a, b], good_env 256), (string_desc s, good_env 256)] = Inr (Some sn)
    \<and> cstr sn = s"
proof -
  have l1: "string_request dh (push_bit 8 (ucast DT_STRING)) 0
      [([4, DT_STRING, a, b], good_env 256), (string_desc s, good_env 256)]
    = Inr (4, [4, DT_STRING, a, b], [(string_desc s, good_env 256)])"
    by (simp add: string_request_good)
  have len: "length (string_desc s) = 2 + 2 * length s" by (simp add: string_desc_def)
  then have l2: "string_request dh wv wi [(string_desc s, good_env 256)]
    = Inr (2 + 2 * int (length s), string_desc s, [])" for wv wi
    using assms(1) by (simp add: string_request_good min_def)
  have n: "nat ((2 + 2 * int (length s)) div 2) - 1 = length s" by simp
  obtain sn where "store_serial (word_buffer False (string_desc s)) (2 + 2 * int (length s))
      (replicate 256 nul) = Inr sn"
    and sn: "sn = map (\<lambda>w. char_of (unat w)) (take (length s) (drop 1 (word_buffer False (string_desc s))))
       @ nul # drop (Suc (length s)) (replicate 256 nul)"
    using store_serial_ok [of "2 + 2 * int (length s)" "word_buffer False (string_desc s)"
        "replicate 256 nul"] assms(1) n by auto
  then have "read_serial False dh is
      [([4, DT_STRING, a, b], good_env 256), (string_desc s, good_env 256)] = Inr (Some sn)"
    by (simp add: read_serial_def l1 l2 Let_def)
  moreover have "cstr sn = s"
    unfolding sn word_buffer_string_desc [OF assms(1)]
    using assms(2) by (simp add: cstr_def takeWhile_append2 takeWhile_append)
  ultimately show ?thesis by blast
qed

theorem read_serial_roundtrip_witness:
  "\<exists>sn. read_serial False 71 3
      [([4, DT_STRING, 9, 4], good_env 256), (string_desc ''HT0ABC'', good_env 256)] = Inr (Some sn)
    \<and> cstr sn = ''HT0ABC''"
  by (rule read_serial_roundtrip) (simp_all add: nul_def)

definition sample_strings :: "(u8 list \<times> sync_env) list" where
  "sample_strings = [([4, DT_STRING, 9, 4], good_env 256), (string_desc ''HT0ABC'', good_env 256)]"

lemma sample_serial: "\<exists>sn. read_serial False 71 3 sample_strings = Inr (Some sn)"
proof -
  have "case read_serial False 71 3 sample_strings of Inl f \<Rightarrow> False | Inr None \<Rightarrow> False
      | Inr (Some sn) \<Rightarrow> True"
    by code_simp
  then show ?thesis by (auto split: sum.splits option.splits)
qed

lemma register_device_runs:
  assumes reg: "registry w xs" and "malloc_ok w" "thread_ok w" "nul \<in> set (serial uh)"
  shows "\<exists>w'. register_device uh sn w = Inr (1, w')"
proof -
  let ?hs = "(handles w)(brk w \<mapsto> uh)"
  have fresh: "brk w \<notin> set (HANDLE_LIST # xs)" using reg by (auto simp: registry_def)
  then have "dll (lst ?hs) HANDLE_LIST xs" using reg by (simp add: dll_other registry_def)
  then obtain hs where "link_handle (brk w) ?hs = Inr hs"
    using link_handle_ok [of ?hs xs "brk w"] fresh by auto
  then show ?thesis using assms(2-4)
    by (simp add: register_device_def register_usb_transport_def init_usb_transport_def Let_def)
qed

lemma adb_script_registers:
  "\<exists>w'. check_device builtin_vendors (adb_script 3 sample_strings) start_world = Inr w'
    \<and> transport w' \<noteq> transport start_world"
proof -
  let ?w1 = "log_lib (ClaimInterface 71 0) (log_lib (OpenDevice 70 71) start_world)"
  let ?uh = "empty_handle\<lparr>dev_bus := 1, dev_addr := 5, ep0 := 0x81, zero_mask := 511, ep1 := 0x02,
    devh := 71, h_dev := 70, h_interface := 0\<rparr>"
  obtain sn where sn: "read_serial False 71 3 sample_strings = Inr (Some sn)"
    using sample_serial by blast
  have reg: "registry ?w1 []" using registry_start by simp
  have "\<exists>w'. register_device ?uh (cstr sn) ?w1 = Inr (1, w')"
    by (rule register_device_runs [OF reg])
      (simp_all add: log_lib_def start_world_def sample_world_def empty_handle_def)
  then obtain w' where w': "register_device ?uh (cstr sn) ?w1 = Inr (1, w')" by blast
  have big: "host_big start_world = False" by (simp add: start_world_def sample_world_def)
  have "check_device builtin_vendors (adb_script 3 sample_strings) start_world
      = Inr (log_lib (RefDevice 70) w')"
    using w' sn big start_not_registered adb_config_found [of 3]
    by (simp add: check_device_def claim_and_register_def adb_script_def adb_device_def
        builtin_accepts adb_config_def log_lib_def)
  moreover have "transport w' = Some (Suc (brk ?w1))" using register_device_ok [OF reg w'] by simp
  ultimately show ?thesis by (simp add: start_world_def sample_world_def)
qed

theorem check_device_outcomes_witness:
  "\<exists>w'. check_device builtin_vendors (adb_script 3 sample_strings) start_world = Inr w'
    \<and> registry w' [1] \<and> transport w' = Some 2"
proof -
  obtain w' where run: "check_device builtin_vendors (adb_script 3 sample_strings) start_world = Inr w'"
    "transport w' \<noteq> transport start_world" using adb_script_registers by blast
  have "brk start_world = 1" by (simp add: start_world_def)
  with check_device_outcomes [OF registry_start run(1)] run show ?thesis
    by (auto simp: numeral_2_eq_2)
qed

lemma registry_sample: "\<exists>w. registry w [1] \<and> (\<exists>c. handles w 1 = Some c)"
proof -
  have "\<exists>w'. register_device empty_handle [] start_world = Inr (1, w')"
    by (rule register_device_runs [OF registry_start])
      (simp_all add: start_world_def sample_world_def empty_handle_def)
  then obtain w' where "register_device empty_handle [] start_world = Inr (1, w')" by blast
  then have "registry w' [1]"
    using register_device_ok [OF registry_start] by (fastforce simp: start_world_def)
  then show ?thesis using registry_handle [of w' "[1]" 1] by auto
qed

theorem kick_disconnected_result_witness:
  "\<exists>w. registry w [1] \<and> kick_disconnected (\<lambda>_. 0) w = Inr w
     \<and> kick_disconnected (\<lambda>_. -4) w = Inl UseAfterFree"
proof -
  obtain w c where w: "registry w [1]" "handles w 1 = Some c" using registry_sample by blast
  then show ?thesis
    using kick_disconnected_result [OF w(1), of "\<lambda>_. 0"] kick_disconnected_result [OF w(1), of "\<lambda>_. -4"]
    by (intro exI [of _ w]) (simp add: connected_def check_device_connected_def)
qed

end
