(* ===== verification/Transport.thy ===== *)
theory Transport
  imports Devices
begin

text \<open>
  Packets over a transport (\<open>transport_usb.c\<close>, \<open>transport_z.c\<close>): reading a packet with its checks,
  writing one, sending one and giving it back to the allocator, and kicking a transport. The locale
  \<open>byte_pipe\<close> states what the packet layer relies on below it, and is interpreted on \<open>usb_read\<close> and
  \<open>usb_write\<close> of well-formed handles.
\<close>

section \<open>Packets over a byte pipe\<close>

text \<open>\<open>remote_read\<close> on a packet and a device: the header's 24 bytes, then the payload it announces.\<close>

definition packet_read ::
    "('d \<Rightarrow> int \<Rightarrow> fault + int \<times> u8 list \<times> 'd) \<Rightarrow> bool \<Rightarrow> apacket \<Rightarrow> 'd \<Rightarrow> fault + int \<times> apacket \<times> 'd"
  where
  "packet_read rd big p d =
     bindF (rd d 24) (\<lambda>(r, bs, d1).
       let p1 = p\<lparr>msg := message_of_mem big (bs @ drop (length bs) (message_mem big (msg p)))\<rparr>
       in if r \<noteq> 0 then Inr (-1, p1, d1)
          else let p2 = fix_endians big p1
               in if check_header p2 \<noteq> 0 then Inr (-1, p2, d1)
                  else bindF (if data_length (msg p2) \<noteq> 0
                              then bindF (rd d1 (int (unat (data_length (msg p2))))) (\<lambda>(r2, bs2, d2).
                                     Inr (r2, p2\<lparr>data := store_bytes bs2 (data p2)\<rparr>, d2))
                              else Inr (0, p2, d1)) (\<lambda>(r2, p3, d2).
                         if r2 \<noteq> 0 then Inr (-1, p3, d2)
                         else bindF (check_data p3) (\<lambda>c.
                                if c \<noteq> 0 then Inr (-1, p3, d2) else Inr (0, p3, d2))))"

text \<open>\<open>remote_write\<close>: the header, then the payload, whose length was read before the byte order was
  changed.\<close>

definition packet_write ::
    "('d \<Rightarrow> u8 list \<Rightarrow> fault + int \<times> 'd) \<Rightarrow> bool \<Rightarrow> apacket \<Rightarrow> 'd \<Rightarrow> fault + int \<times> apacket \<times> 'd" where
  "packet_write wr big p d =
     (let size = data_length (msg p);
          p1 = fix_endians big p
      in bindF (wr d (message_mem big (msg p1))) (\<lambda>(r, d1).
           if r \<noteq> 0 then Inr (-1, p1, d1)
           else if data_length (msg p1) = 0 then Inr (0, p1, d1)
           else if MAX_PAYLOAD < unat size then Inl OutOfBounds
           else bindF (wr d1 (map (data p1) [0..<unat size])) (\<lambda>(r2, d2).
                  if r2 \<noteq> 0 then Inr (-1, p1, d2) else Inr (0, p1, d2))))"

text \<open>Two streams that both start with a packet start with the same packet.\<close>

lemma wire_message_inj: "wire_message m = wire_message n \<Longrightarrow> m = n"
  by (metis message_of_mem_mem wire_message_def)

lemma wire_packet_prefix:
  assumes "wire_packet p @ xs = wire_packet q @ ys"
  shows "msg p = msg q \<and> payload p = payload q \<and> xs = ys"
proof -
  from assms have eq: "wire_message (msg p) @ payload p @ xs = wire_message (msg q) @ payload q @ ys"
    by (simp add: wire_packet_def)
  then have "wire_message (msg p) = wire_message (msg q)" and rest: "payload p @ xs = payload q @ ys"
    by simp_all
  then have m: "msg p = msg q" using wire_message_inj by blast
  then have "length (payload p) = length (payload q)" by (simp add: payload_in_bounds)
  then show ?thesis using m rest by simp
qed

lemma fix_endians_data_length_0 [simp]:
  "data_length (msg (fix_endians big p)) = 0 \<longleftrightarrow> data_length (msg p) = 0"
proof -
  have "H4 0 = 0" by (simp add: H4_def)
  then have "H4 w = 0 \<longleftrightarrow> w = 0" for w using H4_H4 [of w] by metis
  then show ?thesis by (simp add: fix_endians_def)
qed

lemma payload_store_bytes:
  "length bs = unat (data_length (msg p)) \<Longrightarrow> payload (p\<lparr>data := store_bytes bs d\<rparr>) = bs"
  using map_store_bytes [of bs d] by (simp add: payload_def)

locale byte_pipe =
  fixes ok :: "'h \<Rightarrow> bool"
    and rd :: "'h \<Rightarrow> 'd \<Rightarrow> int \<Rightarrow> fault + int \<times> u8 list \<times> 'd"
    and wr :: "'h \<Rightarrow> 'd \<Rightarrow> u8 list \<Rightarrow> fault + int \<times> 'd"
    and inp :: "'d \<Rightarrow> u8 list"
    and outp :: "'d \<Rightarrow> u8 list"
  assumes rd_law: "ok h \<Longrightarrow> rd h d len = Inr (r, bs, d') \<Longrightarrow> inp d = bs @ inp d' \<and> outp d' = outp d
      \<and> (r = 0 \<and> length bs = nat len \<or> r = -1 \<and> length bs \<le> nat len)"
    and wr_law: "ok h \<Longrightarrow> wr h d xs = Inr (r, d') \<Longrightarrow> inp d' = inp d
      \<and> (r = 0 \<longrightarrow> outp d' = outp d @ xs) \<and> (\<exists>k \<le> length xs. outp d' = outp d @ take k xs)"
begin

text \<open>A packet that is accepted is the next packet of the stream, and nothing else is consumed.\<close>

lemma packet_read_sound:
  assumes h: "ok h" and run: "packet_read (rd h) big p d = Inr (0, q, d')"
  shows "inp d = wire_packet q @ inp d' \<and> outp d' = outp d \<and> check_header q = 0 \<and> check_data q = Inr 0"
proof -
  from run obtain bs d1 where r1: "rd h d 24 = Inr (0, bs, d1)"
    by (auto simp: packet_read_def Let_def split: if_splits)
  from rd_law [OF h r1] have s1: "inp d = bs @ inp d1" "outp d1 = outp d" "length bs = 24" by auto
  let ?p2 = "fix_endians big (p\<lparr>msg := message_of_mem big bs\<rparr>)"
  have hd: "check_header ?p2 = 0"
    and rest: "(if data_length (msg ?p2) \<noteq> 0
        then bindF (rd h d1 (int (unat (data_length (msg ?p2))))) (\<lambda>(r2, bs2, d2).
               Inr (r2, ?p2\<lparr>data := store_bytes bs2 (data ?p2)\<rparr>, d2))
        else Inr (0, ?p2, d1)) = Inr (0, q, d')"
    and chk: "check_data q = Inr 0"
    using run r1 s1(3)
    by (auto simp: packet_read_def Let_def split: if_splits
        elim!: bindF_InrE)
  have m: "wire_message (msg ?p2) = bs"
    using message_mem_fix_endians [of big ?p2] message_mem_of_mem [OF s1(3), of big] by simp
  have "inp d1 = payload q @ inp d' \<and> outp d' = outp d1 \<and> msg q = msg ?p2"
  proof (cases "data_length (msg ?p2) = 0")
    case True
    with rest show ?thesis by (auto simp: payload_def)
  next
    case False
    with rest obtain bs2 where r2: "rd h d1 (int (unat (data_length (msg ?p2)))) = Inr (0, bs2, d')"
      and q: "q = ?p2\<lparr>data := store_bytes bs2 (data ?p2)\<rparr>" by auto
    from rd_law [OF h r2] have "inp d1 = bs2 @ inp d'" "outp d' = outp d1"
      "length bs2 = unat (data_length (msg ?p2))" by auto
    then show ?thesis using q payload_store_bytes [of bs2 ?p2 "data ?p2"] by simp
  qed
  then show ?thesis
    using s1 m hd chk by (simp add: wire_packet_def check_header_0_iff)
qed

text \<open>Reading from a stream that starts with a packet gives this packet, or fails.\<close>

lemma packet_read_framing:
  assumes "ok h" "inp d = wire_packet p0 @ rest" "packet_read (rd h) big p d = Inr (0, q, d')"
  shows "msg q = msg p0 \<and> payload q = payload p0 \<and> inp d' = rest"
proof -
  have "wire_packet q @ inp d' = wire_packet p0 @ rest"
    using packet_read_sound [OF assms(1,3)] assms(2) by simp
  from wire_packet_prefix [OF this] show ?thesis by simp
qed

text \<open>However writing ends, the peer has received a prefix of the packet's wire form.\<close>

lemma packet_write_prefix:
  assumes h: "ok h" and run: "packet_write (wr h) big p d = Inr (r, q, d')"
  shows "inp d' = inp d \<and> (r = 0 \<longrightarrow> outp d' = outp d @ wire_packet p) \<and> (r = 0 \<or> r = -1)
    \<and> (\<exists>k \<le> length (wire_packet p). outp d' = outp d @ take k (wire_packet p))"
proof -
  let ?p1 = "fix_endians big p"
  have mem: "message_mem big (msg ?p1) = wire_message (msg p)" by (rule message_mem_fix_endians)
  from run obtain r1 d1 where w1: "wr h d (wire_message (msg p)) = Inr (r1, d1)"
    by (auto simp: packet_write_def Let_def mem)
  from wr_law [OF h w1] obtain k1 where s1: "inp d1 = inp d" "r1 = 0 \<longrightarrow> outp d1 = outp d @ wire_message (msg p)"
    "k1 \<le> 24" "outp d1 = outp d @ take k1 (wire_message (msg p))"
    unfolding length_wire_message by blast
  have pre: "outp d1 = outp d @ take k1 (wire_packet p)" "k1 \<le> length (wire_packet p)"
    using s1 by (simp_all add: wire_packet_def)
  consider "r1 \<noteq> 0" | "r1 = 0" "data_length (msg p) = 0" | "r1 = 0" "data_length (msg p) \<noteq> 0" by blast
  then show ?thesis
  proof cases
    case 1
    with run w1 have "r = -1" "d' = d1" by (auto simp: packet_write_def Let_def mem)
    then show ?thesis using s1 pre by auto
  next
    case 2
    with run w1 have "r = 0" "d' = d1" by (auto simp: packet_write_def Let_def mem)
    moreover have "wire_packet p = wire_message (msg p)" using 2 by (simp add: wire_packet_def payload_def)
    ultimately show ?thesis using s1 pre 2 by auto
  next
    case 3
    with run w1 obtain r2 where w2: "wr h d1 (payload p) = Inr (r2, d')"
      and r: "r = (if r2 \<noteq> 0 then -1 else 0)"
      by (auto simp: packet_write_def Let_def mem payload_def split: if_splits)
    from wr_law [OF h w2] obtain k2 where s2: "inp d' = inp d1" "r2 = 0 \<longrightarrow> outp d' = outp d1 @ payload p"
      "k2 \<le> length (payload p)" "outp d' = outp d1 @ take k2 (payload p)" by blast
    have "outp d' = outp d @ take (24 + k2) (wire_packet p)" "24 + k2 \<le> length (wire_packet p)"
      using s1(2) 3 s2(3,4) by (simp_all add: wire_packet_def)
    then have "\<exists>k \<le> length (wire_packet p). outp d' = outp d @ take k (wire_packet p)" by blast
    moreover have "r = 0 \<longrightarrow> outp d' = outp d @ wire_packet p"
      using s1(2) s2(2) 3 r by (auto simp: wire_packet_def)
    ultimately show ?thesis using s1(1) s2(1) r by auto
  qed
qed

end

text \<open>The transfers of a well-formed handle are a byte pipe.\<close>

interpretation link: byte_pipe wf_handle usb_read usb_write in_stream dev_out
proof unfold_locales
  fix uh d len r bs d' assume "wf_handle uh" "usb_read uh d len = Inr (r, bs, d')"
  then show "in_stream d = bs @ in_stream d' \<and> dev_out d' = dev_out d
      \<and> (r = 0 \<and> length bs = nat len \<or> r = -1 \<and> length bs \<le> nat len)"
    by (rule usb_read_law)
next
  fix uh d xs r d' assume "wf_handle uh" "usb_write uh d xs = Inr (r, d')"
  then show "in_stream d' = in_stream d \<and> (r = 0 \<longrightarrow> dev_out d' = dev_out d @ xs)
      \<and> (\<exists>k \<le> length xs. dev_out d' = dev_out d @ take k xs)"
    by (rule usb_write_law)
qed

section \<open>The operations of the USB transport\<close>

definition remote_read :: "addr \<Rightarrow> addr \<Rightarrow> world \<Rightarrow> fault + int \<times> world" where
  "remote_read p t w =
     bindF (deref (transports w) (Some t)) (\<lambda>(_, tr).
     bindF (deref (handles w) (t_usb tr)) (\<lambda>(h, uh).
     bindF (deref (heap w) (Some p)) (\<lambda>(_, pk).
     bindF (packet_read (usb_read uh) (host_big w) pk (devs w h)) (\<lambda>(r, pk', d').
       Inr (r, w\<lparr>heap := (heap w)(p \<mapsto> pk'), devs := (devs w)(h := d')\<rparr>)))))"

definition remote_write :: "addr \<Rightarrow> addr \<Rightarrow> world \<Rightarrow> fault + int \<times> world" where
  "remote_write p t w =
     bindF (deref (transports w) (Some t)) (\<lambda>(_, tr).
     bindF (deref (handles w) (t_usb tr)) (\<lambda>(h, uh).
     bindF (deref (heap w) (Some p)) (\<lambda>(_, pk).
     bindF (packet_write (usb_write uh) (host_big w) pk (devs w h)) (\<lambda>(r, pk', d').
       Inr (r, w\<lparr>heap := (heap w)(p \<mapsto> pk'), devs := (devs w)(h := d')\<rparr>)))))"

definition remote_close :: "addr \<Rightarrow> world \<Rightarrow> fault + world" where
  "remote_close t w =
     bindF (deref (transports w) (Some t)) (\<lambda>(_, tr).
       case t_usb tr of
         None \<Rightarrow> Inl NullDeref
       | Some h \<Rightarrow> bindF (usb_close h w) (\<lambda>(_, w').
           Inr (w'\<lparr>transports := (transports w')(t \<mapsto> tr\<lparr>t_usb := None\<rparr>)\<rparr>)))"

definition remote_kick :: "addr \<Rightarrow> world \<Rightarrow> fault + world" where
  "remote_kick t w =
     bindF (deref (transports w) (Some t)) (\<lambda>(_, tr).
       case t_usb tr of None \<Rightarrow> Inl NullDeref | Some h \<Rightarrow> usb_kick h w)"

section \<open>Sending and kicking\<close>

text \<open>The result of the write is not looked at. The packet's trace line goes to \<open>stderr\<close>.\<close>

definition send_packet :: "addr \<Rightarrow> ptr \<Rightarrow> world \<Rightarrow> fault + world" where
  "send_packet p tp w =
     bindF (deref (heap w) (Some p)) (\<lambda>(_, pk).
     bindF (finalize_packet pk) (\<lambda>pk1.
     bindF (print_packet ''send'' pk1) (\<lambda>_.
       let w1 = w\<lparr>heap := (heap w)(p \<mapsto> pk1)\<rparr>
       in case tp of
            None \<Rightarrow> Inl (Exit (-1))
          | Some t \<Rightarrow> bindF (deref (transports w1) (Some t)) (\<lambda>(_, tr).
              case t_ops tr of
                Unset \<Rightarrow> Inl NullDeref
              | UsbOps \<Rightarrow> bindF (remote_write p t w1) (\<lambda>(_, w2). put_apacket p w2)))))"

definition kick_transport :: "ptr \<Rightarrow> world \<Rightarrow> fault + world" where
  "kick_transport tp w =
     (case tp of
        None \<Rightarrow> Inr w
      | Some t \<Rightarrow> bindF (deref (transports w) (Some t)) (\<lambda>(_, tr).
          if kicked tr \<noteq> 0 then Inr w
          else let w1 = w\<lparr>transports := (transports w)(t \<mapsto> tr\<lparr>kicked := 1\<rparr>)\<rparr>
               in case t_ops tr of Unset \<Rightarrow> Inl NullDeref | UsbOps \<Rightarrow> remote_kick t w1))"

section \<open>What sending does\<close>

text \<open>A transport ready for use: a USB transport over an open, well-formed handle.\<close>

definition usable :: "world \<Rightarrow> addr \<Rightarrow> addr \<Rightarrow> usb_handle \<Rightarrow> bool" where
  "usable w t h uh \<longleftrightarrow> (\<exists>tr. transports w t = Some tr \<and> t_ops tr = UsbOps \<and> t_usb tr = Some h
     \<and> handles w h = Some uh \<and> wf_handle uh)"

lemma print_packet_ok: "\<exists>s. print_packet label p = Inr s"
proof -
  let ?n = "unat (data_length (msg p))"
  have "(if ?n > DUMPMAX then DUMPMAX else ?n) \<le> MAX_PAYLOAD" by (simp add: DUMPMAX_def MAX_PAYLOAD_def)
  then show ?thesis by (simp add: print_packet_def Let_def dump_loop_ok)
qed

text \<open>The frame of sending: only the packet and the device at the other end change.\<close>

lemma send_packet_effect:
  assumes u: "usable w t h uh" and p: "heap w p = Some pk"
    and run: "send_packet p (Some t) w = Inr w'"
  shows "\<exists>q d' r. finalize_packet pk = Inr q
    \<and> (\<exists>q'. packet_write (usb_write uh) (host_big w) q (devs w h) = Inr (r, q', d'))
    \<and> w' = w\<lparr>heap := (heap w)(p := None), devs := (devs w)(h := d')\<rparr>"
proof -
  from u obtain tr where tr: "transports w t = Some tr" "t_ops tr = UsbOps" "t_usb tr = Some h"
    "handles w h = Some uh" by (auto simp: usable_def)
  from run p obtain q where q: "finalize_packet pk = Inr q" by (auto simp: send_packet_def)
  obtain s where "print_packet ''send'' q = Inr s" using print_packet_ok by blast
  with run p q tr show ?thesis
    by (auto simp: send_packet_def remote_write_def put_apacket_def Let_def elim!: bindF_InrE)
qed

lemma finalize_fits:
  "finalize_packet pk = Inr q \<Longrightarrow> unat (data_length (msg pk)) \<le> MAX_PAYLOAD"
proof (rule ccontr)
  assume f: "finalize_packet pk = Inr q" and "\<not> unat (data_length (msg pk)) \<le> MAX_PAYLOAD"
  then have "payload_sum (pk\<lparr>msg := (msg pk)\<lparr>magic := command (msg pk) XOR 0xffffffff\<rparr>\<rparr>) = Inl OutOfBounds"
    by (intro payload_sum_fault) simp
  with f show False by (simp add: finalize_packet_def Let_def)
qed

text \<open>Reading a valid packet succeeds when the device keeps delivering.\<close>

lemma check_cong:
  "msg p = msg q \<Longrightarrow> check_header p = check_header q"
  "msg p = msg q \<Longrightarrow> payload p = payload q \<Longrightarrow> check_data p = check_data q"
  by (simp_all add: check_header_def check_data_result)

lemma packet_read_progress:
  assumes uh: "wf_handle uh" and s: "in_stream d = wire_packet q @ rest"
    and chk: "check_header q = 0" "check_data q = Inr 0"
    and env: "length (wire_packet q) \<le> length (envs d)"
      "list_all progresses (take (length (wire_packet q)) (envs d))"
  shows "\<exists>q' d'. packet_read (usb_read uh) big p d = Inr (0, q', d') \<and> msg q' = msg q
    \<and> payload q' = payload q \<and> in_stream d' = rest"
proof -
  let ?n = "unat (data_length (msg q))"
  have len: "length (wire_packet q) = 24 + ?n" by (simp add: wire_packet_def payload_in_bounds)
  have "list_all progresses (take 24 (envs d))"
    by (rule list_all_take_le [OF env(2)]) (simp add: len)
  then obtain d1 k where r1: "usb_read uh d 24 = Inr (0, wire_message (msg q), d1)"
    and d1: "in_stream d1 = payload q @ rest" "envs d1 = drop k (envs d)" "k \<le> 24"
    using usb_read_progress [OF uh, of 24 d] s env(1) len
    by (auto simp: usb_read_def wire_packet_def)
  let ?p2 = "fix_endians big (p\<lparr>msg := message_of_mem big (wire_message (msg q))\<rparr>)"
  have m: "msg ?p2 = msg q" by (rule message_of_wire)
  then have hd: "check_header ?p2 = 0" using check_cong(1) [OF m] chk(1) by simp
  show ?thesis
  proof (cases "?n = 0")
    case True
    then have "data_length (msg q) = 0" "payload q = []" by (simp_all add: payload_def unat_eq_0)
    moreover from this have "payload ?p2 = payload q" by (simp add: payload_def m)
    then have "check_data ?p2 = Inr 0" using check_cong(2) [OF m] chk(2) by simp
    ultimately have "packet_read (usb_read uh) big p d = Inr (0, ?p2, d1)"
      using r1 hd m by (simp add: packet_read_def Let_def)
    then show ?thesis using m \<open>payload ?p2 = payload q\<close> \<open>payload q = []\<close> d1(1) by simp
  next
    case False
    have "list_all progresses (take (k + ?n) (envs d))"
      by (rule list_all_take_le [OF env(2)]) (use d1(3) len in simp)
    then have "list_all progresses (take ?n (envs d1))"
      unfolding d1(2) by (rule list_all_take_drop)
    moreover have "?n \<le> length (envs d) - k" using d1(3) env(1) len by simp
    ultimately obtain d2 where r2: "usb_read uh d1 (int ?n) = Inr (0, payload q, d2)" "in_stream d2 = rest"
      using usb_read_progress [OF uh, of "int ?n" d1] d1 env(1) len
      by (auto simp: usb_read_def payload_in_bounds)
    let ?p3 = "?p2\<lparr>data := store_bytes (payload q) (data ?p2)\<rparr>"
    have m3: "msg ?p3 = msg q" and p3: "payload ?p3 = payload q"
      using m payload_store_bytes [of "payload q" ?p2] by (simp_all add: payload_in_bounds)
    have "check_data ?p3 = Inr 0" using check_cong(2) [OF m3 p3] chk(2) by simp
    moreover have "data_length (msg q) \<noteq> 0" using False by auto
    ultimately have "packet_read (usb_read uh) big p d = Inr (0, ?p3, d2)"
      using r1 r2 hd m by (simp add: packet_read_def Let_def)
    then show ?thesis using m3 p3 r2(2) by blast
  qed
qed

section \<open>Properties\<close>

text \<open>C8: what reading a packet means. When \<open>remote_read\<close> returns 0, the bytes it consumed are
  exactly the wire form of the packet it leaves in memory, the packet passes the header check and
  the checksum, and nothing was sent; when it returns anything else, that is -1.\<close>

theorem remote_read_sound:
  assumes "usable w t h uh" "remote_read p t w = Inr (0, w')"
  shows "\<exists>q. heap w' p = Some q \<and> in_stream (devs w h) = wire_packet q @ in_stream (devs w' h)
    \<and> dev_out (devs w' h) = dev_out (devs w h)
    \<and> check_header q = 0 \<and> check_data q = Inr 0"
proof -
  from assms obtain pk q d' where "wf_handle uh"
    "packet_read (usb_read uh) (host_big w) pk (devs w h) = Inr (0, q, d')"
    "w' = w\<lparr>heap := (heap w)(p \<mapsto> q), devs := (devs w)(h := d')\<rparr>"
    by (auto simp: usable_def remote_read_def elim!: bindF_InrE)
  with link.packet_read_sound show ?thesis by fastforce
qed

text \<open>However sending ends, the packet has been freed and nothing else of the heap, the registry or the
  connection has changed; what the device has received is a prefix of the wire form: a failed write is
  not reported to the caller.\<close>

theorem send_packet_prefix:
  assumes "usable w t h uh" "heap w p = Some pk" "send_packet p (Some t) w = Inr w'"
  shows "\<exists>q k d'. finalize_packet pk = Inr q \<and> k \<le> length (wire_packet q)
    \<and> w' = w\<lparr>heap := (heap w)(p := None), devs := (devs w)(h := d')\<rparr>
    \<and> dev_out d' = dev_out (devs w h) @ take k (wire_packet q)"
proof -
  from send_packet_effect [OF assms] obtain q d' r q' where e: "finalize_packet pk = Inr q"
    "packet_write (usb_write uh) (host_big w) q (devs w h) = Inr (r, q', d')"
    "w' = w\<lparr>heap := (heap w)(p := None), devs := (devs w)(h := d')\<rparr>" by blast
  have "wf_handle uh" using assms(1) by (auto simp: usable_def)
  from link.packet_write_prefix [OF this e(2)] e show ?thesis by blast
qed

text \<open>A script of a call that takes all it is given, up to the largest transfer.\<close>

definition accepts :: "sync_env \<Rightarrow> bool" where
  "accepts e \<longleftrightarrow> alloc_ok e \<and> 0 \<le> submit_rc e \<and> no_poll_fails (polls e) \<and> completes (polls e)
     \<and> list_all (\<lambda>p. case poll_done p of None \<Rightarrow> True
          | Some (st, n) \<Rightarrow> st = TRANSFER_COMPLETED \<and> XFER_MAX \<le> n) (polls e)"

lemma sync_wait_accepts:
  "no_poll_fails ps \<Longrightarrow> completes ps \<Longrightarrow>
   list_all (\<lambda>p. case poll_done p of None \<Rightarrow> True
          | Some (st, n) \<Rightarrow> st = TRANSFER_COMPLETED \<and> XFER_MAX \<le> n) ps \<Longrightarrow>
   \<exists>n \<ge> XFER_MAX. sync_wait ps None = Inr (Done TRANSFER_COMPLETED n)"
proof (induction ps)
  case (Cons p ps)
  then show ?case
    by (cases "poll_done p") (auto simp: no_poll_fails_def completes_def)
qed (simp add: completes_def)

lemma usb_bulk_write_accepts:
  assumes "wf_handle uh" "envs d = e # es" "accepts e" "length xs \<le> XFER_MAX"
  shows "usb_bulk_write uh d xs = Inr (int (length xs), d\<lparr>out_xfers := out_xfers d @ [xs], envs := es\<rparr>)"
proof -
  obtain n where "XFER_MAX \<le> n" "sync_wait (polls e) None = Inr (Done TRANSFER_COMPLETED n)"
    using assms(3) sync_wait_accepts by (auto simp: accepts_def)
  then show ?thesis using assms
    by (simp add: usb_bulk_write_def libusb_bulk_transfer_def wf_handle_def do_sync_bulk_transfer_def accepts_def min_def)
qed

text \<open>A buffer of one transfer, and the empty transfer behind it that some devices need.\<close>

lemma usb_write_accepts:
  assumes "wf_handle uh" "xs \<noteq> []" "length xs \<le> XFER_MAX" "envs d = e1 # e2 # es" "accepts e1" "accepts e2"
  shows "\<exists>d'. usb_write uh d xs = Inr (0, d') \<and> (envs d' = e2 # es \<or> envs d' = es)"
proof -
  let ?d1 = "d\<lparr>out_xfers := out_xfers d @ [xs], envs := e2 # es\<rparr>"
  have one: "usb_write_loop (usb_bulk_write uh) d xs = Inr (0, ?d1)"
    using usb_bulk_write_accepts [OF assms(1,4,5,3)] assms(2,3) by (simp add: usb_write_loop_step)
  have zero: "usb_bulk_write uh ?d1 [] = Inr (0, ?d1\<lparr>out_xfers := out_xfers ?d1 @ [[]], envs := es\<rparr>)"
    using usb_bulk_write_accepts [OF assms(1) _ assms(6), of ?d1 es "[]"] by simp
  show ?thesis using one zero by (simp add: usb_write_def usb_write_with_def Let_def)
qed

text \<open>Four transfers are enough for a packet.\<close>

lemma packet_write_accepts:
  assumes uh: "wf_handle uh" and fits: "unat (data_length (msg q)) \<le> MAX_PAYLOAD"
    and env: "4 \<le> length (envs d)" "list_all accepts (take 4 (envs d))"
  shows "\<exists>q' d'. packet_write (usb_write uh) big q d = Inr (0, q', d')"
proof -
  from env obtain e1 e2 e3 e4 es where e: "envs d = e1 # e2 # e3 # e4 # es" "accepts e1" "accepts e2" "accepts e3" "accepts e4"
    by (auto simp: numeral_eq_Suc Suc_le_length_iff)
  have "wire_message (msg q) \<noteq> []" using length_wire_message [of "msg q"] by force
  then obtain d1 where d1: "usb_write uh d (wire_message (msg q)) = Inr (0, d1)" "envs d1 = e2 # e3 # e4 # es \<or> envs d1 = e3 # e4 # es"
    using usb_write_accepts [OF uh _ _ e(1-3), of "wire_message (msg q)"] by (auto simp: XFER_MAX_def)
  show ?thesis
  proof (cases "data_length (msg q) = 0")
    case True
    then show ?thesis using d1(1) by (simp add: packet_write_def Let_def message_mem_fix_endians)
  next
    case False
    then have pay: "payload q \<noteq> []" "length (payload q) \<le> XFER_MAX"
      using fits payload_in_bounds [of q]
      by (auto simp: XFER_MAX_def MAX_PAYLOAD_def unat_eq_0 simp flip: length_0_conv)
    obtain d2 where "usb_write uh d1 (payload q) = Inr (0, d2)"
      using d1(2) usb_write_accepts [OF uh pay _ e(3,4)] usb_write_accepts [OF uh pay _ e(4,5)] by blast
    then show ?thesis using d1(1) False fits
      by (simp add: packet_write_def Let_def message_mem_fix_endians payload_def)
  qed
qed

text \<open>C9: sending a packet delivers it. When \<open>send_packet\<close> is called on a usable transport with a packet whose
  payload fits, and the device takes what it is sent, then it returns; the device has received the
  whole packet, header and payload in wire form, with the magic number and the checksum filled in,
  behind what it had received before; the packet has been freed, and nothing else of the heap, the
  registry or the connection has changed.\<close>

theorem send_packet_delivers:
  assumes u: "usable w t h uh" and p: "heap w p = Some pk" and fits: "unat (data_length (msg pk)) \<le> MAX_PAYLOAD"
    and env: "4 \<le> length (envs (devs w h))" "list_all accepts (take 4 (envs (devs w h)))"
  shows "\<exists>d'. send_packet p (Some t) w = Inr (w\<lparr>heap := (heap w)(p := None), devs := (devs w)(h := d')\<rparr>)
    \<and> dev_out d' = dev_out (devs w h) @ wire_message ((msg pk)\<lparr>magic := command (msg pk) XOR 0xffffffff,
        data_check := of_nat (byte_sum (payload pk))\<rparr>) @ payload pk
    \<and> in_stream d' = in_stream (devs w h)"
proof -
  let ?m = "(msg pk)\<lparr>magic := command (msg pk) XOR 0xffffffff, data_check := of_nat (byte_sum (payload pk))\<rparr>"
  let ?q = "pk\<lparr>msg := ?m\<rparr>"
  have q: "finalize_packet pk = Inr ?q" by (rule finalize_packet_ok [OF fits])
  have wf: "wf_handle uh" using u by (auto simp: usable_def)
  obtain q' d' where run: "packet_write (usb_write uh) (host_big w) ?q (devs w h) = Inr (0, q', d')"
    using packet_write_accepts [OF wf _ env, of ?q "host_big w"] fits by auto
  obtain line where "print_packet ''send'' ?q = Inr line" using print_packet_ok by blast
  then have "send_packet p (Some t) w = Inr (w\<lparr>heap := (heap w)(p := None), devs := (devs w)(h := d')\<rparr>)"
    using u p q run by (auto simp: send_packet_def remote_write_def put_apacket_def usable_def Let_def)
  moreover have "wire_packet ?q = wire_message ?m @ payload pk" by (simp add: wire_packet_def payload_def)
  ultimately show ?thesis using link.packet_write_prefix [OF wf run] by auto
qed

text \<open>C1: a packet arrives. If a packet whose payload fits is finalised by the sender and its wire
  form is what comes next on the receiver's stream, and the device keeps delivering, then
  \<open>remote_read\<close> on either byte order returns 0 with a packet that has the sender's command,
  arguments and payload, and the stream stands at the first byte after the packet.\<close>

theorem packet_arrives:
  assumes u: "usable w t h uh" and p: "heap w p = Some p0"
    and q: "finalize_packet pk = Inr q" and s: "in_stream (devs w h) = wire_packet q @ rest"
    and env: "length (wire_packet q) \<le> length (envs (devs w h))"
      "list_all progresses (take (length (wire_packet q)) (envs (devs w h)))"
  shows "\<exists>w' q'. remote_read p t w = Inr (0, w') \<and> heap w' p = Some q'
    \<and> command (msg q') = command (msg pk) \<and> arg0 (msg q') = arg0 (msg pk)
    \<and> arg1 (msg q') = arg1 (msg pk) \<and> payload q' = payload pk
    \<and> in_stream (devs w' h) = rest"
proof -
  have fits: "unat (data_length (msg pk)) \<le> MAX_PAYLOAD" by (rule finalize_fits [OF q])
  then have qq: "q = pk\<lparr>msg := (msg pk)\<lparr>magic := command (msg pk) XOR 0xffffffff,
      data_check := of_nat (byte_sum (payload pk))\<rparr>\<rparr>"
    using finalize_packet_ok [OF fits] q by simp
  then have fields: "command (msg q) = command (msg pk)" "arg0 (msg q) = arg0 (msg pk)"
    "arg1 (msg q) = arg1 (msg pk)" "payload q = payload pk" "data_length (msg q) = data_length (msg pk)"
    by (simp_all add: payload_def)
  have "check_header q = 0" using qq fits by (simp add: check_header_0_iff)
  moreover have "check_data q = Inr 0"
    using qq fits byte_sum_fits [of "payload pk"] fields by (simp add: check_data_result payload_in_bounds)
  moreover have "wf_handle uh" using u by (auto simp: usable_def)
  ultimately obtain q' d' where r: "packet_read (usb_read uh) (host_big w) p0 (devs w h) = Inr (0, q', d')"
    "msg q' = msg q" "payload q' = payload q" "in_stream d' = rest"
    using packet_read_progress [OF _ s _ _ env, of uh "host_big w" p0] by blast
  then have "remote_read p t w = Inr (0, w\<lparr>heap := (heap w)(p \<mapsto> q'), devs := (devs w)(h := d')\<rparr>)"
    using u p by (auto simp: remote_read_def usable_def)
  then show ?thesis using r fields by simp
qed

text \<open>A transport is kicked once. On an intact registry, kicking the current transport succeeds,
  takes its handle off the list and frees it, and leaves no current transport; kicking the same
  transport again changes nothing.\<close>

theorem kick_transport_once:
  assumes reg: "registry w (xs @ h # zs)" and t: "transport w = Some t"
    and tr: "transports w t = Some tr" "t_usb tr = Some h" "kicked tr = 0"
  shows "\<exists>w'. kick_transport (Some t) w = Inr w' \<and> registry w' (xs @ zs) \<and> transport w' = None
    \<and> handles w' h = None \<and> kick_transport (Some t) w' = Inr w'"
proof -
  let ?w1 = "w\<lparr>transports := (transports w)(t \<mapsto> tr\<lparr>kicked := 1\<rparr>)\<rparr>"
  have ops: "t_ops tr = UsbOps" using reg t tr by (auto simp: registry_def)
  have reg1: "registry ?w1 (xs @ h # zs)" using reg t tr by (auto simp: registry_def)
  have "h \<in> dom (handles w)" using reg by (auto simp: registry_def)
  then obtain hc where hc: "handles ?w1 h = Some hc" by auto
  obtain w' where k: "usb_kick h ?w1 = Inr w'" "registry w' (xs @ zs)"
    using usb_kick_ok [OF reg1 hc] by blast
  have run: "kick_transport (Some t) w = Inr w'"
    using tr ops k(1) by (simp add: kick_transport_def remote_kick_def)
  have same: "transports w' = transports ?w1 \<and> transport w' = None"
    using k(1) tr t
    by (auto simp: usb_kick_def unregister_usb_transport_def release_handle_def elim!: bindF_InrE)
  then have "kick_transport (Some t) w' = Inr w'" by (simp add: kick_transport_def)
  moreover have "h \<notin> dom (handles w')"
    using k(2) registry_distinct [OF reg] by (auto simp: registry_def)
  then have "handles w' h = None" by auto
  ultimately show ?thesis using run k(2) same by blast
qed

text \<open>The flag does not protect a transport whose handle \<open>kick_disconnected\<close> has already freed:
  when its output thread then fails and kicks it, the freed handle is used.\<close>

lemma kick_after_free:
  assumes "transports w t = Some tr" "t_ops tr = UsbOps" "t_usb tr = Some h" "kicked tr = 0"
    and "handles w h = None"
  shows "kick_transport (Some t) w = Inl UseAfterFree"
  using assms by (simp add: kick_transport_def remote_kick_def usb_kick_def)

section \<open>Witnesses\<close>

definition linked_world :: "usb_dev \<Rightarrow> world" where
  "linked_world d = sample_world\<lparr>handles := [HANDLE_LIST \<mapsto> empty_handle, 5 \<mapsto> sample_handle],
     transports := [6 \<mapsto> \<lparr>t_next = None, t_prev = None, t_ops = UsbOps, connection_state = CS_OFFLINE,
        t_usb = Some 5, t_serial = None, kicked = 0\<rparr>], transport := Some 6, brk := 7,
     devs := (\<lambda>_. d)\<rparr>"

lemma usable_linked: "usable (linked_world d) 6 5 sample_handle"
  using wf_sample_handle by (simp add: usable_def linked_world_def)

definition greeting :: apacket where
  "greeting = \<lparr>nxt = None, plen = 0, pptr = None,
     msg = \<lparr>command = A_WRTE, arg0 = 5, arg1 = 7, data_length = 2, data_check = 0x13, magic = NOT A_WRTE\<rparr>,
     data = (\<lambda>i. if i = 0 then 0x09 else 0x0a)\<rparr>"

definition greeting_dev :: usb_dev where
  "greeting_dev = \<lparr>in_stream = wire_packet greeting @ [1, 2], out_xfers = [],
     envs = replicate 26 (good_env 8)\<rparr>"

lemma greeting_payload: "payload greeting = [9, 10]"
  by (simp add: payload_def greeting_def upt_conv_Cons)

lemma greeting_final: "finalize_packet greeting = Inr greeting"
proof -
  have "unat (data_length (msg greeting)) \<le> MAX_PAYLOAD" by (simp add: greeting_def MAX_PAYLOAD_def)
  from finalize_packet_ok [OF this] show ?thesis
    by (simp add: greeting_payload) (simp add: greeting_def)
qed

lemma good_env_progresses: "0 < n \<Longrightarrow> progresses (good_env n)"
  by (simp add: progresses_def good_env_def no_poll_fails_def completes_def)

lemma greeting_runs: "\<exists>w' q'. remote_read 0 6 (linked_world greeting_dev) = Inr (0, w')
    \<and> payload q' = [9, 10] \<and> heap w' 0 = Some q'"
proof -
  have len: "length (wire_packet greeting) = 26" by (simp add: wire_packet_def greeting_payload)
  have "list_all progresses (take 26 (replicate 26 (good_env 8)))"
    using good_env_progresses by (auto simp: list_all_iff)
  moreover have "check_header greeting = 0" by (simp add: check_header_0_iff greeting_def MAX_PAYLOAD_def)
  moreover have "check_data greeting = Inr 0"
    by (simp add: check_data_result greeting_payload) (simp add: greeting_def MAX_PAYLOAD_def)
  ultimately obtain q' d' where "packet_read (usb_read sample_handle) False sample_packet greeting_dev
      = Inr (0, q', d')" "payload q' = payload greeting"
    using packet_read_progress [OF wf_sample_handle, of greeting_dev greeting "[1, 2]" False sample_packet] len
    by (auto simp: greeting_dev_def)
  then show ?thesis
    by (simp add: remote_read_def linked_world_def sample_world_def greeting_payload)
qed

theorem remote_read_sound_witness:
  "\<exists>w' q. remote_read 0 6 (linked_world greeting_dev) = Inr (0, w') \<and> heap w' 0 = Some q
     \<and> wire_packet greeting @ [1, 2] = wire_packet q @ in_stream (devs w' 5)"
proof -
  obtain w' where run: "remote_read 0 6 (linked_world greeting_dev) = Inr (0, w')"
    using greeting_runs by blast
  from remote_read_sound [OF usable_linked run] run show ?thesis
    by (auto simp: linked_world_def greeting_dev_def)
qed

theorem packet_arrives_witness:
  "\<exists>w' q'. remote_read 0 6 (linked_world greeting_dev) = Inr (0, w') \<and> heap w' 0 = Some q'
    \<and> arg1 (msg q') = 7 \<and> payload q' = [9, 10] \<and> in_stream (devs w' 5) = [1, 2]"
proof -
  have len: "length (wire_packet greeting) = 26" by (simp add: wire_packet_def greeting_payload)
  have "list_all progresses (take 26 (replicate 26 (good_env 8)))"
    using good_env_progresses by (auto simp: list_all_iff)
  then have "\<exists>w' q'. remote_read 0 6 (linked_world greeting_dev) = Inr (0, w') \<and> heap w' 0 = Some q'
    \<and> command (msg q') = command (msg greeting) \<and> arg0 (msg q') = arg0 (msg greeting)
    \<and> arg1 (msg q') = arg1 (msg greeting) \<and> payload q' = payload greeting
    \<and> in_stream (devs w' 5) = [1, 2]"
    by (intro packet_arrives [OF usable_linked _ greeting_final])
      (simp_all add: len linked_world_def sample_world_def greeting_dev_def)
  then show ?thesis by (auto simp: greeting_payload) (auto simp: greeting_def)
qed

text \<open>One transfer carries a short buffer.\<close>

lemma usb_write_single:
  assumes "wf_handle uh" "zero_mask uh \<noteq> 1" "dat \<noteq> []" "length dat \<le> XFER_MAX"
    and "envs d = good_env n # es" "length dat \<le> n"
  shows "usb_write uh d dat = Inr (0, d\<lparr>out_xfers := out_xfers d @ [dat], envs := es\<rparr>)"
  using assms
  by (simp add: usb_write_def usb_write_with_def usb_write_loop_step usb_bulk_write_def
      libusb_bulk_transfer_def do_sync_bulk_transfer_def wf_handle_def good_env_def min_def Let_def)

lemma send_runs:
  assumes "usable w t h uh" "zero_mask uh \<noteq> 1" "heap w p = Some pk" "finalize_packet pk = Inr q"
    and "envs (devs w h) = good_env n # good_env m # es" "24 \<le> n" "unat (data_length (msg pk)) \<le> m"
  shows "\<exists>w'. send_packet p (Some t) w = Inr w'"
proof -
  have fits: "unat (data_length (msg pk)) \<le> MAX_PAYLOAD" by (rule finalize_fits [OF assms(4)])
  have dl: "data_length (msg q) = data_length (msg pk)"
    using finalize_packet_ok [OF fits] assms(4) by auto
  have wf: "wf_handle uh" using assms(1) by (auto simp: usable_def)
  have ne: "wire_message (msg q) \<noteq> []" using length_wire_message [of "msg q"] by force
  let ?d1 = "(devs w h)\<lparr>out_xfers := out_xfers (devs w h) @ [wire_message (msg q)],
    envs := good_env m # es\<rparr>"
  have w1: "usb_write uh (devs w h) (wire_message (msg q)) = Inr (0, ?d1)"
    by (rule usb_write_single [OF wf assms(2) ne _ assms(5)]) (simp_all add: XFER_MAX_def assms(6))
  have "\<exists>r q' d'. packet_write (usb_write uh) (host_big w) q (devs w h) = Inr (r, q', d')"
  proof (cases "data_length (msg q) = 0")
    case True
    then show ?thesis using w1 by (simp add: packet_write_def Let_def message_mem_fix_endians)
  next
    case False
    then have "usb_write uh ?d1 (payload q) = Inr (0, ?d1\<lparr>out_xfers := out_xfers ?d1 @ [payload q], envs := es\<rparr>)"
      using assms(7) fits dl payload_in_bounds [of q]
      by (intro usb_write_single [OF wf assms(2)])
        (auto simp: XFER_MAX_def MAX_PAYLOAD_def unat_eq_0 simp flip: length_0_conv)
    then show ?thesis using w1 False fits dl
      by (simp add: packet_write_def Let_def message_mem_fix_endians payload_def)
  qed
  then obtain r q' d' where "packet_write (usb_write uh) (host_big w) q (devs w h) = Inr (r, q', d')"
    by blast
  moreover obtain s where "print_packet ''send'' q = Inr s" using print_packet_ok by blast
  ultimately show ?thesis
    using assms(1,3,4)
    by (auto simp: send_packet_def remote_write_def put_apacket_def usable_def Let_def)
qed

definition taking_dev :: usb_dev where
  "taking_dev = sample_dev\<lparr>envs := replicate 4 (good_env XFER_MAX)\<rparr>"

theorem send_packet_delivers_witness:
  "\<exists>w'. send_packet 0 (Some 6) (linked_world taking_dev) = Inr w' \<and> heap w' 0 = None
     \<and> length (dev_out (devs w' 5)) = 27 \<and> drop 24 (dev_out (devs w' 5)) = payload sample_packet"
proof -
  let ?w = "linked_world taking_dev"
  have p: "heap ?w 0 = Some sample_packet" by (simp add: linked_world_def sample_world_def)
  have n: "unat (data_length (msg sample_packet)) = 3" by (simp add: sample_packet_def zero_message_def)
  have "accepts (good_env XFER_MAX)" by (simp add: accepts_def good_env_def no_poll_fails_def completes_def)
  then have "4 \<le> length (envs (devs ?w 5))" "list_all accepts (take 4 (envs (devs ?w 5)))"
    by (simp_all add: linked_world_def taking_dev_def list_all_iff)
  from send_packet_delivers [OF usable_linked p _ this] obtain d' where
    "send_packet 0 (Some 6) ?w = Inr (?w\<lparr>heap := (heap ?w)(0 := None), devs := (devs ?w)(5 := d')\<rparr>)"
    "\<exists>m. dev_out d' = dev_out (devs ?w 5) @ wire_message m @ payload sample_packet"
    using n by (auto simp: MAX_PAYLOAD_def)
  moreover have "dev_out (devs ?w 5) = []" by (simp add: linked_world_def taking_dev_def sample_dev_def dev_out_def)
  moreover have "length (payload sample_packet) = 3" using n payload_in_bounds [of sample_packet] by simp
  ultimately show ?thesis by auto
qed


definition registered_world :: world where
  "registered_world = linked_world sample_dev\<lparr>handles :=
     [HANDLE_LIST \<mapsto> empty_handle\<lparr>h_prev := Some 5, h_next := Some 5\<rparr>,
      5 \<mapsto> sample_handle\<lparr>h_prev := Some HANDLE_LIST, h_next := Some HANDLE_LIST\<rparr>]\<rparr>"

lemma registry_registered: "registry registered_world [5]"
  by (auto simp: registry_def registered_world_def linked_world_def sample_world_def dll_def nx_def
      pv_def lst_def HANDLE_LIST_def)

theorem kick_transport_once_witness:
  "\<exists>w'. kick_transport (Some 6) registered_world = Inr w' \<and> registry w' []
    \<and> kick_transport (Some 6) w' = Inr w'"
proof -
  have "registry registered_world ([] @ 5 # [])" using registry_registered by simp
  from kick_transport_once [OF this, of 6] show ?thesis
    by (fastforce simp: registered_world_def linked_world_def)
qed

end
