(* ===== verification/Session.thy ===== *)
theory Session
  imports Transport
begin

text \<open>
  The protocol session (\<open>send.c\<close>, and \<open>output_thread\<close> of \<open>transport_z.c\<close>): the messages the client
  sends, the handler of the packets it receives, and the thread that reads them. The identifiers of
  the one stream the client keeps are \<open>seed\<close>, \<open>conn_id\<close> and \<open>remote_id\<close> of the world.
\<close>

section \<open>Sending messages\<close>

text \<open>Allocate a packet, fill it in, and hand it to \<open>send_packet\<close>.\<close>

definition emit :: "(apacket \<Rightarrow> apacket) \<Rightarrow> ptr \<Rightarrow> world \<Rightarrow> fault + world" where
  "emit f tp w =
     bindF (get_apacket w) (\<lambda>(p, w1).
     bindF (deref (heap w1) (Some p)) (\<lambda>(_, pk).
       send_packet p tp (w1\<lparr>heap := (heap w1)(p \<mapsto> f pk)\<rparr>)))"

text \<open>\<open>snprintf\<close> of a text into the payload array.\<close>

definition text_payload :: "string \<Rightarrow> apacket \<Rightarrow> apacket" where
  "text_payload s pk = pk\<lparr>data := store_bytes (str_bytes (snprintf_s MAX_PAYLOAD s @ [nul])) (data pk)\<rparr>"

definition connect_packet :: "apacket \<Rightarrow> apacket" where
  "connect_packet pk = text_payload ''host::zadb'' (pk\<lparr>msg := (msg pk)\<lparr>command := A_CNXN,
     arg0 := A_VERSION, arg1 := of_nat MAX_PAYLOAD,
     data_length := of_nat (length (snprintf_s MAX_PAYLOAD ''host::zadb'') + 1)\<rparr>\<rparr>)"

text \<open>\<open>send_connect\<close> ends with a second of sleep, which is that of the thread that calls it (\<open>watch_step\<close> in
  \<open>Client\<close>).\<close>

definition send_connect :: "ptr \<Rightarrow> world \<Rightarrow> fault + world" where
  "send_connect tp w = emit connect_packet tp w"

definition open_packet :: "u32 \<Rightarrow> string \<Rightarrow> apacket \<Rightarrow> apacket" where
  "open_packet sd s pk = text_payload s (pk\<lparr>msg := (msg pk)\<lparr>command := A_OPEN, arg0 := sd, arg1 := 0,
     data_length := of_nat (length (snprintf_s MAX_PAYLOAD s))\<rparr>\<rparr>)"

text \<open>\<open>send_open\<close>, cut at the point where the reader thread may run: first the request is sent, then
  the identifiers are reset.\<close>

definition send_open_request :: "ptr \<Rightarrow> string \<Rightarrow> world \<Rightarrow> fault + world" where
  "send_open_request tp s w =
     (let w1 = w\<lparr>seed := seed w + 1\<rparr> in emit (open_packet (seed w1) s) tp w1)"

definition send_open_reset :: "world \<Rightarrow> world" where
  "send_open_reset w = w\<lparr>conn_id := -1, remote_id := -1\<rparr>"

definition send_open :: "ptr \<Rightarrow> string \<Rightarrow> world \<Rightarrow> fault + world" where
  "send_open tp s w = bindF (send_open_request tp s w) (\<lambda>w'. Inr (send_open_reset w'))"

definition reply_packet :: "u32 \<Rightarrow> u32 \<Rightarrow> u32 \<Rightarrow> apacket \<Rightarrow> apacket" where
  "reply_packet c a b pk = pk\<lparr>msg := (msg pk)\<lparr>command := c, arg0 := a, arg1 := b, data_length := 0\<rparr>\<rparr>"

definition send_ready :: "ptr \<Rightarrow> world \<Rightarrow> fault + world" where
  "send_ready tp w = emit (reply_packet A_OKAY (conn_id w) (remote_id w)) tp w"

definition send_close :: "ptr \<Rightarrow> world \<Rightarrow> fault + world" where
  "send_close tp w = emit (reply_packet A_CLSE (conn_id w) (remote_id w)) tp w"

definition write_packet :: "u32 \<Rightarrow> string \<Rightarrow> apacket \<Rightarrow> apacket" where
  "write_packet b s pk = text_payload s (pk\<lparr>msg := (msg pk)\<lparr>command := A_WRTE, arg0 := 0, arg1 := b,
     data_length := of_nat (length (snprintf_s MAX_PAYLOAD s))\<rparr>\<rparr>)"

definition send_write :: "ptr \<Rightarrow> string \<Rightarrow> world \<Rightarrow> fault + world" where
  "send_write tp s w =
     (if remote_id w = -1 then Inr w else emit (write_packet (remote_id w) s) tp w)"

section \<open>Handling a packet\<close>

text \<open>The result of the switch: the new state and whether the packet is still to be freed.\<close>

definition handle_okay :: "addr \<Rightarrow> apacket \<Rightarrow> world \<Rightarrow> fault + bool \<times> world" where
  "handle_okay p pk w =
     (if conn_id w = -1 \<and> arg1 (msg pk) = seed w
      then bindF (clear_received_packet (w\<lparr>conn_id := seed w, remote_id := arg0 (msg pk)\<rparr>)) (\<lambda>w1.
           bindF (store_received_packet p w1) (\<lambda>w2. Inr (False, w2)))
      else if conn_id w = arg0 (msg pk) \<and> remote_id w = arg1 (msg pk)
      then bindF (store_received_packet p w) (\<lambda>w1. Inr (False, w1))
      else Inr (True, w))"

definition handle_close :: "addr \<Rightarrow> apacket \<Rightarrow> world \<Rightarrow> fault + bool \<times> world" where
  "handle_close p pk w =
     (if (arg0 (msg pk) = remote_id w \<or> arg0 (msg pk) = 0) \<and> arg1 (msg pk) = conn_id w
      then bindF (store_received_packet p w) (\<lambda>w1. Inr (False, w1))
      else Inr (True, w))"

definition handle_write :: "addr \<Rightarrow> apacket \<Rightarrow> ptr \<Rightarrow> world \<Rightarrow> fault + bool \<times> world" where
  "handle_write p pk tp w =
     (if arg0 (msg pk) = remote_id w
      then bindF (if unat (data_length (msg pk)) > 0
                  then bindF (store_received_packet p w) (\<lambda>w1. Inr (False, w1))
                  else Inr (True, w)) (\<lambda>(keep, w1).
           bindF (send_ready tp w1) (\<lambda>w2. Inr (keep, w2)))
      else Inr (True, w))"

definition handle_packet :: "addr \<Rightarrow> ptr \<Rightarrow> world \<Rightarrow> fault + world" where
  "handle_packet p tp w =
     bindF (deref (heap w) (Some p)) (\<lambda>(_, pk).
     bindF (print_packet ''recv'' pk) (\<lambda>_.
       let c = command (msg pk)
       in if c = A_SYNC then Inr w
          else bindF (if c = A_CNXN then Inr (True, w)
                      else if c = A_OPEN then Inr (True, w)
                      else if c = A_OKAY then handle_okay p pk w
                      else if c = A_CLSE then handle_close p pk w
                      else if c = A_WRTE then handle_write p pk tp w
                      else Inr (True, w)) (\<lambda>(free, w1).
                 if free then put_apacket p w1 else Inr w1)))"

section \<open>The reader thread\<close>

text \<open>One round of \<open>output_thread\<close>; the result says whether the thread goes on.\<close>

definition output_round :: "addr \<Rightarrow> world \<Rightarrow> fault + bool \<times> world" where
  "output_round t w =
     bindF (get_apacket w) (\<lambda>(p, w1).
     bindF (deref (transports w1) (Some t)) (\<lambda>(_, tr).
       case t_ops tr of
         Unset \<Rightarrow> Inl NullDeref
       | UsbOps \<Rightarrow> bindF (remote_read p t w1) (\<lambda>(r, w2).
           if r = 0 then bindF (handle_packet p (Some t) w2) (\<lambda>w3. Inr (True, w3))
           else bindF (put_apacket p w2) (\<lambda>w3. Inr (False, w3)))))"

fun output_thread :: "nat \<Rightarrow> addr \<Rightarrow> world \<Rightarrow> fault + world" where
  "output_thread 0 t w = Inl Blocked"
| "output_thread (Suc fuel) t w =
     bindF (output_round t w) (\<lambda>(go, w1).
       if go then output_thread fuel t w1 else kick_transport (Some t) w1)"

section \<open>What a message is on the wire\<close>

text \<open>A freshly allocated packet.\<close>

definition blank :: "world \<Rightarrow> apacket" where
  "blank w = \<lparr>nxt = None, plen = 0, pptr = None, msg = zero_message, data = junk w\<rparr>"

lemma unat_of_nat_small: "n \<le> MAX_PAYLOAD \<Longrightarrow> unat (of_nat n :: u32) = n"
  by (simp add: MAX_PAYLOAD_def unsigned_of_nat take_bit_nat_eq_self)

lemma length_snprintf_le: "length (snprintf_s MAX_PAYLOAD s) \<le> 4095"
  by (simp add: snprintf_s_def MAX_PAYLOAD_def)

lemma payload_text:
  assumes "data_length (msg pk) = of_nat n" "n \<le> Suc (length (snprintf_s MAX_PAYLOAD s))"
  shows "payload (text_payload s pk) = take n (str_bytes (snprintf_s MAX_PAYLOAD s @ [nul]))"
proof -
  define bs where "bs = str_bytes (snprintf_s MAX_PAYLOAD s @ [nul])"
  have n: "n \<le> length bs" "n \<le> MAX_PAYLOAD"
    using assms(2) length_snprintf_le [of s] by (simp_all add: MAX_PAYLOAD_def bs_def)
  have "map (store_bytes bs (data pk)) [0..<n] = take n bs"
    by (rule nth_equalityI) (use n in \<open>simp_all add: store_bytes_def\<close>)
  then show ?thesis
    using assms(1) n(2) unfolding bs_def [symmetric]
    by (simp add: payload_def text_payload_def unat_of_nat_small bs_def)
qed

lemma heap_bounded_fresh: "heap_bounded w \<Longrightarrow> heap w (brk w) = None"
  by (auto simp: heap_bounded_def)

text \<open>Emitting a message changes nothing but the allocator's counter and the device.\<close>

lemma emit_effect:
  assumes u: "usable w t h uh" and b: "heap_bounded w" and run: "emit f (Some t) w = Inr w'"
  shows "\<exists>q k d'. finalize_packet (f (blank w)) = Inr q \<and> k \<le> length (wire_packet q)
    \<and> w' = w\<lparr>brk := Suc (brk w), devs := (devs w)(h := d')\<rparr>
    \<and> dev_out d' = dev_out (devs w h) @ take k (wire_packet q)"
proof -
  let ?w1 = "w\<lparr>brk := Suc (brk w), heap := (heap w)(brk w \<mapsto> f (blank w))\<rparr>"
  have u1: "usable ?w1 t h uh" using u by (auto simp: usable_def)
  have p1: "heap ?w1 (brk w) = Some (f (blank w))" by simp
  have run1: "send_packet (brk w) (Some t) ?w1 = Inr w'"
    using run by (auto simp: emit_def get_apacket_def blank_def split: if_splits)
  obtain q d' r q' where e: "finalize_packet (f (blank w)) = Inr q"
    "packet_write (usb_write uh) (host_big ?w1) q (devs ?w1 h) = Inr (r, q', d')"
    "w' = ?w1\<lparr>heap := (heap ?w1)(brk w := None), devs := (devs ?w1)(h := d')\<rparr>"
    using send_packet_effect [OF u1 p1 run1] by blast
  have "wf_handle uh" using u by (auto simp: usable_def)
  from link.packet_write_prefix [OF this e(2)] obtain k where "k \<le> length (wire_packet q)"
    "dev_out d' = dev_out (devs w h) @ take k (wire_packet q)" by auto
  moreover have "(heap ?w1)(brk w := None) = heap w"
    using heap_bounded_fresh [OF b] by (simp add: fun_upd_idem)
  then have "w' = w\<lparr>brk := Suc (brk w), devs := (devs w)(h := d')\<rparr>" using e(3) by simp
  ultimately show ?thesis using e(1) by blast
qed

lemma emit_runs:
  assumes "usable w t h uh" "zero_mask uh \<noteq> 1" "malloc_ok w"
    and fits: "unat (data_length (msg (f (blank w)))) \<le> MAX_PAYLOAD"
    and "envs (devs w h) = good_env n # good_env m # es" "24 \<le> n"
    and "unat (data_length (msg (f (blank w)))) \<le> m"
  shows "\<exists>w'. emit f (Some t) w = Inr w'"
proof -
  let ?w1 = "w\<lparr>brk := Suc (brk w), heap := (heap w)(brk w \<mapsto> f (blank w))\<rparr>"
  obtain q where "finalize_packet (f (blank w)) = Inr q"
    using finalize_packet_ok [OF fits] by auto
  moreover have "usable ?w1 t h uh" using assms(1) by (auto simp: usable_def)
  ultimately obtain w' where "send_packet (brk w) (Some t) ?w1 = Inr w'"
    using send_runs [of ?w1 t h uh "brk w" "f (blank w)" q n m es] assms by auto
  then show ?thesis using assms(3) by (simp add: emit_def get_apacket_def blank_def)
qed

section \<open>Who owns a packet\<close>

text \<open>The queue holds \<open>xs\<close> and the allocator's counter is above every packet.\<close>

definition session :: "world \<Rightarrow> addr list \<Rightarrow> bool" where
  "session w xs \<longleftrightarrow> received_rep w xs \<and> heap_bounded w"

text \<open>Which packets end up in the queue: the first reply to an open request, which starts a new
  queue, and the packets of the open stream.\<close>

definition opens :: "world \<Rightarrow> apacket \<Rightarrow> bool" where
  "opens w pk \<longleftrightarrow> command (msg pk) = A_OKAY \<and> conn_id w = -1 \<and> arg1 (msg pk) = seed w"

definition wanted :: "world \<Rightarrow> apacket \<Rightarrow> bool" where
  "wanted w pk \<longleftrightarrow>
     command (msg pk) = A_OKAY \<and> \<not> opens w pk \<and> conn_id w = arg0 (msg pk) \<and> remote_id w = arg1 (msg pk)
   \<or> command (msg pk) = A_CLSE \<and> (arg0 (msg pk) = remote_id w \<or> arg0 (msg pk) = 0) \<and> arg1 (msg pk) = conn_id w
   \<or> command (msg pk) = A_WRTE \<and> arg0 (msg pk) = remote_id w \<and> data_length (msg pk) \<noteq> 0"

lemma heap_bounded_dom: "heap_bounded w \<longleftrightarrow> (\<forall>a \<in> dom (heap w). a < brk w)"
  by (auto simp: heap_bounded_def)

lemma same_but_nexts_dom: "same_but_nexts w w' \<Longrightarrow> dom (heap w') = dom (heap w)"
  using same_but_nexts_allocated by (fastforce simp: allocated_def dom_def fun_eq_iff)

lemma same_but_nexts_session:
  assumes "same_but_nexts w w'" "heap_bounded w" "usable w t h uh"
  shows "heap_bounded w' \<and> usable w' t h uh \<and> remote_id w' = remote_id w \<and> conn_id w' = conn_id w"
proof -
  have "heap_bounded w'"
    using assms(1,2) same_but_nexts_dom [OF assms(1)] unfolding heap_bounded_dom
    by (simp add: same_but_nexts_def)
  then show ?thesis using assms(1,3) by (simp add: same_but_nexts_def usable_def)
qed

lemma store_session:
  assumes "session w xs" "usable w t h uh" "heap w p = Some pk" "p \<notin> set xs"
    and "store_received_packet p w = Inr w'"
  shows "session w' (xs @ [p]) \<and> usable w' t h uh \<and> dom (heap w') = dom (heap w)
    \<and> remote_id w' = remote_id w \<and> conn_id w' = conn_id w
    \<and> map_option msg (heap w' p) = Some (msg pk)"
proof -
  have "allocated w p" using assms(3) by (simp add: allocated_def)
  then have r: "received_rep w' (xs @ [p])" "same_but_nexts w w'"
    using store_received_ok [of w xs p] assms(1,4,5) by (auto simp: session_def)
  have hb: "heap_bounded w" using assms(1) by (simp add: session_def)
  have "map_option msg (heap w' p) = map_option msg (heap w p)"
    using r(2) by (simp add: same_but_nexts_def)
  then show ?thesis
    using same_but_nexts_session [OF r(2) hb assms(2)] same_but_nexts_dom [OF r(2)] r(1) assms(3)
    by (simp add: session_def)
qed

lemma send_ready_session:
  assumes "session w xs" "usable w t h uh" "send_ready (Some t) w = Inr w'"
  shows "session w' xs \<and> heap w' = heap w"
proof -
  obtain d' where "w' = w\<lparr>brk := Suc (brk w), devs := (devs w)(h := d')\<rparr>"
    using emit_effect [OF assms(2) _ assms(3) [unfolded send_ready_def]] assms(1)
    by (auto simp: session_def)
  then show ?thesis using assms(1) by (auto simp: session_def received_rep_def heap_bounded_def)
qed

text \<open>Freeing a packet that is not in the queue.\<close>

lemma put_session:
  assumes "session w xs" "p \<notin> set xs" "put_apacket p w = Inr w'"
  shows "session w' xs \<and> dom (heap w') = dom (heap w) - {p}"
proof -
  have w': "w' = w\<lparr>heap := (heap w)(p := None)\<rparr>" using assms(3) by (auto simp: put_apacket_def split: if_splits)
  have "chain (nexts (heap w)) (received w) xs" using assms(1) by (simp add: session_def received_rep_def fifo_rep_def)
  then have "chain ((nexts (heap w))(p := None)) (received w) xs"
    using chain_upd_other [OF assms(2), of "nexts (heap w)" None] by simp
  then show ?thesis using assms(1) w'
    by (auto simp: session_def received_rep_def fifo_rep_def heap_bounded_def)
qed

lemma handle_okay_cases:
  assumes s: "session w xs" and u: "usable w t h uh" and p: "heap w p = Some pk" "p \<notin> set xs"
    and run: "handle_okay p pk w = Inr (free, w')" and c: "command (msg pk) = A_OKAY"
  shows "(opens w pk \<and> \<not> free \<and> session w' [p] \<and> dom (heap w') = dom (heap w) - set xs)
    \<or> (wanted w pk \<and> \<not> opens w pk \<and> \<not> free \<and> session w' (xs @ [p]) \<and> dom (heap w') = dom (heap w))
    \<or> (\<not> wanted w pk \<and> \<not> opens w pk \<and> free \<and> w' = w)"
proof (cases "opens w pk")
  case True
  let ?w0 = "w\<lparr>conn_id := seed w, remote_id := arg0 (msg pk)\<rparr>"
  let ?w1 = "?w0\<lparr>heap := heap w |` (- set xs), received := None, last_r := None\<rparr>"
  have "received_rep ?w0 xs" "heap_bounded ?w0" using s by (simp_all add: session_def received_rep_def heap_bounded_def)
  then have cl: "clear_received_packet ?w0 = Inr ?w1" using clear_received_ok by fastforce
  have s1: "session ?w1 []" using s
    by (auto simp: session_def received_rep_cleared heap_bounded_def restrict_map_def split: if_splits)
  have u1: "usable ?w1 t h uh" using u by (auto simp: usable_def)
  have p1: "heap ?w1 p = Some pk" using p by simp
  from run cl True have "store_received_packet p ?w1 = Inr w'" "\<not> free"
    by (auto simp: handle_okay_def opens_def)
  from store_session [OF s1 u1 p1 _ this(1)] this(2) True show ?thesis by auto
next
  case False
  show ?thesis
  proof (cases "conn_id w = arg0 (msg pk) \<and> remote_id w = arg1 (msg pk)")
    case True
    with run False c have "store_received_packet p w = Inr w'" "\<not> free"
      by (auto simp: handle_okay_def opens_def)
    from store_session [OF s u p this(1)] this(2) True False c show ?thesis by (auto simp: wanted_def)
  next
    case nw: False
    with run False c have "w' = w" "free" by (auto simp: handle_okay_def opens_def)
    then show ?thesis using nw False c by (auto simp: wanted_def command_defs)
  qed
qed

lemma handle_packet_step:
  assumes p: "heap w p = Some pk" and c: "command (msg pk) \<noteq> A_SYNC"
    and run: "handle_packet p tp w = Inr w'"
  obtains free w1 where
    "(if command (msg pk) = A_OKAY then handle_okay p pk w
      else if command (msg pk) = A_CLSE then handle_close p pk w
      else if command (msg pk) = A_WRTE then handle_write p pk tp w
      else Inr (True, w)) = Inr (free, w1)"
    "(if free then put_apacket p w1 else Inr w1) = Inr w'"
proof -
  obtain s where pr: "print_packet ''recv'' pk = Inr s" using print_packet_ok by blast
  show thesis
  proof (cases "command (msg pk) = A_CNXN \<or> command (msg pk) = A_OPEN")
    case True
    then have "put_apacket p w = Inr w'" using p pr c run
      by (auto simp: handle_packet_def Let_def split: if_splits elim!: bindF_InrE)
    moreover have "command (msg pk) \<noteq> A_OKAY \<and> command (msg pk) \<noteq> A_CLSE \<and> command (msg pk) \<noteq> A_WRTE"
      using True by (auto simp: command_defs)
    ultimately show thesis by (intro that [of True w]) auto
  next
    case False
    then show thesis using p pr c run that
      by (auto simp: handle_packet_def Let_def elim!: bindF_InrE)
  qed
qed

lemma handle_close_cases:
  assumes s: "session w xs" and u: "usable w t h uh" and p: "heap w p = Some pk" "p \<notin> set xs"
    and run: "handle_close p pk w = Inr (free, w')" and c: "command (msg pk) = A_CLSE"
  shows "(wanted w pk \<and> \<not> free \<and> session w' (xs @ [p]) \<and> dom (heap w') = dom (heap w))
    \<or> (\<not> wanted w pk \<and> free \<and> w' = w)"
proof (cases "(arg0 (msg pk) = remote_id w \<or> arg0 (msg pk) = 0) \<and> arg1 (msg pk) = conn_id w")
  case True
  then have wt: "wanted w pk" unfolding wanted_def using c by blast
  have "bindF (store_received_packet p w) (\<lambda>w1. Inr (False, w1)) = Inr (free, w')"
    using run unfolding handle_close_def if_P [OF True] .
  then have "store_received_packet p w = Inr w'" "\<not> free" by (auto elim!: bindF_InrE)
  from store_session [OF s u p this(1)] this(2) wt show ?thesis by auto
next
  case False
  have "A_CLSE \<noteq> A_OKAY" "A_CLSE \<noteq> A_WRTE" by (simp_all add: command_defs)
  then have "\<not> wanted w pk" unfolding wanted_def c using False by simp
  moreover have "Inr (True, w) = (Inr (free, w') :: fault + bool \<times> world)"
    using run unfolding handle_close_def if_not_P [OF False] .
  ultimately show ?thesis by simp
qed

lemma handle_write_cases:
  assumes s: "session w xs" and u: "usable w t h uh" and p: "heap w p = Some pk" "p \<notin> set xs"
    and run: "handle_write p pk (Some t) w = Inr (free, w')" and c: "command (msg pk) = A_WRTE"
  shows "(wanted w pk \<and> \<not> free \<and> session w' (xs @ [p]) \<and> dom (heap w') = dom (heap w))
    \<or> (\<not> wanted w pk \<and> free \<and> session w' xs \<and> dom (heap w') = dom (heap w))"
proof -
  consider "wanted w pk" | "\<not> wanted w pk" "arg0 (msg pk) = remote_id w" | "arg0 (msg pk) \<noteq> remote_id w"
    by blast
  then show ?thesis
  proof cases
    case 1
    then have a: "arg0 (msg pk) = remote_id w" "0 < unat (data_length (msg pk))"
      using c by (auto simp: wanted_def command_defs unat_gt_0)
    with run obtain w1 where w1: "store_received_packet p w = Inr w1" "send_ready (Some t) w1 = Inr w'"
      and f: "\<not> free" by (auto simp: handle_write_def elim!: bindF_InrE)
    note st = store_session [OF s u p w1(1)]
    then have "session w1 (xs @ [p])" "usable w1 t h uh" by blast+
    from send_ready_session [OF this w1(2)] st 1 f show ?thesis by auto
  next
    case 2
    then have "\<not> 0 < unat (data_length (msg pk))" using c by (auto simp: wanted_def)
    with run 2 have "send_ready (Some t) w = Inr w'" "free" by (auto simp: handle_write_def)
    from send_ready_session [OF s u this(1)] this(2) 2 show ?thesis by auto
  next
    case 3
    moreover from this have "\<not> wanted w pk" using c by (auto simp: wanted_def command_defs)
    ultimately show ?thesis using run s by (auto simp: handle_write_def)
  qed
qed

lemma handle_packet_owner:
  assumes s: "session w xs" and u: "usable w t h uh" and p: "heap w p = Some pk" "p \<notin> set xs"
    and run: "handle_packet p (Some t) w = Inr w'"
  shows "if command (msg pk) = A_SYNC then session w' xs \<and> dom (heap w') = dom (heap w)
    else if opens w pk then session w' [p] \<and> dom (heap w') = dom (heap w) - set xs
    else if wanted w pk then session w' (xs @ [p]) \<and> dom (heap w') = dom (heap w)
    else session w' xs \<and> dom (heap w') = dom (heap w) - {p}"
proof (cases "command (msg pk) = A_SYNC")
  case True
  then have "w' = w" using p run by (auto simp: handle_packet_def Let_def elim!: bindF_InrE)
  then show ?thesis using True s by simp
next
  case False
  obtain free w1 where step: "(if command (msg pk) = A_OKAY then handle_okay p pk w
      else if command (msg pk) = A_CLSE then handle_close p pk w
      else if command (msg pk) = A_WRTE then handle_write p pk (Some t) w
      else Inr (True, w)) = Inr (free, w1)"
    and fin: "(if free then put_apacket p w1 else Inr w1) = Inr w'"
    using handle_packet_step [OF p(1) False run] by blast
  have o: "opens w pk \<Longrightarrow> command (msg pk) = A_OKAY" by (simp add: opens_def)
  have "(opens w pk \<and> \<not> free \<and> session w1 [p] \<and> dom (heap w1) = dom (heap w) - set xs)
    \<or> (wanted w pk \<and> \<not> opens w pk \<and> \<not> free \<and> session w1 (xs @ [p]) \<and> dom (heap w1) = dom (heap w))
    \<or> (\<not> wanted w pk \<and> \<not> opens w pk \<and> free \<and> session w1 xs \<and> dom (heap w1) = dom (heap w))"
  proof -
    consider "command (msg pk) = A_OKAY" | "command (msg pk) = A_CLSE" | "command (msg pk) = A_WRTE"
      | "command (msg pk) \<notin> {A_OKAY, A_CLSE, A_WRTE}" by blast
    then show ?thesis
    proof cases
      case 1
      then have "handle_okay p pk w = Inr (free, w1)" using step by simp
      from handle_okay_cases [OF s u p this 1] s show ?thesis by auto
    next
      case 2
      then have "handle_close p pk w = Inr (free, w1)" "\<not> opens w pk" using step
        by (auto simp: opens_def command_defs)
      from handle_close_cases [OF s u p this(1) 2] this(2) s show ?thesis by auto
    next
      case 3
      then have "handle_write p pk (Some t) w = Inr (free, w1)" "\<not> opens w pk" using step
        by (auto simp: opens_def command_defs)
      from handle_write_cases [OF s u p this(1) 3] this(2) show ?thesis by auto
    next
      case 4
      then have "\<not> opens w pk" "\<not> wanted w pk" by (auto simp: opens_def wanted_def)
      then show ?thesis using step 4 s by auto
    qed
  qed
  then show ?thesis
    using put_session [of w1 xs p w'] fin p(2) False by (auto split: if_splits)
qed

section \<open>The reader thread and the queue\<close>

text \<open>Changing a packet that is not in the queue, apart from the queue's own pointers.\<close>

lemma session_upd_other:
  "session w xs \<Longrightarrow> p \<notin> set xs \<Longrightarrow> p < brk w \<Longrightarrow>
     session (w\<lparr>heap := (heap w)(p \<mapsto> pk), devs := dv\<rparr>) xs"
  by (auto simp: session_def received_rep_def fifo_rep_def heap_bounded_def)

lemma output_round_owner:
  assumes s: "session w xs" "dom (heap w) = set xs" and u: "usable w t h uh"
    and run: "output_round t w = Inr (go, w')"
  shows "\<exists>ys. session w' ys \<and> (dom (heap w') = set ys
    \<or> (\<exists>p pk. dom (heap w') = insert p (set ys) \<and> p \<notin> set ys \<and> heap w' p = Some pk
         \<and> command (msg pk) = A_SYNC))"
proof -
  let ?p = "brk w"
  have fresh: "?p \<notin> set xs" using s heap_bounded_fresh [of w] by (auto simp: session_def)
  let ?w1 = "w\<lparr>heap := (heap w)(?p \<mapsto> blank w), brk := Suc ?p\<rparr>"
  from run u obtain r w2 where rr: "remote_read ?p t ?w1 = Inr (r, w2)"
    and rest: "(if r = 0 then bindF (handle_packet ?p (Some t) w2) (\<lambda>w3. Inr (True, w3))
      else bindF (put_apacket ?p w2) (\<lambda>w3. Inr (False, w3))) = Inr (go, w')"
    by (auto simp: output_round_def get_apacket_def usable_def blank_def split: if_splits
        elim!: bindF_InrE)
  from rr obtain pk d' h' where w2: "w2 = ?w1\<lparr>heap := (heap ?w1)(?p \<mapsto> pk), devs := (devs ?w1)(h' := d')\<rparr>"
    by (auto simp: remote_read_def elim!: bindF_InrE)
  have "session ?w1 xs" using s(1) fresh
    by (auto simp: session_def received_rep_def fifo_rep_def heap_bounded_def less_SucI)
  then have s2: "session w2 xs" unfolding w2 using fresh by (intro session_upd_other) auto
  have d2: "dom (heap w2) = insert ?p (set xs)" using s(2) w2 by auto
  have u2: "usable w2 t h uh" using u w2 by (auto simp: usable_def)
  have p2: "heap w2 ?p = Some pk" using w2 by simp
  show ?thesis
  proof (cases "r = 0")
    case True
    then have hp: "handle_packet ?p (Some t) w2 = Inr w'" using rest by auto
    note own = handle_packet_owner [OF s2 u2 p2 fresh hp]
    show ?thesis
    proof (cases "command (msg pk) = A_SYNC")
      case True
      then have "w' = w2" using hp p2 by (auto simp: handle_packet_def Let_def elim!: bindF_InrE)
      then show ?thesis using s2 d2 fresh p2 True by auto
    next
      case False
      have "dom (heap w2) - set xs = {?p}" "dom (heap w2) - {?p} = set xs" using d2 fresh by auto
      then have "\<exists>ys. session w' ys \<and> dom (heap w') = set ys"
        using own False d2 by (auto split: if_splits)
      then show ?thesis by blast
    qed
  next
    case False
    then have "put_apacket ?p w2 = Inr w'" using rest by auto
    from put_session [OF s2 fresh this] have "session w' xs" "dom (heap w') = set xs"
      using d2 fresh by auto
    then show ?thesis by blast
  qed
qed

section \<open>Properties\<close>

text \<open>C10: every received packet is queued or freed, except synchronisation packets. When
  \<open>handle_packet\<close> returns, the reply that opens the stream has replaced the whole queue, whose
  packets are freed; a packet of the open stream is at the end of the queue; any other packet has
  been freed, exactly once, and the queue is as before. Only an \<open>A_SYNC\<close> packet is neither queued
  nor freed.\<close>

theorem handle_packet_ownership:
  assumes "session w xs" "usable w t h uh" "heap w p = Some pk" "p \<notin> set xs"
    and "handle_packet p (Some t) w = Inr w'"
  shows "if command (msg pk) = A_SYNC then session w' xs \<and> dom (heap w') = dom (heap w)
    else if opens w pk then session w' [p] \<and> dom (heap w') = dom (heap w) - set xs
    else if wanted w pk then session w' (xs @ [p]) \<and> dom (heap w') = dom (heap w)
    else session w' xs \<and> dom (heap w') = dom (heap w) - {p}"
  by (rule handle_packet_owner [OF assms])

text \<open>C11: one round of the reader thread keeps the heap and the queue together. If the allocated
  packets are exactly the queued ones before the round, they are so after it, whether the read
  failed or succeeded; the one exception is a leaked \<open>A_SYNC\<close> packet.\<close>

theorem output_round_no_leak:
  assumes "session w xs" "dom (heap w) = set xs" "usable w t h uh"
    and "output_round t w = Inr (go, w')"
  shows "\<exists>ys. session w' ys \<and> (dom (heap w') = set ys
    \<or> (\<exists>p pk. dom (heap w') = insert p (set ys) \<and> p \<notin> set ys \<and> heap w' p = Some pk
         \<and> command (msg pk) = A_SYNC))"
  by (rule output_round_owner [OF assms])

text \<open>The reply to an open request is lost when it is read too early. Let a stream be open when
  the next one is requested. The same reply opens the new stream if the reader thread handles it
  after \<open>send_open\<close> has reset the identifiers, but is freed and forgotten if it is handled between
  the sending and the reset; the client then waits without an open stream.\<close>

theorem open_reply_race:
  assumes "heap w p = Some pk" "command (msg pk) = A_OKAY" "arg1 (msg pk) = seed w"
    and "conn_id w \<noteq> -1" "arg0 (msg pk) \<noteq> conn_id w"
  shows "opens (send_open_reset w) pk
    \<and> (\<exists>w1. handle_packet p tp w = Inr w1 \<and> heap w1 = (heap w)(p := None)
         \<and> received w1 = received w \<and> conn_id (send_open_reset w1) = -1
         \<and> remote_id (send_open_reset w1) = -1)"
proof -
  obtain s where "print_packet ''recv'' pk = Inr s" using print_packet_ok by blast
  moreover have "A_OKAY \<noteq> A_SYNC" "A_OKAY \<noteq> A_CNXN" "A_OKAY \<noteq> A_OPEN" by (simp_all add: command_defs)
  ultimately have "handle_packet p tp w = put_apacket p w"
    using assms by (simp add: handle_packet_def Let_def handle_okay_def)
  then show ?thesis using assms by (simp add: opens_def send_open_reset_def put_apacket_def)
qed

text \<open>The confirmations of an open stream are dropped. While a stream is open, the peer confirms
  a write by \<open>READY(local-id, remote-id)\<close>, that is, with its own identifier first and the client's
  second. \<open>handle_packet\<close> compares them the other way round, so that the confirmation is freed
  unless the two identifiers happen to be equal.\<close>

theorem ready_confirmation_dropped:
  assumes "heap w p = Some pk" "command (msg pk) = A_OKAY" "conn_id w \<noteq> -1"
    and "arg0 (msg pk) = remote_id w" "arg1 (msg pk) = conn_id w" "remote_id w \<noteq> conn_id w"
  shows "handle_packet p tp w = Inr (w\<lparr>heap := (heap w)(p := None)\<rparr>)"
proof -
  obtain s where "print_packet ''recv'' pk = Inr s" using print_packet_ok by blast
  moreover have "A_OKAY \<noteq> A_SYNC" "A_OKAY \<noteq> A_CNXN" "A_OKAY \<noteq> A_OPEN" by (simp_all add: command_defs)
  ultimately show ?thesis
    using assms by (simp add: handle_packet_def Let_def handle_okay_def put_apacket_def)
qed

text \<open>What \<open>send_write\<close> puts on the wire. When it returns on an open stream, the device has
  received a write message for the peer's identifier that carries at most the first 4095 characters
  of the text, without its terminator, or a prefix of this message; no packet stays allocated. \<close>

theorem send_write_message:
  assumes "usable w t h uh" "heap_bounded w" "remote_id w \<noteq> -1" "send_write (Some t) s w = Inr w'"
  shows "\<exists>q k. command (msg q) = A_WRTE \<and> arg0 (msg q) = 0 \<and> arg1 (msg q) = remote_id w
    \<and> payload q = str_bytes (take 4095 s) \<and> check_header q = 0
    \<and> k \<le> length (wire_packet q) \<and> dev_out (devs w' h) = dev_out (devs w h) @ take k (wire_packet q)
    \<and> heap w' = heap w"
proof -
  have run: "emit (write_packet (remote_id w) s) (Some t) w = Inr w'"
    using assms(3,4) by (simp add: send_write_def)
  let ?pk = "write_packet (remote_id w) s (blank w)" and ?n = "length (snprintf_s MAX_PAYLOAD s)"
  from emit_effect [OF assms(1,2) run] obtain q k d' where e: "finalize_packet ?pk = Inr q"
    "k \<le> length (wire_packet q)" "w' = w\<lparr>brk := Suc (brk w), devs := (devs w)(h := d')\<rparr>"
    "dev_out d' = dev_out (devs w h) @ take k (wire_packet q)" by blast
  have fits: "unat (data_length (msg ?pk)) \<le> MAX_PAYLOAD" by (rule finalize_fits [OF e(1)])
  have q: "q = ?pk\<lparr>msg := (msg ?pk)\<lparr>magic := command (msg ?pk) XOR 0xffffffff,
      data_check := of_nat (byte_sum (payload ?pk))\<rparr>\<rparr>"
    using finalize_packet_ok [OF fits] e(1) by simp
  let ?base = "(blank w)\<lparr>msg := (msg (blank w))\<lparr>command := A_WRTE, arg0 := 0, arg1 := remote_id w,
     data_length := of_nat ?n\<rparr>\<rparr>"
  have "payload ?pk = take ?n (str_bytes (snprintf_s MAX_PAYLOAD s @ [nul]))"
    unfolding write_packet_def by (rule payload_text) simp_all
  then have "payload q = str_bytes (take 4095 s)"
    using q by (simp add: payload_def snprintf_s_def MAX_PAYLOAD_def)
  moreover have "command (msg ?pk) = A_WRTE" "arg0 (msg ?pk) = 0" "arg1 (msg ?pk) = remote_id w"
    by (simp_all add: write_packet_def text_payload_def)
  ultimately show ?thesis using e q fits by (intro exI [of _ q] exI [of _ k]) (simp add: check_header_0_iff)
qed

section \<open>Witnesses\<close>

definition sample_msg :: "u32 \<Rightarrow> u32 \<Rightarrow> u32 \<Rightarrow> apacket" where
  "sample_msg c a b = sample_packet\<lparr>msg := zero_message\<lparr>command := c, arg0 := a, arg1 := b\<rparr>\<rparr>"

definition session_world :: "apacket \<Rightarrow> world" where
  "session_world pk = (linked_world sample_dev)\<lparr>heap := [0 \<mapsto> pk], conn_id := 3, remote_id := 9, seed := 4\<rparr>"

lemma session_session_world: "session (session_world pk) []"
  by (simp add: session_def received_rep_cleared session_world_def linked_world_def sample_world_def
      heap_bounded_def)

lemma usable_session_world: "usable (session_world pk) 6 5 sample_handle"
  using usable_linked [of sample_dev] by (simp add: usable_def session_world_def)

theorem handle_packet_ownership_witness:
  "\<exists>w'. handle_packet 0 (Some 6) (session_world (sample_msg A_CLSE 9 3)) = Inr w' \<and> session w' [0]"
proof -
  let ?pk = "sample_msg A_CLSE 9 3"
  have p: "heap (session_world ?pk) 0 = Some ?pk" by (simp add: session_world_def)
  have m: "command (msg ?pk) = A_CLSE" "arg0 (msg ?pk) = 9" "arg1 (msg ?pk) = 3"
    by (simp_all add: sample_msg_def)
  obtain w' where "store_received_packet 0 (session_world ?pk) = Inr w'"
    using store_received_ok [of "session_world ?pk" "[]" 0] session_session_world p
    by (auto simp: session_def allocated_def)
  moreover have "A_CLSE \<notin> {A_SYNC, A_CNXN, A_OPEN, A_OKAY}" by (simp add: command_defs)
  ultimately have run: "handle_packet 0 (Some 6) (session_world ?pk) = Inr w'"
    using p m print_packet_ok [of "''recv''" ?pk]
    by (auto simp: handle_packet_def handle_close_def Let_def session_world_def)
  have "\<not> opens (session_world ?pk) ?pk" "wanted (session_world ?pk) ?pk"
    by (simp_all add: opens_def wanted_def m session_world_def sample_msg_def command_defs)
  with handle_packet_ownership [OF session_session_world usable_session_world p _ run] m(1) run
  show ?thesis by (auto simp: command_defs split: if_splits)
qed

lemma handle_packet_drop:
  assumes "heap w p = Some pk" "command (msg pk) = A_WRTE" "arg0 (msg pk) \<noteq> remote_id w"
  shows "handle_packet p tp w = Inr (w\<lparr>heap := (heap w)(p := None)\<rparr>)"
proof -
  have "A_WRTE \<notin> {A_SYNC, A_CNXN, A_OPEN, A_OKAY, A_CLSE}" by (simp add: command_defs)
  then show ?thesis using assms print_packet_ok [of "''recv''" pk]
    by (auto simp: handle_packet_def handle_write_def Let_def put_apacket_def)
qed

theorem output_round_no_leak_witness:
  "\<exists>w'. output_round 6 ((linked_world greeting_dev)\<lparr>heap := Map.empty\<rparr>) = Inr (True, w')
     \<and> (\<exists>ys. session w' ys)"
proof -
  let ?w = "(linked_world greeting_dev)\<lparr>heap := Map.empty\<rparr>"
  let ?w1 = "?w\<lparr>heap := [7 \<mapsto> blank ?w], brk := 8\<rparr>"
  have len: "length (wire_packet greeting) = 26" by (simp add: wire_packet_def greeting_payload)
  have "list_all progresses (take 26 (replicate 26 (good_env 8)))"
    using good_env_progresses by (auto simp: list_all_iff)
  moreover have "check_header greeting = 0" by (simp add: check_header_0_iff greeting_def MAX_PAYLOAD_def)
  moreover have "check_data greeting = Inr 0"
    by (simp add: check_data_result greeting_payload) (simp add: greeting_def MAX_PAYLOAD_def)
  ultimately obtain q' d' where q: "packet_read (usb_read sample_handle) False (blank ?w) greeting_dev
      = Inr (0, q', d')" "msg q' = msg greeting"
    using packet_read_progress [OF wf_sample_handle, of greeting_dev greeting "[1, 2]" False "blank ?w"] len
    by (auto simp: greeting_dev_def)
  let ?w2 = "?w1\<lparr>heap := (heap ?w1)(7 \<mapsto> q'), devs := (devs ?w1)(5 := d')\<rparr>"
  have read: "remote_read 7 6 ?w1 = Inr (0, ?w2)"
    using q by (simp add: remote_read_def linked_world_def sample_world_def)
  have "handle_packet 7 (Some 6) ?w2 = Inr (?w2\<lparr>heap := (heap ?w2)(7 := None)\<rparr>)"
    by (rule handle_packet_drop [of _ _ q'])
      (simp_all add: q(2) greeting_def linked_world_def sample_world_def)
  moreover have "get_apacket ?w = Inr (7, ?w1)"
    by (simp add: get_apacket_def blank_def linked_world_def sample_world_def)
  moreover have "\<exists>tr. transports ?w1 6 = Some tr \<and> t_ops tr = UsbOps" by (simp add: linked_world_def)
  ultimately have run: "\<exists>w'. output_round 6 ?w = Inr (True, w')"
    using read by (auto simp: output_round_def)
  then obtain w' where run: "output_round 6 ?w = Inr (True, w')" by blast
  have "session ?w []" "dom (heap ?w) = set []"
    by (simp_all add: session_def received_rep_cleared linked_world_def sample_world_def heap_bounded_def)
  moreover have "usable ?w 6 5 sample_handle" using usable_linked by (auto simp: usable_def)
  ultimately show ?thesis using output_round_no_leak [OF _ _ _ run] run by blast
qed

theorem open_reply_race_witness:
  "opens (send_open_reset (session_world (sample_msg A_OKAY 11 4))) (sample_msg A_OKAY 11 4)
   \<and> (\<exists>w1. handle_packet 0 (Some 6) (session_world (sample_msg A_OKAY 11 4)) = Inr w1
        \<and> heap w1 0 = None \<and> remote_id (send_open_reset w1) = -1)"
proof -
  have "heap (session_world (sample_msg A_OKAY 11 4)) 0 = Some (sample_msg A_OKAY 11 4)"
    by (simp add: session_world_def)
  from open_reply_race [OF this, of "Some 6"] show ?thesis
    by (fastforce simp: sample_msg_def session_world_def)
qed

theorem ready_confirmation_dropped_witness:
  "\<exists>w'. handle_packet 0 (Some 6) (session_world (sample_msg A_OKAY 9 3)) = Inr w' \<and> received w' = None"
proof -
  have "heap (session_world (sample_msg A_OKAY 9 3)) 0 = Some (sample_msg A_OKAY 9 3)"
    by (simp add: session_world_def)
  from ready_confirmation_dropped [OF this, of "Some 6"] show ?thesis
    by (simp add: sample_msg_def session_world_def linked_world_def sample_world_def)
qed

theorem send_write_message_witness:
  "\<exists>w' q k. send_write (Some 6) ''ls'' ((session_world greeting)\<lparr>devs :=
        (\<lambda>_. sample_dev\<lparr>envs := [good_env 24, good_env 2]\<rparr>)\<rparr>) = Inr w'
     \<and> payload q = str_bytes ''ls'' \<and> dev_out (devs w' 5) = take k (wire_packet q)"
proof -
  let ?w = "(session_world greeting)\<lparr>devs := (\<lambda>_. sample_dev\<lparr>envs := [good_env 24, good_env 2]\<rparr>)\<rparr>"
  let ?f = "write_packet 9 ''ls''"
  have u: "usable ?w 6 5 sample_handle" using usable_session_world by (auto simp: usable_def)
  have hb: "heap_bounded ?w" by (simp add: heap_bounded_def session_world_def linked_world_def)
  have dl: "unat (data_length (msg (?f (blank ?w)))) = 2"
    by (simp add: write_packet_def text_payload_def snprintf_s_def MAX_PAYLOAD_def)
  have "malloc_ok ?w" by (simp add: session_world_def linked_world_def sample_world_def)
  moreover have "envs (devs ?w 5) = good_env 24 # good_env 2 # []" by simp
  ultimately obtain w' where "emit ?f (Some 6) ?w = Inr w'"
    using emit_runs [OF u, of ?f 24 2 "[]"] dl by (auto simp: sample_handle_def MAX_PAYLOAD_def)
  then have run: "send_write (Some 6) ''ls'' ?w = Inr w'"
    by (simp add: send_write_def session_world_def)
  have "remote_id ?w \<noteq> -1" by (simp add: session_world_def)
  from send_write_message [OF u hb this run] run show ?thesis
    by (auto simp: sample_dev_def dev_out_def)
qed

end
