(* ===== verification/Keycode.thy ===== *)
theory Keycode
  imports Session
begin

text \<open>
  The keyboard (\<open>keycode.c\<close>): key presses are collected in a queue of items, each a key event or a
  text of up to 100 characters, and an item is turned into a shell command for the device. The
  queue is linked through its items; \<open>fifo_queue\<close> is its contract.
\<close>

section \<open>State\<close>

record keydata =
  k_type :: int
  k_count :: nat
  k_value :: int
  k_text :: string
  k_next :: ptr

record keys =
  kheap :: "addr \<rightharpoonup> keydata"
  kbrk :: addr
  k_malloc_ok :: bool
  keylist :: ptr
  klast :: ptr

definition KEY_EVENT :: int where "KEY_EVENT = 0"
definition KEY_TEXT :: int where "KEY_TEXT = 1"
definition TEXT_SIZE :: nat where "TEXT_SIZE = 100"

definition zero_key :: keydata where
  "zero_key = \<lparr>k_type = 0, k_count = 0, k_value = 0, k_text = replicate TEXT_SIZE nul, k_next = None\<rparr>"

section \<open>The queue\<close>

definition add :: "addr \<Rightarrow> keys \<Rightarrow> fault + keys" where
  "add k w =
     (if keylist w = None then Inr (w\<lparr>keylist := Some k, klast := Some k\<rparr>)
      else bindF (deref (kheap w) (klast w)) (\<lambda>(l, kd).
             Inr (w\<lparr>kheap := (kheap w)(l \<mapsto> kd\<lparr>k_next := Some k\<rparr>), klast := Some k\<rparr>)))"

text \<open>\<open>bzero\<close> of an item, then \<open>add\<close>: what \<open>get\<close> does with the memory it has allocated.\<close>

definition enqueue_key :: "addr \<Rightarrow> keys \<Rightarrow> fault + keys" where
  "enqueue_key k w =
     bindF (deref (kheap w) (Some k)) (\<lambda>_. add k (w\<lparr>kheap := (kheap w)(k \<mapsto> zero_key)\<rparr>))"

definition get_key :: "keys \<Rightarrow> fault + addr \<times> keys" where
  "get_key w =
     (if \<not> k_malloc_ok w then Inl NullDeref
      else let k = kbrk w
           in bindF (enqueue_key k (w\<lparr>kheap := (kheap w)(k \<mapsto> zero_key), kbrk := Suc k\<rparr>)) (\<lambda>w'.
                Inr (k, w')))"

text \<open>Taking the first item off the list, as \<open>send_command\<close> does.\<close>

definition shift_key :: "keys \<Rightarrow> fault + ptr \<times> keys" where
  "shift_key w =
     (case keylist w of
        None \<Rightarrow> Inr (None, w)
      | Some k \<Rightarrow> bindF (deref (kheap w) (Some k)) (\<lambda>(_, kd).
          let w1 = w\<lparr>keylist := k_next kd\<rparr>
          in Inr (Some k, if k_next kd = None then w1\<lparr>klast := None\<rparr> else w1)))"

section \<open>Recognising keys\<close>

definition set_key_value :: "int \<Rightarrow> keys \<Rightarrow> fault + keys" where
  "set_key_value v w =
     bindF (get_key w) (\<lambda>(k, w1). bindF (deref (kheap w1) (Some k)) (\<lambda>(_, kd).
       Inr (w1\<lparr>kheap := (kheap w1)(k \<mapsto> kd\<lparr>k_type := KEY_EVENT, k_value := v,
              k_count := Suc (k_count kd)\<rparr>)\<rparr>)))"

definition code_1byte :: "string \<Rightarrow> int option" where
  "code_1byte buf =
     (let c = buf ! 0
      in if c = CHR 0x09 then Some 61 else if c = CHR 0x0a then Some 66
         else if c = CHR 0x1b then Some 111 else if c = CHR 0x20 then Some 62
         else if c = CHR 0x7f then Some 67 else None)"

definition code_3bytes :: "string \<Rightarrow> int option" where
  "code_3bytes buf =
     (if buf ! 0 \<noteq> CHR 0x1b \<or> buf ! 1 \<noteq> CHR 0x5b then None
      else let c = buf ! 2
           in if c = CHR 0x41 then Some 19 else if c = CHR 0x42 then Some 20
              else if c = CHR 0x43 then Some 22 else if c = CHR 0x44 then Some 21 else None)"

definition code_4bytes :: "string \<Rightarrow> int option" where
  "code_4bytes buf =
     (if buf ! 0 = CHR 0x1b \<and> buf ! 1 = CHR 0x5b \<and> buf ! 2 = CHR 0x33 \<and> buf ! 3 = CHR 0x7e
      then Some 112 else None)"

text \<open>\<open>check_1byte_char\<close>, \<open>check_3bytes_char\<close> and \<open>check_4bytes_char\<close>: a recognised code becomes a new
  item.\<close>

definition check_bytes_char :: "int option \<Rightarrow> keys \<Rightarrow> fault + keys" where
  "check_bytes_char c w = (case c of None \<Rightarrow> Inr w | Some v \<Rightarrow> set_key_value v w)"

definition is_print :: "char \<Rightarrow> bool" where
  "is_print c \<longleftrightarrow> 32 \<le> (of_char c :: nat) \<and> of_char c < (127::nat)"

text \<open>The text item that still takes a character: the last one, unless it is full or ends in a
  percent sign.\<close>

definition open_text :: "keys \<Rightarrow> fault + ptr" where
  "open_text w =
     (case klast w of
        None \<Rightarrow> Inr None
      | Some l \<Rightarrow> bindF (deref (kheap w) (Some l)) (\<lambda>(_, kd).
          if k_type kd = KEY_TEXT \<and> k_count kd < TEXT_SIZE
          then if k_count kd = 0 then Inl OutOfBounds
               else if k_text kd ! (k_count kd - 1) \<noteq> CHR ''%'' then Inr (Some l) else Inr None
          else Inr None))"

definition put_char :: "addr \<Rightarrow> char \<Rightarrow> keys \<Rightarrow> fault + keys" where
  "put_char k c w =
     bindF (deref (kheap w) (Some k)) (\<lambda>(_, kd).
       if TEXT_SIZE \<le> k_count kd then Inl OutOfBounds
       else Inr (w\<lparr>kheap := (kheap w)(k \<mapsto> kd\<lparr>k_type := KEY_TEXT,
              k_text := (k_text kd)[k_count kd := c], k_count := Suc (k_count kd)\<rparr>)\<rparr>))"

definition add_keylist :: "nat \<Rightarrow> string \<Rightarrow> keys \<Rightarrow> fault + keys" where
  "add_keylist len buf w =
     (if len = 1 \<and> is_print (buf ! 0) \<and> buf ! 0 \<noteq> CHR '' '' \<and> buf ! 0 \<noteq> CHR 0x09
      then bindF (open_text w) (\<lambda>ko. bindF (case ko of None \<Rightarrow> get_key w | Some k \<Rightarrow> Inr (k, w)) (\<lambda>(k, w1).
             put_char k (buf ! 0) w1))
      else if len = 1 then check_bytes_char (code_1byte buf) w
      else if len = 3 then check_bytes_char (code_3bytes buf) w
      else if len = 4 then check_bytes_char (code_4bytes buf) w
      else Inr w)"

section \<open>Commands\<close>

definition CMD_SIZE :: nat where "CMD_SIZE = 240"

fun dec_digits :: "nat \<Rightarrow> string" where
  "dec_digits n = (if n < 10 then [char_of (48 + n)] else dec_digits (n div 10) @ [char_of (48 + n mod 10)])"

declare dec_digits.simps [simp del]

definition dec_string :: "int \<Rightarrow> string" where
  "dec_string v = (if v < 0 then CHR ''-'' # dec_digits (nat (- v)) else dec_digits (nat v))"

text \<open>\<open>sprintf\<close> into the 40 bytes of \<open>set_keyevent\<close>; the text ends at the zero character.\<close>

definition keyevent_text :: "int \<Rightarrow> fault + string" where
  "keyevent_text v =
     (let s = ''input keyevent '' @ dec_string v @ [CHR 0x0D, CHR 0x0A, CHR '' '']
      in if length s + 2 \<le> 40 then Inr s else Inl OutOfBounds)"

text \<open>One character through the pointer \<open>p\<close> of \<open>set_text\<close>; the result so far ends at \<open>p\<close>.\<close>

definition push :: "char \<Rightarrow> string \<Rightarrow> fault + string" where
  "push c out = (if length out < CMD_SIZE then Inr (out @ [c]) else Inl OutOfBounds)"

fun text_loop :: "string \<Rightarrow> nat \<Rightarrow> nat \<Rightarrow> string \<Rightarrow> fault + string" where
  "text_loop txt i 0 out = Inr out"
| "text_loop txt i (Suc n) out =
     (if length txt \<le> i then Inl OutOfBounds
      else bindF (if txt ! i = CHR 0x22 then push (CHR 0x5C) out else Inr out) (\<lambda>out1.
           bindF (push (txt ! i) out1) (text_loop txt (Suc i) n)))"

definition text_command :: "keydata \<Rightarrow> fault + string" where
  "text_command k =
     bindF (text_loop (k_text k) 0 (k_count k) (''input text '' @ [CHR 0x22])) (\<lambda>out.
     bindF (push (CHR 0x22) out) (\<lambda>o1. bindF (push (CHR 0x0D) o1) (\<lambda>o2.
     bindF (push (CHR 0x0A) o2) (\<lambda>o3. bindF (push (CHR '' '') o3) (\<lambda>o4.
     bindF (push nul o4) (\<lambda>_. Inr o4))))))"

definition key_command :: "keydata \<Rightarrow> fault + string" where
  "key_command k = (if k_type k = KEY_EVENT then keyevent_text (k_value k) else text_command k)"

text \<open>\<open>set_keyevent\<close> and \<open>set_text\<close>: the command is sent over the current transport.\<close>

definition set_key :: "keydata \<Rightarrow> world \<Rightarrow> fault + world" where
  "set_key k w = bindF (key_command k) (\<lambda>s. send_write (transport w) s w)"

definition send_command :: "keys \<Rightarrow> world \<Rightarrow> fault + keys \<times> world" where
  "send_command ks w =
     bindF (shift_key ks) (\<lambda>(kp, ks1).
       case kp of
         None \<Rightarrow> Inr (ks1, w)
       | Some k \<Rightarrow> bindF (deref (kheap ks1) (Some k)) (\<lambda>(_, kd).
           bindF (set_key kd w) (\<lambda>w'. Inr (ks1, w'))))"

fun dump_loop_keys :: "nat \<Rightarrow> ptr \<Rightarrow> keys \<Rightarrow> world \<Rightarrow> fault + world" where
  "dump_loop_keys 0 kp ks w = Inl Blocked"
| "dump_loop_keys (Suc fuel) kp ks w =
     (case kp of
        None \<Rightarrow> Inr w
      | Some k \<Rightarrow> bindF (deref (kheap ks) (Some k)) (\<lambda>(_, kd).
          bindF (set_key kd w) (dump_loop_keys fuel (k_next kd) ks)))"

definition dump_keylist :: "keys \<Rightarrow> world \<Rightarrow> fault + world" where
  "dump_keylist ks w = dump_loop_keys (Suc (kbrk ks)) (keylist ks) ks w"

section \<open>The queue as a list of items\<close>

definition knexts :: "(addr \<rightharpoonup> keydata) \<Rightarrow> addr \<rightharpoonup> ptr" where
  "knexts h = (\<lambda>a. map_option k_next (h a))"

definition key_rep :: "keys \<Rightarrow> addr list \<Rightarrow> bool" where
  "key_rep w xs \<longleftrightarrow> fifo_rep (knexts (kheap w)) (keylist w) (klast w) xs"

definition key_allocated :: "keys \<Rightarrow> addr \<Rightarrow> bool" where
  "key_allocated w k \<longleftrightarrow> kheap w k \<noteq> None"

lemma dom_kheap: "dom (kheap w) = Collect (key_allocated w)"
  by (auto simp: key_allocated_def)

text \<open>An item without its link.\<close>

definition item :: "keys \<Rightarrow> addr \<Rightarrow> keydata option" where
  "item w a = map_option (\<lambda>k. k\<lparr>k_next := None\<rparr>) (kheap w a)"

lemma knexts_upd [simp]: "knexts (h(a \<mapsto> k)) = (knexts h)(a \<mapsto> k_next k)"
  by (auto simp: knexts_def)

lemma key_rep_dom: "key_rep w xs \<Longrightarrow> a \<in> set xs \<Longrightarrow> \<exists>k. kheap w a = Some k"
  using chain_dom [of "knexts (kheap w)" "keylist w" xs]
  by (auto simp: key_rep_def fifo_rep_def knexts_def)

lemma item_Some: "item w a = Some k \<Longrightarrow> \<exists>k'. kheap w a = Some k' \<and> k = k'\<lparr>k_next := None\<rparr>"
  by (auto simp: item_def)

lemma enqueue_key_ok:
  assumes "key_rep w xs" "key_allocated w k" "k \<notin> set xs"
  shows "\<exists>w'. enqueue_key k w = Inr w' \<and> key_rep w' (xs @ [k]) \<and> key_allocated w' = key_allocated w
    \<and> kheap w' k = Some zero_key \<and> (\<forall>a. a \<noteq> k \<longrightarrow> item w' a = item w a)
    \<and> kbrk w' = kbrk w \<and> k_malloc_ok w' = k_malloc_ok w"
proof -
  obtain kd where kd: "kheap w k = Some kd" using assms(2) by (auto simp: key_allocated_def)
  show ?thesis
  proof (cases "xs = []")
    case True
    then have "keylist w = None" using assms(1) by (simp add: key_rep_def fifo_rep_Nil)
    then show ?thesis using kd True
      by (auto simp: enqueue_key_def add_def key_rep_def zero_key_def fifo_rep_enq_empty item_def
          key_allocated_def fun_eq_iff)
  next
    case False
    then have hd: "keylist w \<noteq> None" "klast w = Some (last xs)"
      using assms(1) fifo_rep_empty_iff [of "knexts (kheap w)" "keylist w" "klast w" xs]
      by (auto simp: key_rep_def fifo_rep_def)
    obtain lk where lk: "kheap w (last xs) = Some lk" using key_rep_dom [OF assms(1), of "last xs"] False by auto
    have ne: "k \<noteq> last xs" using assms(3) False by auto
    let ?w' = "w\<lparr>kheap := (kheap w)(k \<mapsto> zero_key, last xs \<mapsto> lk\<lparr>k_next := Some k\<rparr>), klast := Some k\<rparr>"
    have run: "enqueue_key k w = Inr ?w'"
      using kd hd lk ne by (auto simp: enqueue_key_def add_def)
    have "fifo_rep ((knexts (kheap w))(last xs \<mapsto> Some k, k \<mapsto> None)) (keylist w) (Some k) (xs @ [k])"
      using assms(1,3) False by (intro fifo_rep_enq) (auto simp: key_rep_def)
    then have "key_rep ?w' (xs @ [k])"
      using ne by (simp add: key_rep_def zero_key_def fun_upd_twist)
    then show ?thesis using run kd lk ne
      by (auto simp: item_def key_allocated_def fun_eq_iff)
  qed
qed

lemma shift_key_Cons:
  assumes "key_rep w (x # xs)"
  shows "\<exists>w'. shift_key w = Inr (Some x, w') \<and> key_rep w' xs \<and> kheap w' = kheap w
    \<and> kbrk w' = kbrk w \<and> k_malloc_ok w' = k_malloc_ok w"
proof -
  from fifo_rep_deq [OF assms [unfolded key_rep_def]] obtain k where "keylist w = Some x"
    "kheap w x = Some k" "fifo_rep (knexts (kheap w)) (k_next k)
      (if k_next k = None then None else klast w) xs"
    by (auto simp: knexts_def)
  then show ?thesis by (auto simp: shift_key_def Let_def key_rep_def)
qed

interpretation keyq: fifo_queue key_rep key_allocated enqueue_key shift_key
proof unfold_locales
  fix w xs k assume "key_rep w xs" "key_allocated w k" "k \<notin> set xs"
  then show "\<exists>w'. enqueue_key k w = Inr w' \<and> key_rep w' (xs @ [k]) \<and> key_allocated w' = key_allocated w"
    using enqueue_key_ok by blast
next
  fix w assume "key_rep w []"
  then show "\<exists>w'. shift_key w = Inr (None, w') \<and> key_rep w' [] \<and> key_allocated w' = key_allocated w"
    by (auto simp: shift_key_def key_rep_def fifo_rep_Nil)
next
  fix w x xs assume "key_rep w (x # xs)"
  then show "\<exists>w'. shift_key w = Inr (Some x, w') \<and> key_rep w' xs \<and> key_allocated w' = key_allocated w"
    using shift_key_Cons by (fastforce simp: key_allocated_def fun_eq_iff)
qed

section \<open>The presses in the queue\<close>

datatype press = Key int | Char char

definition item_presses :: "keydata \<Rightarrow> press list" where
  "item_presses k = (if k_type k = KEY_EVENT then [Key (k_value k)] else map Char (take (k_count k) (k_text k)))"

definition presses :: "keys \<Rightarrow> addr list \<Rightarrow> press list" where
  "presses w xs = concat (map (\<lambda>a. case item w a of None \<Rightarrow> [] | Some k \<Rightarrow> item_presses k) xs)"

text \<open>What the bytes of one read of the keyboard stand for.\<close>

definition decode :: "nat \<Rightarrow> string \<Rightarrow> press list" where
  "decode len buf =
     (if len = 1 \<and> is_print (buf ! 0) \<and> buf ! 0 \<noteq> CHR '' '' then [Char (buf ! 0)]
      else case (if len = 1 then code_1byte buf else if len = 3 then code_3bytes buf
                 else if len = 4 then code_4bytes buf else None) of
             None \<Rightarrow> [] | Some v \<Rightarrow> [Key v])"

definition item_ok :: "keydata \<Rightarrow> bool" where
  "item_ok k \<longleftrightarrow> length (k_text k) = TEXT_SIZE \<and> 0 \<le> k_value k \<and> k_value k \<le> 112
     \<and> (k_type k = KEY_EVENT \<or> k_type k = KEY_TEXT \<and> 1 \<le> k_count k \<and> k_count k \<le> TEXT_SIZE)"

definition key_inv :: "keys \<Rightarrow> addr list \<Rightarrow> bool" where
  "key_inv w xs \<longleftrightarrow> key_rep w xs \<and> (\<forall>a \<in> dom (kheap w). a < kbrk w)
     \<and> (\<forall>a \<in> set xs. \<exists>k. item w a = Some k \<and> item_ok k)"

lemma item_ok_link [simp]: "item_ok (k\<lparr>k_next := n\<rparr>) = item_ok k"
  by (simp add: item_ok_def)

lemma item_presses_link [simp]: "item_presses (k\<lparr>k_next := n\<rparr>) = item_presses k"
  by (simp add: item_presses_def)

lemma key_inv_item: "key_inv w xs \<Longrightarrow> a \<in> set xs \<Longrightarrow> \<exists>k. kheap w a = Some k \<and> item_ok k"
  by (auto simp: key_inv_def dest!: bspec [of "set xs"] item_Some)

lemma get_key_ok:
  assumes "key_inv w xs" "k_malloc_ok w"
  shows "\<exists>w'. get_key w = Inr (kbrk w, w') \<and> key_rep w' (xs @ [kbrk w])
    \<and> kheap w' (kbrk w) = Some zero_key \<and> kbrk w \<notin> set xs
    \<and> (\<forall>a \<in> set xs. item w' a = item w a) \<and> (\<forall>a \<in> dom (kheap w'). a < kbrk w')"
proof -
  let ?k = "kbrk w" let ?w1 = "w\<lparr>kheap := (kheap w)(?k \<mapsto> zero_key), kbrk := Suc ?k\<rparr>"
  have rep: "key_rep w xs" using assms(1) by (simp add: key_inv_def)
  have bd: "\<forall>a \<in> dom (kheap w). a < kbrk w" using assms(1) by (simp add: key_inv_def)
  have fresh: "?k \<notin> set xs" using key_rep_dom [OF rep] bd by (metis domI less_irrefl)
  have "fifo_rep (knexts (kheap ?w1)) (keylist w) (klast w) xs"
    using rep fresh by (auto simp: key_rep_def fifo_rep_def)
  then have "key_rep ?w1 xs" by (simp add: key_rep_def)
  then obtain w' where w': "enqueue_key ?k ?w1 = Inr w'" "key_rep w' (xs @ [?k])"
    "key_allocated w' = key_allocated ?w1" "kheap w' ?k = Some zero_key"
    "\<forall>a. a \<noteq> ?k \<longrightarrow> item w' a = item ?w1 a" "kbrk w' = Suc ?k"
    using enqueue_key_ok [of ?w1 xs ?k] fresh by (auto simp: key_allocated_def)
  have "dom (kheap w') = dom (kheap ?w1)" using w'(3) by (simp only: dom_kheap)
  then have "\<forall>a \<in> dom (kheap w'). a < kbrk w'" using bd w'(6) by (auto simp: less_SucI)
  moreover have "item w' a = item w a" if "a \<in> set xs" for a
    using w'(5) that fresh by (cases "a = ?k") (auto simp: item_def)
  ultimately show ?thesis using w' assms(2) fresh by (simp add: get_key_def Let_def)
qed

text \<open>Changing the contents of one item of the queue.\<close>

lemma key_inv_update:
  assumes "key_rep w xs" "\<forall>a \<in> dom (kheap w). a < kbrk w" "kheap w k = Some kd"
    and "k_next kd' = k_next kd" "item_ok kd'"
    and "\<forall>a \<in> set xs - {k}. \<exists>c. item w a = Some c \<and> item_ok c"
  shows "key_inv (w\<lparr>kheap := (kheap w)(k \<mapsto> kd')\<rparr>) xs"
proof -
  have "knexts ((kheap w)(k \<mapsto> kd')) = knexts (kheap w)"
    using assms(3,4) by (auto simp: knexts_def fun_eq_iff)
  then have "key_rep (w\<lparr>kheap := (kheap w)(k \<mapsto> kd')\<rparr>) xs" using assms(1) by (simp add: key_rep_def)
  moreover have "k < kbrk w" using assms(2,3) by blast
  moreover have "\<exists>c. item (w\<lparr>kheap := (kheap w)(k \<mapsto> kd')\<rparr>) a = Some c \<and> item_ok c" if "a \<in> set xs" for a
  proof (cases "a = k")
    case False
    then have "item (w\<lparr>kheap := (kheap w)(k \<mapsto> kd')\<rparr>) a = item w a" by (simp add: item_def)
    then show ?thesis using assms(6) that False by simp
  qed (use assms(5) in \<open>simp add: item_def\<close>)
  ultimately show ?thesis using assms(2) by (auto simp: key_inv_def)
qed

lemma presses_append [simp]: "presses w (xs @ ys) = presses w xs @ presses w ys"
  by (simp add: presses_def)

lemma presses_same:
  "(\<And>a. a \<in> set xs \<Longrightarrow> item w' a = item w a) \<Longrightarrow> presses w' xs = presses w xs"
  by (auto simp: presses_def cong: map_cong)

lemma presses_single: "kheap w k = Some kd \<Longrightarrow> presses w [k] = item_presses kd"
  by (simp add: presses_def item_def)

lemma set_key_value_ok:
  assumes "key_inv w xs" "k_malloc_ok w" "0 \<le> v" "v \<le> 112"
  shows "\<exists>w' ys. set_key_value v w = Inr w' \<and> key_inv w' ys \<and> presses w' ys = presses w xs @ [Key v]"
proof -
  obtain w1 where g: "get_key w = Inr (kbrk w, w1)" "key_rep w1 (xs @ [kbrk w])"
    "kheap w1 (kbrk w) = Some zero_key" "kbrk w \<notin> set xs" "\<forall>a \<in> set xs. item w1 a = item w a"
    "\<forall>a \<in> dom (kheap w1). a < kbrk w1"
    using get_key_ok [OF assms(1,2)] by blast
  let ?kd = "zero_key\<lparr>k_type := KEY_EVENT, k_value := v, k_count := Suc (k_count zero_key)\<rparr>"
  let ?w' = "w1\<lparr>kheap := (kheap w1)(kbrk w \<mapsto> ?kd)\<rparr>"
  have "set_key_value v w = Inr ?w'" using g(1,3) by (simp add: set_key_value_def)
  moreover have "item_ok ?kd" using assms(3,4) by (simp add: item_ok_def zero_key_def)
  then have "key_inv ?w' (xs @ [kbrk w])"
    using g assms(1) by (intro key_inv_update [OF g(2,6,3)]) (auto simp: key_inv_def)
  moreover have "item ?w' a = item w a" if "a \<in> set xs" for a
    using g(4,5) that by (cases "a = kbrk w") (auto simp: item_def)
  then have "presses ?w' xs = presses w xs" by (rule presses_same)
  then have "presses ?w' (xs @ [kbrk w]) = presses w xs @ [Key v]"
    using presses_single [of ?w' "kbrk w" ?kd] by (simp add: item_presses_def)
  ultimately show ?thesis by blast
qed

lemma put_char_ok:
  assumes "key_rep w xs" "\<forall>a \<in> dom (kheap w). a < kbrk w" "xs = ys @ [k]" "k \<notin> set ys"
    and "kheap w k = Some kd" "length (k_text kd) = TEXT_SIZE" "k_count kd < TEXT_SIZE"
    and "0 \<le> k_value kd" "k_value kd \<le> 112"
    and "\<forall>a \<in> set ys. \<exists>c. item w a = Some c \<and> item_ok c"
  shows "\<exists>w'. put_char k c w = Inr w' \<and> key_inv w' xs
    \<and> presses w' xs = presses w ys @ map Char (take (k_count kd) (k_text kd)) @ [Char c]"
proof -
  let ?kd = "kd\<lparr>k_type := KEY_TEXT, k_text := (k_text kd)[k_count kd := c], k_count := Suc (k_count kd)\<rparr>"
  let ?w' = "w\<lparr>kheap := (kheap w)(k \<mapsto> ?kd)\<rparr>"
  have "put_char k c w = Inr ?w'" using assms(5,7) by (simp add: put_char_def)
  moreover have "item_ok ?kd" using assms(6-9) by (simp add: item_ok_def)
  then have "key_inv ?w' xs"
    using assms(3,10) by (intro key_inv_update [OF assms(1,2,5)]) auto
  moreover have "item ?w' a = item w a" if "a \<in> set ys" for a
    using that assms(4) by (cases "a = k") (simp_all add: item_def)
  then have "presses ?w' ys = presses w ys" by (rule presses_same)
  moreover have "take (Suc (k_count kd)) ((k_text kd)[k_count kd := c]) = take (k_count kd) (k_text kd) @ [c]"
    using assms(6,7) by (simp add: take_Suc_conv_app_nth)
  then have "item_presses ?kd = map Char (take (k_count kd) (k_text kd)) @ [Char c]"
    by (simp add: item_presses_def KEY_EVENT_def KEY_TEXT_def)
  ultimately show ?thesis using assms(3) presses_single [of ?w' k ?kd] by simp
qed

lemma add_char_ok:
  assumes inv: "key_inv w xs" and "k_malloc_ok w"
  shows "\<exists>w' ys. bindF (open_text w) (\<lambda>ko. bindF (case ko of None \<Rightarrow> get_key w | Some k \<Rightarrow> Inr (k, w)) (\<lambda>(k, w1).
             put_char k c w1)) = Inr w' \<and> key_inv w' ys \<and> presses w' ys = presses w xs @ [Char c]"
proof -
  have rep: "key_rep w xs" and bd: "\<forall>a \<in> dom (kheap w). a < kbrk w"
    and items: "\<forall>a \<in> set xs. \<exists>k. item w a = Some k \<and> item_ok k" using inv by (auto simp: key_inv_def)
  have fresh: "\<exists>w' ys. bindF (get_key w) (\<lambda>(k, w1). put_char k c w1) = Inr w' \<and> key_inv w' ys
      \<and> presses w' ys = presses w xs @ [Char c]"
  proof -
    obtain w1 where g: "get_key w = Inr (kbrk w, w1)" "key_rep w1 (xs @ [kbrk w])"
      "kheap w1 (kbrk w) = Some zero_key" "kbrk w \<notin> set xs" "\<forall>a \<in> set xs. item w1 a = item w a"
      "\<forall>a \<in> dom (kheap w1). a < kbrk w1"
      using get_key_ok [OF assms] by blast
    obtain w' where "put_char (kbrk w) c w1 = Inr w'" "key_inv w' (xs @ [kbrk w])"
      and "presses w' (xs @ [kbrk w]) = presses w1 xs @ [Char c]"
    proof -
      have "\<exists>w'. put_char (kbrk w) c w1 = Inr w' \<and> key_inv w' (xs @ [kbrk w])
        \<and> presses w' (xs @ [kbrk w]) = presses w1 xs @ map Char (take (k_count zero_key) (k_text zero_key)) @ [Char c]"
        by (rule put_char_ok [OF g(2,6) refl g(4,3)])
          (use g(5) items in \<open>simp_all add: zero_key_def TEXT_SIZE_def\<close>)
      then show thesis using that by (auto simp: zero_key_def simp del: presses_append)
    qed
    moreover have "presses w1 xs = presses w xs" using g(5) by (intro presses_same) simp
    ultimately have "bindF (get_key w) (\<lambda>(k, w1). put_char k c w1) = Inr w' \<and> key_inv w' (xs @ [kbrk w])
        \<and> presses w' (xs @ [kbrk w]) = presses w xs @ [Char c]" using g(1) by (simp del: presses_append)
    then show ?thesis by blast
  qed
  show ?thesis
  proof (cases "xs = []")
    case True
    then have "klast w = None" using rep by (simp add: key_rep_def fifo_rep_Nil)
    then show ?thesis using fresh by (simp add: open_text_def)
  next
    case False
    then obtain ys k where xs: "xs = ys @ [k]" by (metis rev_exhaust)
    have l: "klast w = Some k" using rep xs by (simp add: key_rep_def fifo_rep_def)
    obtain kd where kd: "kheap w k = Some kd" "item_ok kd" using key_inv_item [OF inv, of k] xs by auto
    show ?thesis
    proof (cases "k_type kd = KEY_TEXT \<and> k_count kd < TEXT_SIZE \<and> k_text kd ! (k_count kd - 1) \<noteq> CHR ''%''")
      case True
      have ok: "length (k_text kd) = TEXT_SIZE" "0 \<le> k_value kd" "k_value kd \<le> 112" "k_count kd \<noteq> 0"
        using kd(2) True by (auto simp: item_ok_def KEY_EVENT_def KEY_TEXT_def)
      have "k \<notin> set ys" using rep xs by (simp add: key_rep_def fifo_rep_def)
      then obtain w' where "put_char k c w = Inr w'" "key_inv w' xs"
        "presses w' xs = presses w ys @ map Char (take (k_count kd) (k_text kd)) @ [Char c]"
        using put_char_ok [OF rep bd xs _ kd(1) ok(1) _ ok(2,3)] True items xs by fastforce
      moreover have "presses w xs = presses w ys @ map Char (take (k_count kd) (k_text kd))"
        using xs presses_single [OF kd(1)] True by (simp add: item_presses_def KEY_EVENT_def KEY_TEXT_def)
      moreover have "open_text w = Inr (Some k)" using l kd(1) True ok(4) by (simp add: open_text_def)
      ultimately show ?thesis by auto
    next
      case no: False
      have "k_type kd = KEY_TEXT \<Longrightarrow> k_count kd \<noteq> 0"
        using kd(2) by (auto simp: item_ok_def KEY_EVENT_def KEY_TEXT_def)
      then have "open_text w = Inr None" using l kd(1) no by (auto simp: open_text_def)
      then show ?thesis using fresh by simp
    qed
  qed
qed

section \<open>The commands\<close>

text \<open>Only the double quote is escaped.\<close>

definition escape :: "string \<Rightarrow> string" where
  "escape s = concat (map (\<lambda>c. if c = CHR 0x22 then [CHR 0x5C, c] else [c]) s)"

lemma length_escape: "length (escape s) \<le> 2 * length s"
  by (induction s) (auto simp: escape_def)

lemma text_loop_ok:
  "i + n \<le> length txt \<Longrightarrow> length out + 2 * n \<le> CMD_SIZE \<Longrightarrow>
     text_loop txt i n out = Inr (out @ escape (take n (drop i txt)))"
proof (induction n arbitrary: i out)
  case (Suc n)
  then have "drop i txt = txt ! i # drop (Suc i) txt" by (simp add: Cons_nth_drop_Suc)
  then show ?case using Suc by (simp add: push_def escape_def)
qed (simp add: escape_def)

lemma text_command_ok:
  assumes "item_ok k" "k_type k = KEY_TEXT"
  shows "text_command k = Inr (''input text '' @ [CHR 0x22] @ escape (take (k_count k) (k_text k))
    @ [CHR 0x22, CHR 0x0D, CHR 0x0A, CHR '' ''])"
proof -
  have n: "k_count k \<le> 100" "length (k_text k) = 100"
    using assms by (auto simp: item_ok_def KEY_EVENT_def KEY_TEXT_def TEXT_SIZE_def)
  then have "text_loop (k_text k) 0 (k_count k) (''input text '' @ [CHR 0x22])
      = Inr ((''input text '' @ [CHR 0x22]) @ escape (take (k_count k) (k_text k)))"
    using text_loop_ok [of 0 "k_count k" "k_text k" "''input text '' @ [CHR 0x22]"]
    by (simp add: CMD_SIZE_def)
  moreover have "length (escape (take (k_count k) (k_text k))) \<le> 200"
    using length_escape [of "take (k_count k) (k_text k)"] n by simp
  ultimately show ?thesis by (simp add: text_command_def push_def CMD_SIZE_def)
qed

lemma dec_digits_small: "n < 1000 \<Longrightarrow> length (dec_digits n) \<le> 3"
  by (subst dec_digits.simps, subst dec_digits.simps, subst dec_digits.simps) auto

lemma dec_string_small: "item_ok k \<Longrightarrow> length (dec_string (k_value k)) \<le> 3"
proof -
  assume "item_ok k"
  then have "0 \<le> k_value k" "nat (k_value k) < 1000" by (auto simp: item_ok_def)
  then show ?thesis using dec_digits_small by (simp add: dec_string_def)
qed

lemma key_command_ok:
  assumes "item_ok k"
  shows "key_command k = Inr (if k_type k = KEY_EVENT
    then ''input keyevent '' @ dec_string (k_value k) @ [CHR 0x0D, CHR 0x0A, CHR '' '']
    else ''input text '' @ [CHR 0x22] @ escape (take (k_count k) (k_text k))
      @ [CHR 0x22, CHR 0x0D, CHR 0x0A, CHR '' ''])"
proof (cases "k_type k = KEY_EVENT")
  case True
  have "length (dec_string (k_value k)) \<le> 3" using dec_string_small [OF assms] .
  then show ?thesis using True by (simp add: key_command_def keyevent_text_def Let_def)
next
  case False
  then have "k_type k = KEY_TEXT" using assms by (simp add: item_ok_def)
  then show ?thesis using text_command_ok [OF assms] False by (simp add: key_command_def)
qed

lemma shift_key_inv:
  assumes "key_inv w (x # xs)"
  shows "\<exists>w'. shift_key w = Inr (Some x, w') \<and> key_inv w' xs \<and> kheap w' = kheap w"
proof -
  obtain w' where "shift_key w = Inr (Some x, w')" "key_rep w' xs" "kheap w' = kheap w" "kbrk w' = kbrk w"
    using shift_key_Cons assms unfolding key_inv_def by blast
  then show ?thesis using assms by (auto simp: key_inv_def item_def)
qed

section \<open>Properties\<close>

text \<open>C18: key presses are queued in the order they are typed. With memory available, every read of
  the keyboard is processed without a fault, keeps the queue well formed, and appends to the
  presses in the queue exactly what the bytes stand for, whether it starts a new item or extends the
  last text. The 100-character text buffer never overflows.\<close>

theorem keys_in_order:
  assumes "key_inv w xs" "k_malloc_ok w"
  shows "\<exists>w' ys. add_keylist len buf w = Inr w' \<and> key_inv w' ys
    \<and> presses w' ys = presses w xs @ decode len buf"
proof -
  have code: "\<exists>w' ys. check_bytes_char c w = Inr w' \<and> key_inv w' ys
      \<and> presses w' ys = presses w xs @ (case c of None \<Rightarrow> [] | Some v \<Rightarrow> [Key v])"
    if "\<And>v. c = Some v \<Longrightarrow> 0 \<le> v \<and> v \<le> 112" for c
    using assms set_key_value_ok [OF assms] that by (cases c) (auto simp: check_bytes_char_def)
  have r1: "code_1byte buf = Some v \<Longrightarrow> 0 \<le> v \<and> v \<le> 112" for v
    by (auto simp: code_1byte_def Let_def split: if_splits)
  have r3: "code_3bytes buf = Some v \<Longrightarrow> 0 \<le> v \<and> v \<le> 112" for v
    by (auto simp: code_3bytes_def Let_def split: if_splits)
  have r4: "code_4bytes buf = Some v \<Longrightarrow> 0 \<le> v \<and> v \<le> 112" for v
    by (auto simp: code_4bytes_def split: if_splits)
  consider "len = 1" "is_print (buf ! 0)" "buf ! 0 \<noteq> CHR '' ''"
    | "len = 1" "\<not> (is_print (buf ! 0) \<and> buf ! 0 \<noteq> CHR '' '')" | "len = 3" | "len = 4" | "len \<notin> {1, 3, 4}"
    by blast
  then show ?thesis
  proof cases
    case 1
    then have "buf ! 0 \<noteq> CHR 0x09" by (auto simp: is_print_def)
    then show ?thesis using 1 add_char_ok [OF assms, of "buf ! 0"]
      by (simp add: add_keylist_def decode_def)
  next
    case 2
    then have "add_keylist len buf w = check_bytes_char (code_1byte buf) w"
      by (auto simp: add_keylist_def)
    moreover have "decode len buf = (case code_1byte buf of None \<Rightarrow> [] | Some v \<Rightarrow> [Key v])"
      using 2 by (auto simp: decode_def)
    ultimately show ?thesis using code [OF r1] by simp
  next
    case 3
    then show ?thesis using code [OF r3] by (simp add: add_keylist_def decode_def)
  next
    case 4
    then show ?thesis using code [OF r4] by (simp add: add_keylist_def decode_def)
  next
    case 5
    then show ?thesis using assms(1) by (auto simp: add_keylist_def decode_def)
  qed
qed

text \<open>One command per item, in order. When \<open>send_command\<close> returns on a non-empty queue, the
  first item has left the queue and its command has been handed to \<open>send_write\<close>; the command fits
  its buffer and is the key event's code, or the item's characters between quotes with a backslash
  before every quote. The remaining presses are the presses after the first item's.\<close>

theorem send_command_first:
  assumes "key_inv ks (x # xs)" "send_command ks w = Inr (ks', w')"
  shows "\<exists>k s. item ks x = Some k \<and> key_command k = Inr s \<and> send_write (transport w) s w = Inr w'
    \<and> length s < CMD_SIZE \<and> key_inv ks' xs \<and> presses ks (x # xs) = item_presses k @ presses ks' xs
    \<and> (s = ''input keyevent '' @ dec_string (k_value k) @ [CHR 0x0D, CHR 0x0A, CHR '' '']
       \<or> s = ''input text '' @ [CHR 0x22] @ escape (take (k_count k) (k_text k))
            @ [CHR 0x22, CHR 0x0D, CHR 0x0A, CHR '' ''])"
proof -
  obtain kd where kd: "kheap ks x = Some kd" "item_ok kd" using key_inv_item [OF assms(1)] by auto
  obtain ks1 where sh: "shift_key ks = Inr (Some x, ks1)" "key_inv ks1 xs" "kheap ks1 = kheap ks"
    using shift_key_inv [OF assms(1)] by blast
  let ?k = "kd\<lparr>k_next := None\<rparr>"
  have it: "item ks x = Some ?k" using kd(1) by (simp add: item_def)
  have "item_ok ?k" using kd(2) by simp
  note cmd = key_command_ok [OF this]
  have same: "key_command kd = key_command ?k" using key_command_ok [OF kd(2)] cmd by simp
  obtain s where s: "key_command ?k = Inr s" using cmd by blast
  have "send_write (transport w) s w = Inr w'" "ks' = ks1"
    using assms(2) sh kd(1) s same by (auto simp: send_command_def set_key_def elim!: bindF_InrE)
  moreover have "presses ks (x # xs) = item_presses ?k @ presses ks1 xs"
  proof -
    have "item ks1 a = item ks a" for a using sh(3) by (simp add: item_def)
    then show ?thesis using it by (simp add: presses_def)
  qed
  moreover have "length (escape (take (k_count kd) (k_text kd))) \<le> 200"
    if "k_type kd \<noteq> KEY_EVENT"
    using length_escape [of "take (k_count kd) (k_text kd)"] kd(2) that
    by (auto simp: item_ok_def TEXT_SIZE_def)
  moreover have "length (dec_string (k_value kd)) \<le> 3" using dec_string_small [OF kd(2)] .
  then have "length s < CMD_SIZE"
    using calculation(4) cmd s by (auto simp: CMD_SIZE_def split: if_splits)
  ultimately show ?thesis using it s sh(2) cmd
    by (intro exI [of _ ?k] exI [of _ s]) (auto split: if_splits)
qed

section \<open>Witnesses\<close>

definition no_keys :: keys where
  "no_keys = \<lparr>kheap = Map.empty, kbrk = 0, k_malloc_ok = True, keylist = None, klast = None\<rparr>"

definition one_key :: keys where
  "one_key = \<lparr>kheap = [0 \<mapsto> zero_key\<lparr>k_type := KEY_TEXT, k_count := 1,
     k_text := (k_text zero_key)[0 := CHR 0x22]\<rparr>], kbrk = 1, k_malloc_ok = True,
     keylist = Some 0, klast = Some 0\<rparr>"

lemma key_inv_no_keys: "key_inv no_keys []"
  by (simp add: key_inv_def key_rep_def fifo_rep_Nil no_keys_def)

lemma key_inv_one_key: "key_inv one_key [0]"
  by (simp add: key_inv_def key_rep_def fifo_rep_def knexts_def one_key_def zero_key_def item_def
      item_ok_def TEXT_SIZE_def)

theorem keys_in_order_witness:
  "\<exists>w' ys. add_keylist 3 [CHR 0x1b, CHR 0x5b, CHR 0x41] no_keys = Inr w' \<and> presses w' ys = [Key 19]"
proof -
  have "k_malloc_ok no_keys" by (simp add: no_keys_def)
  from keys_in_order [OF key_inv_no_keys this, of 3 "[CHR 0x1b, CHR 0x5b, CHR 0x41]"]
  show ?thesis by (auto simp: presses_def decode_def code_3bytes_def)
qed

theorem send_command_first_witness:
  "\<exists>ks' w' s. send_command one_key sample_world = Inr (ks', w') \<and> key_inv ks' []
     \<and> send_write None s sample_world = Inr w' \<and> length s < CMD_SIZE"
proof -
  obtain ks' where sh: "shift_key one_key = Inr (Some 0, ks')" "kheap ks' = kheap one_key"
    using shift_key_inv [OF key_inv_one_key] by blast
  obtain kd where kd: "kheap one_key 0 = Some kd" "item_ok kd"
    using key_inv_item [OF key_inv_one_key, of 0] by auto
  obtain s where s: "key_command kd = Inr s" using key_command_ok [OF kd(2)] by blast
  have "send_write (transport sample_world) s sample_world = Inr sample_world"
    by (simp add: send_write_def sample_world_def)
  then have run: "send_command one_key sample_world = Inr (ks', sample_world)"
    using sh kd(1) s by (simp add: send_command_def set_key_def)
  have "transport sample_world = None" by (simp add: sample_world_def)
  with send_command_first [OF key_inv_one_key run] run show ?thesis by auto
qed

end
