(* ===== verification/Descriptor.thy ===== *)
theory Descriptor
  imports SyncIo
begin

text \<open>
  The descriptor parser of libusb (\<open>descriptor.c\<close>). A descriptor buffer is the list of the bytes
  allocated for it; the parser's buffer pointer is an index into it, and a read past its end is
  \<open>Inl OutOfBounds\<close>. The parser keeps the remaining \<open>sz\<close> as a C int next to the pointer, and the
  two can disagree with the buffer. What \<open>malloc\<close> and \<open>realloc\<close> answer is a script, and the number
  of blocks allocated is counted, so that ownership of the blocks can be stated.
\<close>

section \<open>Allocation\<close>

text \<open>\<open>grant\<close> lists what the next allocations answer, all of them succeeding past its end.\<close>

record allocs =
  grant :: "bool list"
  live :: int

definition next_grant :: "allocs \<Rightarrow> bool \<times> allocs" where
  "next_grant h = (case grant h of [] \<Rightarrow> (True, h) | b # bs \<Rightarrow> (b, h\<lparr>grant := bs\<rparr>))"

definition malloc :: "allocs \<Rightarrow> bool \<times> allocs" where
  "malloc h = (case next_grant h of (b, h') \<Rightarrow> (b, if b then h'\<lparr>live := live h' + 1\<rparr> else h'))"

definition free_block :: "allocs \<Rightarrow> allocs" where
  "free_block h = h\<lparr>live := live h - 1\<rparr>"

text \<open>\<open>realloc\<close> on a null pointer allocates; on a block it moves the block or fails.\<close>

definition realloc :: "bool \<Rightarrow> allocs \<Rightarrow> bool \<times> allocs" where
  "realloc null h = (if null then malloc h else next_grant h)"

section \<open>Reading a buffer\<close>

definition rd :: "u8 list \<Rightarrow> nat \<Rightarrow> fault + u8" where
  "rd buf i = (if i < length buf then Inr (buf ! i) else Inl OutOfBounds)"

definition copy_bytes :: "u8 list \<Rightarrow> nat \<Rightarrow> nat \<Rightarrow> fault + u8 list" where
  "copy_bytes buf i n = (if i + n \<le> length buf then Inr (take n (drop i buf)) else Inl OutOfBounds)"

text \<open>
  \<open>usbi_parse_descriptor\<close> follows a format string: \<open>b\<close> copies a byte, \<open>w\<close> a 16-bit word, converting
  it from little endian unless it is already in host order. The fields are listed in the order of
  the format; \<open>big\<close> says whether the host is big endian. The second result is the number of bytes
  read.
\<close>

datatype field = Byte u8 | Half u16

fun usbi_parse_descriptor :: "bool \<Rightarrow> u8 list \<Rightarrow> nat \<Rightarrow> string \<Rightarrow> bool \<Rightarrow> fault + field list \<times> nat" where
  "usbi_parse_descriptor big source at [] host_endian = Inr ([], 0)"
| "usbi_parse_descriptor big source at (c # cs) host_endian =
     (if c = CHR ''b''
      then bindF (rd source at) (\<lambda>b.
           bindF (usbi_parse_descriptor big source (at + 1) cs host_endian) (\<lambda>(fs, n).
             Inr (Byte b # fs, n + 1)))
      else if c = CHR ''w''
      then bindF (rd source at) (\<lambda>b0. bindF (rd source (at + 1)) (\<lambda>b1.
           bindF (usbi_parse_descriptor big source (at + 2) cs host_endian) (\<lambda>(fs, n).
             Inr (Half (if host_endian \<and> big then of_le16 b1 b0 else of_le16 b0 b1) # fs, n + 2))))
      else usbi_parse_descriptor big source at cs host_endian)"

fun byte_of :: "field \<Rightarrow> u8" where
  "byte_of (Byte b) = b"
| "byte_of (Half w) = ucast w"

fun half_of :: "field \<Rightarrow> u16" where
  "half_of (Byte b) = ucast b"
| "half_of (Half w) = w"

text \<open>The two-byte header of a descriptor: its length and its type.\<close>

definition header_at :: "u8 list \<Rightarrow> nat \<Rightarrow> fault + u8 \<times> u8" where
  "header_at buf at = bindF (usbi_parse_descriptor False buf at ''bb'' False) (\<lambda>(fs, n).
     Inr (byte_of (fs ! 0), byte_of (fs ! 1)))"

text \<open>The types at which the skipping of class and vendor descriptors stops.\<close>

definition proper :: "u8 \<Rightarrow> bool" where
  "proper t \<longleftrightarrow> t = DT_ENDPOINT \<or> t = DT_INTERFACE \<or> t = DT_CONFIG \<or> t = DT_DEVICE"

text \<open>
  Skipping class and vendor descriptors: the position and the size where it stops, or \<open>None\<close> for a
  descriptor of invalid length. Only \<open>parse_configuration\<close> (\<open>strict\<close>) checks that the descriptor is
  not longer than the remaining sz.
\<close>

function skip_loop :: "bool \<Rightarrow> u8 list \<Rightarrow> nat \<Rightarrow> int \<Rightarrow> fault + (nat \<times> int) option" where
  "skip_loop strict buf at sz =
     (if sz < 2 then Inr (Some (at, sz))
      else bindF (header_at buf at) (\<lambda>(l, t).
        if (strict \<and> uint l > sz) \<or> uint l < 2 then Inr None
        else if proper t then Inr (Some (at, sz))
        else skip_loop strict buf (at + unat l) (sz - uint l)))"
  by pat_completeness auto
termination
  by (relation "measure (\<lambda>(strict, buf, at, sz). nat sz)") auto

declare skip_loop.simps [simp del]

text \<open>The class and vendor descriptors from \<open>begin\<close> to \<open>at\<close>, copied for drivers.\<close>

definition copy_extra :: "u8 list \<Rightarrow> nat \<Rightarrow> nat \<Rightarrow> allocs \<Rightarrow> fault + u8 list option \<times> allocs" where
  "copy_extra buf begin at h =
     (if at = begin then Inr (Some [], h)
      else (case malloc h of
          (False, h1) \<Rightarrow> Inr (None, h1)
        | (True, h1) \<Rightarrow> bindF (copy_bytes buf begin (at - begin)) (\<lambda>x. Inr (Some x, h1))))"

section \<open>Endpoints\<close>

definition zero_endpoint :: endpoint_descriptor where
  "zero_endpoint = \<lparr>ed_bLength = 0, ed_bDescriptorType = 0, bEndpointAddress = 0, bmAttributes = 0,
     wMaxPacketSize = 0, bInterval = 0, bRefresh = 0, bSynchAddress = 0, ed_extra = []\<rparr>"

text \<open>The fields of an endpoint: all of them, all but the two of audio endpoints, or none.\<close>

definition endpoint_fields ::
    "bool \<Rightarrow> bool \<Rightarrow> u8 list \<Rightarrow> nat \<Rightarrow> u8 \<Rightarrow> endpoint_descriptor \<Rightarrow> fault + endpoint_descriptor" where
  "endpoint_fields big host_endian buf at l e =
     (if uint l \<ge> 9
      then bindF (usbi_parse_descriptor big buf at ''bbbbwbbb'' host_endian) (\<lambda>(fs, n).
        Inr (e\<lparr>ed_bLength := byte_of (fs ! 0), ed_bDescriptorType := byte_of (fs ! 1),
               bEndpointAddress := byte_of (fs ! 2), bmAttributes := byte_of (fs ! 3),
               wMaxPacketSize := half_of (fs ! 4), bInterval := byte_of (fs ! 5),
               bRefresh := byte_of (fs ! 6), bSynchAddress := byte_of (fs ! 7)\<rparr>))
      else if uint l \<ge> 7
      then bindF (usbi_parse_descriptor big buf at ''bbbbwb'' host_endian) (\<lambda>(fs, n).
        Inr (e\<lparr>ed_bLength := byte_of (fs ! 0), ed_bDescriptorType := byte_of (fs ! 1),
               bEndpointAddress := byte_of (fs ! 2), bmAttributes := byte_of (fs ! 3),
               wMaxPacketSize := half_of (fs ! 4), bInterval := byte_of (fs ! 5)\<rparr>))
      else Inr e)"

text \<open>A non-negative result is the number of bytes parsed.\<close>

definition parse_endpoint ::
    "bool \<Rightarrow> endpoint_descriptor \<Rightarrow> u8 list \<Rightarrow> nat \<Rightarrow> int \<Rightarrow> bool \<Rightarrow> allocs
     \<Rightarrow> fault + int \<times> endpoint_descriptor \<times> allocs" where
  "parse_endpoint big e buf at sz host_endian h =
     bindF (header_at buf at) (\<lambda>(l, t).
       if uint l > sz then Inr (-1, e, h)
       else if t \<noteq> DT_ENDPOINT then Inr (0, e, h)
       else bindF (endpoint_fields big host_endian buf at l e) (\<lambda>e1.
         let begin = at + unat l
         in bindF (skip_loop False buf begin (sz - uint l)) (\<lambda>stop. case stop of
              None \<Rightarrow> Inr (-1, e1, h)
            | Some (at', sz') \<Rightarrow>
                bindF (copy_extra buf begin at' h) (\<lambda>(x, h1). case x of
                    None \<Rightarrow> Inr (rc LIBUSB_ERROR_NO_MEM, e1\<lparr>ed_extra := []\<rparr>, h1)
                  | Some xs \<Rightarrow> Inr (int (at' - at), e1\<lparr>ed_extra := xs\<rparr>, h1)))))"

definition clear_endpoint :: "endpoint_descriptor \<Rightarrow> allocs \<Rightarrow> allocs" where
  "clear_endpoint e h = (if ed_extra e \<noteq> [] then free_block h else h)"

section \<open>Interfaces\<close>

definition USB_MAXENDPOINTS :: int where "USB_MAXENDPOINTS = 32"
definition USB_MAXINTERFACES :: int where "USB_MAXINTERFACES = 32"

text \<open>\<open>for (j = 0; j < bNumEndpoints; j++) clear_endpoint(endpoint + j)\<close>, with \<open>k\<close> rounds left.\<close>

fun clear_endpoints :: "endpoint_descriptor list \<Rightarrow> nat \<Rightarrow> nat \<Rightarrow> allocs \<Rightarrow> fault + allocs" where
  "clear_endpoints eps j 0 h = Inr h"
| "clear_endpoints eps j (Suc k) h =
     (if length eps \<le> j then Inl OutOfBounds
      else clear_endpoints eps (Suc j) k (clear_endpoint (eps ! j) h))"

definition clear_altsetting :: "interface_descriptor \<Rightarrow> allocs \<Rightarrow> fault + allocs" where
  "clear_altsetting ifp h =
     (let h1 = (if id_extra ifp \<noteq> [] then free_block h else h)
      in if endpoint ifp \<noteq> []
         then bindF (clear_endpoints (endpoint ifp) 0 (unat (bNumEndpoints ifp)) h1) (\<lambda>h2.
           Inr (free_block h2))
         else Inr h1)"

fun clear_altsettings :: "interface_descriptor list \<Rightarrow> nat \<Rightarrow> nat \<Rightarrow> allocs \<Rightarrow> fault + allocs" where
  "clear_altsettings alts i 0 h = Inr h"
| "clear_altsettings alts i (Suc k) h =
     (if length alts \<le> i then Inl OutOfBounds
      else bindF (clear_altsetting (alts ! i) h) (clear_altsettings alts (Suc i) k))"

text \<open>The pointer is cleared, the number of settings is not.\<close>

definition clear_interface :: "usb_interface \<Rightarrow> allocs \<Rightarrow> fault + usb_interface \<times> allocs" where
  "clear_interface ifc h =
     (if altsetting ifc = [] then Inr (ifc, h)
      else bindF (clear_altsettings (altsetting ifc) 0 (num_altsetting ifc) h) (\<lambda>h1.
        Inr (ifc\<lparr>altsetting := []\<rparr>, free_block h1)))"

text \<open>The loop over the endpoints of a setting, with \<open>k\<close> rounds left; a negative result is the error.\<close>

fun endpoints_loop ::
    "bool \<Rightarrow> bool \<Rightarrow> u8 list \<Rightarrow> nat \<Rightarrow> nat \<Rightarrow> nat \<Rightarrow> int \<Rightarrow> endpoint_descriptor list \<Rightarrow> allocs
     \<Rightarrow> fault + int \<times> nat \<times> int \<times> endpoint_descriptor list \<times> allocs" where
  "endpoints_loop big host_endian buf i 0 at sz eps h = Inr (0, at, sz, eps, h)"
| "endpoints_loop big host_endian buf i (Suc k) at sz eps h =
     bindF (header_at buf at) (\<lambda>(l, t).
       if uint l > sz then Inr (rc LIBUSB_ERROR_IO, at, sz, eps, h)
       else bindF (parse_endpoint big (eps ! i) buf at sz host_endian h) (\<lambda>(r, e, h1).
         if r < 0 then Inr (r, at, sz, eps[i := e], h1)
         else endpoints_loop big host_endian buf (Suc i) k (at + nat r) (sz - r) (eps[i := e]) h1))"

text \<open>How one round of \<open>parse_interface\<close> ends: by \<open>goto err\<close>, by \<open>return parsed\<close>, or with another round.\<close>

datatype round_end = Err int | Return | Again

text \<open>The nine fields of a setting, its pointers cleared.\<close>

definition interface_fields :: "bool \<Rightarrow> u8 list \<Rightarrow> nat \<Rightarrow> fault + interface_descriptor" where
  "interface_fields big buf at =
     bindF (usbi_parse_descriptor big buf at ''bbbbbbbbb'' False) (\<lambda>(fs, n).
       Inr \<lparr>id_bLength = byte_of (fs ! 0), id_bDescriptorType = byte_of (fs ! 1),
            bInterfaceNumber = byte_of (fs ! 2), bAlternateSetting = byte_of (fs ! 3),
            bNumEndpoints = byte_of (fs ! 4), bInterfaceClass = byte_of (fs ! 5),
            bInterfaceSubClass = byte_of (fs ! 6), bInterfaceProtocol = byte_of (fs ! 7),
            iInterface = byte_of (fs ! 8), endpoint = [], id_extra = []\<rparr>)"

text \<open>The array of endpoints of a setting, and the check for another setting behind it.\<close>

definition parse_endpoints ::
    "bool \<Rightarrow> bool \<Rightarrow> u8 list \<Rightarrow> nat \<Rightarrow> int \<Rightarrow> interface_descriptor \<Rightarrow> allocs
     \<Rightarrow> fault + int \<times> nat \<times> int \<times> interface_descriptor \<times> allocs" where
  "parse_endpoints big host_endian buf at sz ifp h =
     (if unat (bNumEndpoints ifp) = 0 then Inr (0, at, sz, ifp, h)
      else (case malloc h of
          (False, h1) \<Rightarrow> Inr (rc LIBUSB_ERROR_NO_MEM, at, sz, ifp, h1)
        | (True, h1) \<Rightarrow>
            bindF (endpoints_loop big host_endian buf 0 (unat (bNumEndpoints ifp)) at sz
                     (replicate (unat (bNumEndpoints ifp)) zero_endpoint) h1)
              (\<lambda>(r, at', sz', eps, h2). Inr (r, at', sz', ifp\<lparr>endpoint := eps\<rparr>, h2))))"

definition another_setting :: "u8 list \<Rightarrow> nat \<Rightarrow> int \<Rightarrow> fault + bool" where
  "another_setting buf at sz =
     (if sz < 9 then Inr False
      else bindF (rd buf (at + 1)) (\<lambda>t.
        if t \<noteq> DT_INTERFACE then Inr False else bindF (rd buf (at + 3)) (\<lambda>a. Inr (a \<noteq> 0))))"

definition add_setting :: "usb_interface \<Rightarrow> interface_descriptor \<Rightarrow> usb_interface" where
  "add_setting ifc ifp =
     ifc\<lparr>altsetting := altsetting ifc @ [ifp], num_altsetting := num_altsetting ifc + 1\<rparr>"

text \<open>One round of \<open>parse_interface\<close>: a setting with its class descriptors and, in
  \<open>setting_tail\<close>, its endpoints.\<close>

definition setting_tail ::
    "bool \<Rightarrow> usb_interface \<Rightarrow> interface_descriptor \<Rightarrow> u8 list \<Rightarrow> nat \<Rightarrow> int \<Rightarrow> bool \<Rightarrow> allocs
     \<Rightarrow> fault + round_end \<times> nat \<times> int \<times> usb_interface \<times> allocs" where
  "setting_tail big ifc ifp buf at sz host_endian h =
     bindF (header_at buf at) (\<lambda>(l, t).
       if sz \<ge> 2 \<and> (t = DT_CONFIG \<or> t = DT_DEVICE)
       then Inr (Return, at, sz, add_setting ifc ifp, h)
       else if uint (bNumEndpoints ifp) > USB_MAXENDPOINTS
       then Inr (Err (rc LIBUSB_ERROR_IO), at, sz, add_setting ifc ifp, h)
       else bindF (parse_endpoints big host_endian buf at sz ifp h) (\<lambda>(r, at', sz', ifp', h').
         if r < 0 then Inr (Err r, at', sz', add_setting ifc ifp', h')
         else bindF (another_setting buf at' sz') (\<lambda>b.
           Inr (if b then Again else Return, at', sz', add_setting ifc ifp', h'))))"

definition parse_setting ::
    "bool \<Rightarrow> usb_interface \<Rightarrow> u8 list \<Rightarrow> nat \<Rightarrow> int \<Rightarrow> bool \<Rightarrow> allocs
     \<Rightarrow> fault + round_end \<times> nat \<times> int \<times> usb_interface \<times> allocs" where
  "parse_setting big ifc buf at sz host_endian h =
     (case realloc (altsetting ifc = []) h of
        (False, h1) \<Rightarrow> Inr (Err (rc LIBUSB_ERROR_NO_MEM), at, sz, ifc, h1)
      | (True, h1) \<Rightarrow>
          bindF (interface_fields big buf at) (\<lambda>ifp.
          let begin = at + unat (id_bLength ifp); rest = sz - uint (id_bLength ifp)
          in bindF (skip_loop False buf begin rest) (\<lambda>stop. case stop of
               None \<Rightarrow> Inr (Err (rc LIBUSB_ERROR_IO), begin, rest, add_setting ifc ifp, h1)
             | Some (at1, sz1) \<Rightarrow>
                 bindF (copy_extra buf begin at1 h1) (\<lambda>(x, h2). case x of
                   None \<Rightarrow> Inr (Err (rc LIBUSB_ERROR_NO_MEM), at1, sz1, add_setting ifc ifp, h2)
                 | Some xs \<Rightarrow>
                     setting_tail big ifc (ifp\<lparr>id_extra := xs\<rparr>) buf at1 sz1 host_endian h2))))"

text \<open>Every further round has a smaller size left, so that the loop over the settings ends.\<close>

lemma header_at_eq:
  "header_at buf at = (if at + 1 < length buf then Inr (buf ! at, buf ! (at + 1)) else Inl OutOfBounds)"
  by (simp add: header_at_def rd_def)

lemma skip_loop_le:
  "skip_loop strict buf at sz = Inr (Some (at', sz')) \<Longrightarrow>
     at \<le> at' \<and> sz' \<le> sz \<and> int at' + sz' = int at + sz"
proof (induction strict buf at sz rule: skip_loop.induct)
  case (1 strict buf at sz)
  show ?case
  proof (cases "sz < 2")
    case True
    with "1.prems" show ?thesis by (simp add: skip_loop.simps [of _ _ _ sz])
  next
    case False
    with "1.prems" obtain l t where lt: "header_at buf at = Inr (l, t)"
      by (subst (asm) skip_loop.simps) (auto simp: fault_simps)
    show ?thesis
    proof (cases "proper t")
      case True
      with False lt "1.prems" show ?thesis
        by (subst (asm) skip_loop.simps) (auto split: if_splits)
    next
      case np: False
      with False lt "1.prems" have c: "\<not> ((strict \<and> uint l > sz) \<or> uint l < 2)"
        and step: "skip_loop strict buf (at + unat l) (sz - uint l) = Inr (Some (at', sz'))"
        by (subst (asm) skip_loop.simps, auto split: if_splits)+
      from "1.IH" [OF False lt refl c np step] c show ?thesis
        by simp
    qed
  qed
qed

lemma copy_extra_len:
  "copy_extra buf begin at h = Inr (Some xs, h') \<Longrightarrow> begin \<le> at \<Longrightarrow> length xs = at - begin"
  by (auto simp: copy_extra_def copy_bytes_def fault_simps split: if_splits prod.splits bool.splits)

lemma parse_endpoint_le:
  assumes run: "parse_endpoint big e buf at sz he h = Inr (r, e', h')" and r: "0 < r"
  shows "\<exists>at' sz'. skip_loop False buf (at + unat (buf ! at)) (sz - uint (buf ! at)) = Inr (Some (at', sz'))
    \<and> at' = at + nat r \<and> sz' = sz - r \<and> at + unat (buf ! at) \<le> at'"
proof -
  from run obtain l t where lt: "header_at buf at = Inr (l, t)"
    by (auto simp: parse_endpoint_def elim!: bindF_InrE)
  then have l: "l = buf ! at" by (simp add: header_at_eq split: if_splits)
  from run r lt obtain e1 stop where f: "endpoint_fields big he buf at l e = Inr e1"
    and s: "skip_loop False buf (at + unat l) (sz - uint l) = Inr stop"
    by (auto simp: parse_endpoint_def Let_def elim!: bindF_InrE split: if_splits)
  from run r lt f s obtain at' sz' where "stop = Some (at', sz')" and "r = int (at' - at)"
    by (auto simp: parse_endpoint_def Let_def elim!: bindF_InrE split: if_splits option.splits)
  with s skip_loop_le [of False buf "at + unat l" "sz - uint l" at' sz'] show ?thesis
    by (auto simp: l)
qed

lemma endpoints_loop_le:
  "endpoints_loop big he buf i k at sz eps h = Inr (r, at', sz', eps', h') \<Longrightarrow> 0 \<le> r \<Longrightarrow>
     at \<le> at' \<and> sz' \<le> sz \<and> int at' + sz' = int at + sz"
proof (induction k arbitrary: i at sz eps h)
  case (Suc k)
  from Suc.prems obtain l t where lt: "header_at buf at = Inr (l, t)"
    by (auto elim!: bindF_InrE)
  with Suc.prems obtain r1 e1 h1 where pe: "parse_endpoint big (eps ! i) buf at sz he h = Inr (r1, e1, h1)"
    by (auto elim!: bindF_InrE split: if_splits)
  from Suc.prems lt pe have r1: "0 \<le> r1" and step:
      "endpoints_loop big he buf (Suc i) k (at + nat r1) (sz - r1) (eps[i := e1]) h1
        = Inr (r, at', sz', eps', h')"
    by (auto split: if_splits)
  from Suc.IH [OF step Suc.prems(2)] r1 show ?case by auto
qed simp

lemma skip_loop_zero:
  "skip_loop strict buf at sz = Inr (Some (at', sz')) \<Longrightarrow> 2 \<le> sz \<Longrightarrow> 2 \<le> uint (buf ! at)"
  by (subst (asm) skip_loop.simps) (auto simp: header_at_eq fault_simps split: if_splits)

lemma interface_fields_eq:
  "interface_fields big buf at = Inr ifp \<Longrightarrow> id_bLength ifp = buf ! at \<and> endpoint ifp = [] \<and> id_extra ifp = []
     \<and> at + 8 < length buf"
  by (auto simp: interface_fields_def rd_def fault_simps split: if_splits)

lemma parse_endpoints_le:
  "parse_endpoints big he buf at sz ifp h = Inr (r, at', sz', ifp', h') \<Longrightarrow> 0 \<le> r \<Longrightarrow>
     at \<le> at' \<and> sz' \<le> sz \<and> int at' + sz' = int at + sz"
  by (auto simp: parse_endpoints_def elim!: bindF_InrE split: if_splits prod.splits bool.splits
      dest: endpoints_loop_le)

lemma another_setting_9: "another_setting buf at sz = Inr True \<Longrightarrow> 9 \<le> sz"
  by (auto simp: another_setting_def split: if_splits)

lemma setting_tail_le:
  assumes run: "setting_tail big ifc ifp buf at sz he h = Inr (Again, at', sz', ifc', h')"
  shows "9 \<le> sz' \<and> sz' \<le> sz"
proof -
  from run obtain l t where lt: "header_at buf at = Inr (l, t)"
    by (auto simp: setting_tail_def elim!: bindF_InrE)
  with run obtain r at2 sz2 ifp2 h3
    where p: "parse_endpoints big he buf at sz ifp h = Inr (r, at2, sz2, ifp2, h3)"
    by (auto simp: setting_tail_def elim!: bindF_InrE split: if_splits)
  with run lt have "0 \<le> r" "sz' = sz2" "another_setting buf at2 sz2 = Inr True"
    by (auto simp: setting_tail_def elim!: bindF_InrE split: if_splits)
  with parse_endpoints_le [OF p] another_setting_9 show ?thesis by simp
qed

lemma parse_setting_inv:
  assumes run: "parse_setting big ifc buf at sz he h = Inr (Again, at', sz', ifc', h')"
  obtains at1 sz1 where "skip_loop False buf (at + unat (buf ! at)) (sz - uint (buf ! at)) = Inr (Some (at1, sz1))"
    and "sz' \<le> sz1" and "9 \<le> sz'"
proof -
  obtain b h1 where ra: "realloc (altsetting ifc = []) h = (b, h1)" by fastforce
  with run have b: b by (cases b) (auto simp: parse_setting_def)
  from run ra b obtain ifp where f: "interface_fields big buf at = Inr ifp"
    by (auto simp: parse_setting_def elim!: bindF_InrE)
  then have l: "id_bLength ifp = buf ! at" by (simp add: interface_fields_eq)
  let ?b = "at + unat (buf ! at)" and ?r = "sz - uint (buf ! at)"
  from run ra b f l obtain stop where s: "skip_loop False buf ?b ?r = Inr stop"
    by (auto simp: parse_setting_def Let_def elim!: bindF_InrE)
  with run ra b f l obtain at1 sz1 where s1: "stop = Some (at1, sz1)"
    by (cases stop) (auto simp: parse_setting_def Let_def)
  from run ra b f l s s1 obtain x h2 where x: "copy_extra buf ?b at1 h1 = Inr (x, h2)"
    by (auto simp: parse_setting_def Let_def elim!: bindF_InrE)
  with run ra b f l s s1 obtain xs where x1: "x = Some xs"
    by (cases x) (auto simp: parse_setting_def Let_def)
  from run ra b f l s s1 x x1
  have "setting_tail big ifc (ifp\<lparr>id_extra := xs\<rparr>) buf at1 sz1 he h2 = Inr (Again, at', sz', ifc', h')"
    by (simp add: parse_setting_def Let_def)
  from that [OF s [unfolded s1]] setting_tail_le [OF this] show thesis by simp
qed

lemma parse_setting_decreases:
  assumes "parse_setting big ifc buf at sz he h = Inr (Again, at', sz', ifc', h')"
  shows "9 \<le> sz' \<and> sz' < sz"
proof -
  from assms obtain at1 sz1 where s: "skip_loop False buf (at + unat (buf ! at)) (sz - uint (buf ! at))
        = Inr (Some (at1, sz1))" and le: "sz' \<le> sz1" and sz': "9 \<le> sz'"
    by (rule parse_setting_inv) auto
  show ?thesis
  proof (cases "buf ! at = 0")
    case True
    with s le sz' skip_loop_le [OF s] skip_loop_zero [of False buf at sz at1 sz1] show ?thesis by simp
  next
    case False
    then have "0 < uint (buf ! at)" by (simp add: word_neq_0_conv word_less_def)
    with skip_loop_le [OF s] le sz' show ?thesis by simp
  qed
qed

text \<open>The loop over the settings of an interface; \<open>start\<close> is where the interface began.\<close>

function interface_loop ::
    "bool \<Rightarrow> usb_interface \<Rightarrow> u8 list \<Rightarrow> nat \<Rightarrow> nat \<Rightarrow> int \<Rightarrow> bool \<Rightarrow> allocs
     \<Rightarrow> fault + int \<times> usb_interface \<times> allocs" where
  "interface_loop big ifc buf start at sz host_endian h =
     (if sz < 9 then Inr (int (at - start), ifc, h)
      else bindF (parse_setting big ifc buf at sz host_endian h) (\<lambda>(e, at', sz', ifc', h').
        if e = Again then interface_loop big ifc' buf start at' sz' host_endian h'
        else (case e of
            Err r \<Rightarrow> bindF (clear_interface ifc' h') (\<lambda>(ifc2, h2). Inr (r, ifc2, h2))
          | _ \<Rightarrow> Inr (int (at' - start), ifc', h'))))"
  by pat_completeness auto
termination
  by (relation "measure (\<lambda>(big, ifc, buf, start, at, sz, he, h). nat sz)")
    (auto dest: parse_setting_decreases)

declare interface_loop.simps [simp del]

definition parse_interface ::
    "bool \<Rightarrow> usb_interface \<Rightarrow> u8 list \<Rightarrow> nat \<Rightarrow> int \<Rightarrow> bool \<Rightarrow> allocs
     \<Rightarrow> fault + int \<times> usb_interface \<times> allocs" where
  "parse_interface big ifc buf at sz host_endian h =
     interface_loop big (ifc\<lparr>num_altsetting := 0\<rparr>) buf at at sz host_endian h"

section \<open>Configurations\<close>

text \<open>
  A configuration as the parser leaves it: \<open>interface_ptr\<close> says whether the pointer to the array of
  interfaces is set, since the array of a configuration without interfaces is a block as well.
\<close>

record parsed_config = config_descriptor +
  interface_ptr :: bool

definition zero_interface :: usb_interface where
  "zero_interface = \<lparr>altsetting = [], num_altsetting = 0\<rparr>"

definition config_fields :: "bool \<Rightarrow> u8 list \<Rightarrow> bool \<Rightarrow> fault + parsed_config" where
  "config_fields big buf host_endian =
     bindF (usbi_parse_descriptor big buf 0 ''bbwbbbbb'' host_endian) (\<lambda>(fs, n).
       Inr \<lparr>cd_bLength = byte_of (fs ! 0), cd_bDescriptorType = byte_of (fs ! 1),
            wTotalLength = half_of (fs ! 2), bNumInterfaces = byte_of (fs ! 3),
            bConfigurationValue = byte_of (fs ! 4), iConfiguration = byte_of (fs ! 5),
            cd_bmAttributes = byte_of (fs ! 6), MaxPower = byte_of (fs ! 7),
            interface = [], cd_extra = [], interface_ptr = False\<rparr>)"

fun clear_interfaces :: "usb_interface list \<Rightarrow> nat \<Rightarrow> nat \<Rightarrow> allocs \<Rightarrow> fault + allocs" where
  "clear_interfaces ifs i 0 h = Inr h"
| "clear_interfaces ifs i (Suc k) h =
     (if length ifs \<le> i then Inl OutOfBounds
      else bindF (clear_interface (ifs ! i) h) (\<lambda>(_, h1). clear_interfaces ifs (Suc i) k h1))"

definition clear_configuration :: "parsed_config \<Rightarrow> allocs \<Rightarrow> fault + allocs" where
  "clear_configuration c h =
     bindF (if interface_ptr c
            then bindF (clear_interfaces (interface c) 0 (unat (bNumInterfaces c)) h) (\<lambda>h1.
              Inr (free_block h1))
            else Inr h) (\<lambda>h2.
       Inr (if cd_extra c \<noteq> [] then free_block h2 else h2))"

text \<open>Only the first class and vendor descriptors of a configuration are kept.\<close>

definition keep_extra :: "u8 list \<Rightarrow> nat \<Rightarrow> nat \<Rightarrow> parsed_config \<Rightarrow> allocs \<Rightarrow> fault + bool \<times> parsed_config \<times> allocs"
  where
  "keep_extra buf begin at c h =
     (if at = begin \<or> cd_extra c \<noteq> [] then Inr (True, c, h)
      else bindF (copy_extra buf begin at h) (\<lambda>(x, h1). case x of
          None \<Rightarrow> Inr (False, c, h1)
        | Some xs \<Rightarrow> Inr (True, c\<lparr>cd_extra := xs\<rparr>, h1)))"

text \<open>The loop over the interfaces, with \<open>k\<close> rounds left: an error or 0, and the size left.\<close>

fun config_loop ::
    "bool \<Rightarrow> u8 list \<Rightarrow> bool \<Rightarrow> nat \<Rightarrow> nat \<Rightarrow> nat \<Rightarrow> int \<Rightarrow> parsed_config \<Rightarrow> allocs
     \<Rightarrow> fault + int \<times> int \<times> parsed_config \<times> allocs" where
  "config_loop big buf host_endian i 0 at sz c h = Inr (0, sz, c, h)"
| "config_loop big buf host_endian i (Suc k) at sz c h =
     bindF (skip_loop True buf at sz) (\<lambda>stop. case stop of
         None \<Rightarrow> Inr (rc LIBUSB_ERROR_IO, sz, c, h)
       | Some (at1, sz1) \<Rightarrow>
           bindF (keep_extra buf at at1 c h) (\<lambda>(ok, c1, h1).
             if \<not> ok then Inr (rc LIBUSB_ERROR_NO_MEM, sz1, c1, h1)
             else bindF (parse_interface big (interface c1 ! i) buf at1 sz1 host_endian h1)
               (\<lambda>(r, ifc, h2).
                let c2 = c1\<lparr>interface := (interface c1)[i := ifc]\<rparr>
                in if r < 0 then Inr (r, sz1, c2, h2)
                   else config_loop big buf host_endian (Suc i) k (at1 + nat r) (sz1 - r) c2 h2)))"

definition parse_configuration ::
    "bool \<Rightarrow> u8 list \<Rightarrow> bool \<Rightarrow> allocs \<Rightarrow> fault + int \<times> parsed_config \<times> allocs" where
  "parse_configuration big buf host_endian h =
     bindF (config_fields big buf host_endian) (\<lambda>c.
       if uint (bNumInterfaces c) > USB_MAXINTERFACES then Inr (rc LIBUSB_ERROR_IO, c, h)
       else (case malloc h of
           (False, h1) \<Rightarrow> Inr (rc LIBUSB_ERROR_NO_MEM, c, h1)
         | (True, h1) \<Rightarrow>
             let n = unat (bNumInterfaces c);
                 c1 = c\<lparr>interface := replicate n zero_interface, interface_ptr := True\<rparr>
             in bindF (config_loop big buf host_endian 0 n (unat (cd_bLength c))
                         (uint (wTotalLength c) - uint (cd_bLength c)) c1 h1)
                  (\<lambda>(r, sz', c2, h2).
                   if r < 0 then bindF (clear_configuration c2 h2) (\<lambda>h3. Inr (r, c2, h3))
                   else Inr (sz', c2, h2))))"

section \<open>Ownership of blocks\<close>

text \<open>The blocks a parsed descriptor owns, and when its arrays agree with its counts.\<close>

definition owned_extra :: "u8 list \<Rightarrow> int" where
  "owned_extra xs = (if xs = [] then 0 else 1)"

definition owned_endpoints :: "endpoint_descriptor list \<Rightarrow> int" where
  "owned_endpoints eps = (\<Sum>e\<leftarrow>eps. owned_extra (ed_extra e))"

definition owned_setting :: "interface_descriptor \<Rightarrow> int" where
  "owned_setting a = owned_extra (id_extra a) +
     (if endpoint a = [] then 0 else owned_endpoints (endpoint a) + 1)"

definition owned_interface :: "usb_interface \<Rightarrow> int" where
  "owned_interface ifc =
     (if altsetting ifc = [] then 0 else (\<Sum>a\<leftarrow>altsetting ifc. owned_setting a) + 1)"

definition owned_config :: "parsed_config \<Rightarrow> int" where
  "owned_config c = owned_extra (cd_extra c) +
     (if interface_ptr c then (\<Sum>i\<leftarrow>interface c. owned_interface i) + 1 else 0)"

definition wf_setting :: "interface_descriptor \<Rightarrow> bool" where
  "wf_setting a \<longleftrightarrow> (endpoint a \<noteq> [] \<longrightarrow> length (endpoint a) = unat (bNumEndpoints a))"

definition wf_interface :: "usb_interface \<Rightarrow> bool" where
  "wf_interface ifc \<longleftrightarrow> (altsetting ifc \<noteq> [] \<longrightarrow> length (altsetting ifc) = num_altsetting ifc)
     \<and> list_all wf_setting (altsetting ifc)"

definition wf_config :: "parsed_config \<Rightarrow> bool" where
  "wf_config c \<longleftrightarrow> (interface_ptr c \<longrightarrow> length (interface c) = unat (bNumInterfaces c))
     \<and> list_all wf_interface (interface c)"

lemma owned_extra_Nil [simp]: "owned_extra [] = 0"
  by (simp add: owned_extra_def)

lemma free_block_live [simp]: "free_block (h\<lparr>live := n\<rparr>) = h\<lparr>live := n - 1\<rparr>"
  by (simp add: free_block_def)

lemma clear_endpoint_eq: "clear_endpoint e h = h\<lparr>live := live h - owned_extra (ed_extra e)\<rparr>"
  by (simp add: clear_endpoint_def free_block_def owned_extra_def)

lemma clear_endpoints_eq:
  "j + k \<le> length eps \<Longrightarrow>
     clear_endpoints eps j k h = Inr (h\<lparr>live := live h - owned_endpoints (take k (drop j eps))\<rparr>)"
proof (induction k arbitrary: j h)
  case (Suc k)
  then have "drop j eps = eps ! j # drop (Suc j) eps" by (simp add: Cons_nth_drop_Suc)
  with Suc show ?case by (simp add: clear_endpoint_eq owned_endpoints_def algebra_simps)
qed (simp add: owned_endpoints_def)

lemma clear_altsetting_eq:
  "wf_setting a \<Longrightarrow> clear_altsetting a h = Inr (h\<lparr>live := live h - owned_setting a\<rparr>)"
  by (auto simp: clear_altsetting_def wf_setting_def owned_setting_def owned_extra_def Let_def
      clear_endpoints_eq free_block_def)

lemma clear_altsettings_eq:
  "i + k \<le> length alts \<Longrightarrow> list_all wf_setting alts \<Longrightarrow>
     clear_altsettings alts i k h
       = Inr (h\<lparr>live := live h - (\<Sum>a\<leftarrow>take k (drop i alts). owned_setting a)\<rparr>)"
proof (induction k arbitrary: i h)
  case (Suc k)
  then have "drop i alts = alts ! i # drop (Suc i) alts" by (simp add: Cons_nth_drop_Suc)
  with Suc show ?case by (simp add: clear_altsetting_eq list_all_length algebra_simps)
qed simp

lemma clear_interface_eq:
  "wf_interface ifc \<Longrightarrow>
     clear_interface ifc h = Inr (ifc\<lparr>altsetting := []\<rparr>, h\<lparr>live := live h - owned_interface ifc\<rparr>)"
  by (auto simp: clear_interface_def wf_interface_def owned_interface_def clear_altsettings_eq)

lemma clear_interfaces_eq:
  "i + k \<le> length ifs \<Longrightarrow> list_all wf_interface ifs \<Longrightarrow>
     clear_interfaces ifs i k h
       = Inr (h\<lparr>live := live h - (\<Sum>x\<leftarrow>take k (drop i ifs). owned_interface x)\<rparr>)"
proof (induction k arbitrary: i h)
  case (Suc k)
  then have "drop i ifs = ifs ! i # drop (Suc i) ifs" by (simp add: Cons_nth_drop_Suc)
  with Suc show ?case by (simp add: clear_interface_eq list_all_length algebra_simps)
qed simp

lemma clear_configuration_eq:
  "wf_config c \<Longrightarrow> clear_configuration c h = Inr (h\<lparr>live := live h - owned_config c\<rparr>)"
  by (auto simp: clear_configuration_def wf_config_def owned_config_def owned_extra_def
      clear_interfaces_eq free_block_def)

text \<open>Allocation is counted by what the parsed data own.\<close>

lemma next_grant_live: "next_grant h = (b, h1) \<Longrightarrow> live h1 = live h"
  by (auto simp: next_grant_def split: list.splits)

lemma malloc_live: "malloc h = (b, h1) \<Longrightarrow> live h1 = live h + (if b then 1 else 0)"
  by (auto simp: malloc_def split: prod.splits if_splits dest: next_grant_live)

lemma realloc_live: "realloc null h = (b, h1) \<Longrightarrow> live h1 = live h + (if null \<and> b then 1 else 0)"
  by (auto simp: realloc_def split: if_splits dest: next_grant_live malloc_live)

lemma sum_list_map_update:
  fixes f :: "'a \<Rightarrow> int"
  shows "i < length xs \<Longrightarrow> (\<Sum>x\<leftarrow>xs[i := y]. f x) = (\<Sum>x\<leftarrow>xs. f x) + f y - f (xs ! i)"
  by (induction xs arbitrary: i) (auto split: nat.splits)

lemma copy_extra_live:
  assumes "copy_extra buf begin at h = Inr (x, h1)" and "begin \<le> at"
  shows "live h1 = live h + (case x of None \<Rightarrow> 0 | Some xs \<Rightarrow> owned_extra xs)"
  using assms
  by (auto simp: copy_extra_def copy_bytes_def owned_extra_def fault_simps split: if_splits prod.splits bool.splits
      dest: malloc_live)

lemma endpoint_fields_extra:
  "endpoint_fields big he buf at l e = Inr e1 \<Longrightarrow> ed_extra e1 = ed_extra e"
  by (auto simp: endpoint_fields_def elim!: bindF_InrE split: if_splits)

lemma parse_endpoint_live:
  assumes run: "parse_endpoint big e buf at sz he h = Inr (r, e', h')" and e: "ed_extra e = []"
  shows "live h' = live h + owned_extra (ed_extra e')"
proof -
  from run obtain l t where lt: "header_at buf at = Inr (l, t)"
    by (auto simp: parse_endpoint_def elim!: bindF_InrE)
  show ?thesis
  proof (cases "uint l > sz \<or> t \<noteq> DT_ENDPOINT")
    case True
    with run lt e show ?thesis by (auto simp: parse_endpoint_def split: if_splits)
  next
    case False
    with run lt obtain e1 stop where f: "endpoint_fields big he buf at l e = Inr e1"
      and s: "skip_loop False buf (at + unat l) (sz - uint l) = Inr stop"
      by (auto simp: parse_endpoint_def Let_def elim!: bindF_InrE split: if_splits)
    note e1 = endpoint_fields_extra [OF f]
    show ?thesis
    proof (cases stop)
      case None
      with run lt False f s e1 e show ?thesis by (auto simp: parse_endpoint_def Let_def)
    next
      case (Some p)
      obtain at1 sz1 where p: "p = (at1, sz1)" by fastforce
      with run lt False f s Some obtain x h1
        where x: "copy_extra buf (at + unat l) at1 h = Inr (x, h1)"
        by (auto simp: parse_endpoint_def Let_def elim!: bindF_InrE)
      from s Some p have "at + unat l \<le> at1" by (auto dest: skip_loop_le)
      from copy_extra_live [OF x this] run lt False f s Some p x show ?thesis
        by (cases x) (auto simp: parse_endpoint_def Let_def)
    qed
  qed
qed

lemma endpoints_loop_live:
  "endpoints_loop big he buf i k at sz eps h = Inr (r, at', sz', eps', h') \<Longrightarrow>
     i + k = length eps \<Longrightarrow> \<forall>j. i \<le> j \<and> j < length eps \<longrightarrow> ed_extra (eps ! j) = [] \<Longrightarrow>
     length eps' = length eps \<and> live h' = live h + owned_endpoints eps' - owned_endpoints eps"
proof (induction k arbitrary: i at sz eps h)
  case (Suc k)
  from Suc.prems obtain l t where lt: "header_at buf at = Inr (l, t)" by (auto elim!: bindF_InrE)
  show ?case
  proof (cases "uint l > sz")
    case True
    with Suc.prems lt show ?thesis by auto
  next
    case False
    with Suc.prems lt obtain r1 e1 h1 where pe: "parse_endpoint big (eps ! i) buf at sz he h = Inr (r1, e1, h1)"
      by (auto elim!: bindF_InrE)
    have i: "i < length eps" "ed_extra (eps ! i) = []" using Suc.prems by auto
    from parse_endpoint_live [OF pe i(2)] i
    have up: "live h1 = live h + owned_endpoints (eps[i := e1]) - owned_endpoints eps"
      by (simp add: owned_endpoints_def sum_list_map_update)
    show ?thesis
    proof (cases "r1 < 0")
      case True
      with Suc.prems lt False pe up show ?thesis by auto
    next
      case r1: False
      with Suc.prems lt False pe have
        "endpoints_loop big he buf (Suc i) k (at + nat r1) (sz - r1) (eps[i := e1]) h1
          = Inr (r, at', sz', eps', h')" by auto
      from Suc.IH [OF this] Suc.prems(2,3) up show ?thesis by auto
    qed
  qed
qed simp

lemma parse_endpoints_live:
  assumes run: "parse_endpoints big he buf at sz ifp h = Inr (r, at', sz', ifp', h')"
    and e: "endpoint ifp = []"
  shows "wf_setting ifp' \<and> live h' = live h + owned_setting ifp' - owned_setting ifp"
proof (cases "unat (bNumEndpoints ifp) = 0")
  case True
  with run e show ?thesis by (simp add: parse_endpoints_def wf_setting_def)
next
  case False
  obtain b h1 where m: "malloc h = (b, h1)" by fastforce
  show ?thesis
  proof (cases b)
    case False
    with run e m \<open>unat _ \<noteq> 0\<close> malloc_live [OF m] show ?thesis
      by (simp add: parse_endpoints_def wf_setting_def)
  next
    case True
    with run m False obtain eps where
      l: "endpoints_loop big he buf 0 (unat (bNumEndpoints ifp)) at sz
            (replicate (unat (bNumEndpoints ifp)) zero_endpoint) h1 = Inr (r, at', sz', eps, h')"
      and i: "ifp' = ifp\<lparr>endpoint := eps\<rparr>"
      by (auto simp: parse_endpoints_def elim!: bindF_InrE)
    have "length eps = unat (bNumEndpoints ifp) \<and> live h' = live h1 + owned_endpoints eps"
      using endpoints_loop_live [OF l]
      by (simp add: zero_endpoint_def owned_endpoints_def sum_list_replicate)
    with i e False malloc_live [OF m] True show ?thesis
      by (auto simp: wf_setting_def owned_setting_def)
  qed
qed

definition whole_interface :: "usb_interface \<Rightarrow> bool" where
  "whole_interface ifc \<longleftrightarrow> length (altsetting ifc) = num_altsetting ifc
     \<and> list_all wf_setting (altsetting ifc)"

lemma whole_interface_wf: "whole_interface ifc \<Longrightarrow> wf_interface ifc"
  by (simp add: whole_interface_def wf_interface_def)

lemma whole_interface_add:
  "whole_interface ifc \<Longrightarrow> wf_setting a \<Longrightarrow> whole_interface (add_setting ifc a)"
  by (simp add: whole_interface_def add_setting_def)

lemma owned_interface_add:
  "owned_interface (add_setting ifc a)
     = owned_interface ifc + owned_setting a + (if altsetting ifc = [] then 1 else 0)"
  by (simp add: owned_interface_def add_setting_def)

lemma bare_setting:
  "endpoint a = [] \<Longrightarrow> wf_setting a \<and> owned_setting a = owned_extra (id_extra a)"
  by (simp add: wf_setting_def owned_setting_def)

lemma setting_tail_live:
  assumes run: "setting_tail big ifc ifp buf at sz he h = Inr (e, at', sz', ifc', h')"
    and ifp: "endpoint ifp = []"
  shows "\<exists>a. ifc' = add_setting ifc a \<and> wf_setting a
    \<and> live h' = live h + owned_setting a - owned_setting ifp \<and> (\<forall>r. e = Err r \<longrightarrow> r < 0)"
proof -
  from run obtain l t where lt: "header_at buf at = Inr (l, t)"
    by (auto simp: setting_tail_def elim!: bindF_InrE)
  show ?thesis
  proof (cases "sz \<ge> 2 \<and> (t = DT_CONFIG \<or> t = DT_DEVICE) \<or> uint (bNumEndpoints ifp) > USB_MAXENDPOINTS")
    case True
    with run lt bare_setting [OF ifp] show ?thesis
      by (auto simp: setting_tail_def split: if_splits)
  next
    case False
    with run lt obtain r at2 sz2 a h3
      where p: "parse_endpoints big he buf at sz ifp h = Inr (r, at2, sz2, a, h3)"
      by (auto simp: setting_tail_def elim!: bindF_InrE split: if_splits)
    from False lt p run have "ifc' = add_setting ifc a" "h' = h3" "\<forall>r. e = Err r \<longrightarrow> r < 0"
      by (auto simp: setting_tail_def elim!: bindF_InrE split: if_splits)
    with parse_endpoints_live [OF p ifp] show ?thesis by blast
  qed
qed

lemma parse_setting_live:
  assumes run: "parse_setting big ifc buf at sz he h = Inr (e, at', sz', ifc', h')"
    and ifc: "whole_interface ifc"
  shows "whole_interface ifc' \<and> live h' = live h + owned_interface ifc' - owned_interface ifc
    \<and> (\<forall>r. e = Err r \<longrightarrow> r < 0)"
proof -
  obtain b h1 where ra: "realloc (altsetting ifc = []) h = (b, h1)" by fastforce
  note l1 = realloc_live [OF ra]
  show ?thesis
  proof (cases b)
    case False
    with run ra l1 ifc show ?thesis by (auto simp: parse_setting_def)
  next
    case b: True
    from run ra b obtain ifp where f: "interface_fields big buf at = Inr ifp"
      by (auto simp: parse_setting_def elim!: bindF_InrE)
    then have i: "id_bLength ifp = buf ! at" "endpoint ifp = []" "id_extra ifp = []"
      by (simp_all add: interface_fields_eq)
    let ?b = "at + unat (buf ! at)" and ?r = "sz - uint (buf ! at)"
    have grown: "whole_interface (add_setting ifc a) \<and> live h2 = live h + owned_interface (add_setting ifc a)
        - owned_interface ifc" if "wf_setting a" "live h2 = live h1 + owned_setting a" for a h2
      using that ifc l1 b by (simp add: whole_interface_add owned_interface_add)
    from run ra b f i obtain stop where s: "skip_loop False buf ?b ?r = Inr stop"
      by (auto simp: parse_setting_def Let_def elim!: bindF_InrE)
    show ?thesis
    proof (cases stop)
      case None
      with run ra b f i s grown [of ifp h1] show ?thesis
        by (auto simp: parse_setting_def bare_setting)
    next
      case (Some p)
      then obtain at1 sz1 where s1: "stop = Some (at1, sz1)" by (cases p) auto
      from run ra b f i s s1 obtain x h2 where x: "copy_extra buf ?b at1 h1 = Inr (x, h2)"
        by (auto simp: parse_setting_def Let_def elim!: bindF_InrE)
      from s s1 have "?b \<le> at1" by (auto dest: skip_loop_le)
      note l2 = copy_extra_live [OF x this]
      show ?thesis
      proof (cases x)
        case None
        with run ra b f i s s1 x l2 grown [of ifp h2] show ?thesis
          by (auto simp: parse_setting_def bare_setting)
      next
        case (Some xs)
        with run ra b f i s s1 x
        have "setting_tail big ifc (ifp\<lparr>id_extra := xs\<rparr>) buf at1 sz1 he h2 = Inr (e, at', sz', ifc', h')"
          by (simp add: parse_setting_def Let_def)
        from setting_tail_live [OF this] obtain a where "ifc' = add_setting ifc a" "wf_setting a"
          "live h' = live h2 + owned_setting a - owned_setting (ifp\<lparr>id_extra := xs\<rparr>)"
          "\<forall>r. e = Err r \<longrightarrow> r < 0"
          using i by auto
        with grown [of a h'] l2 Some i show ?thesis by (simp add: bare_setting)
      qed
    qed
  qed
qed

lemma interface_loop_end:
  "sz < 9 \<Longrightarrow> interface_loop big ifc buf start at sz he h = Inr (int (at - start), ifc, h)"
  by (subst interface_loop.simps) simp

lemma owned_zero_interface [simp]: "owned_interface zero_interface = 0"
  by (simp add: owned_interface_def zero_interface_def)

lemma interface_loop_live:
  "interface_loop big ifc buf start at sz he h = Inr (r, ifc', h') \<Longrightarrow> whole_interface ifc \<Longrightarrow>
     wf_interface ifc' \<and> live h' = live h + owned_interface ifc' - owned_interface ifc
     \<and> (r < 0 \<longrightarrow> altsetting ifc' = [])"
proof (induction big ifc buf start at sz he h rule: interface_loop.induct)
  case (1 big ifc buf start at sz he h)
  show ?case
  proof (cases "sz < 9")
    case True
    with "1.prems" show ?thesis by (auto simp: interface_loop_end whole_interface_wf)
  next
    case False
    with "1.prems"(1) obtain e at' sz' ifc1 h1
      where p: "parse_setting big ifc buf at sz he h = Inr (e, at', sz', ifc1, h1)"
      by (subst (asm) interface_loop.simps) (auto elim!: bindF_InrE)
    note l = parse_setting_live [OF p "1.prems"(2)]
    show ?thesis
    proof (cases e)
      case Again
      with False p "1.prems"(1) have "interface_loop big ifc1 buf start at' sz' he h1 = Inr (r, ifc', h')"
        by (subst (asm) interface_loop.simps) simp
      from "1.IH" [OF False p refl refl refl refl Again this] l show ?thesis by auto
    next
      case (Err n)
      have "interface_loop big ifc buf start at sz he h
          = Inr (n, ifc1\<lparr>altsetting := []\<rparr>, h1\<lparr>live := live h1 - owned_interface ifc1\<rparr>)"
        by (subst interface_loop.simps) (use False p Err l in \<open>simp add: clear_interface_eq whole_interface_wf\<close>)
      with "1.prems"(1) have "ifc' = ifc1\<lparr>altsetting := []\<rparr>" "live h' = live h1 - owned_interface ifc1"
        by auto
      with l show ?thesis by (simp add: wf_interface_def owned_interface_def)
    next
      case Return
      have "interface_loop big ifc buf start at sz he h = Inr (int (at' - start), ifc1, h1)"
        by (subst interface_loop.simps) (use False p Return in simp)
      with "1.prems"(1) l show ?thesis by (auto simp: whole_interface_wf)
    qed
  qed
qed

lemma parse_interface_live:
  assumes "parse_interface big zero_interface buf at sz he h = Inr (r, ifc, h')"
  shows "wf_interface ifc \<and> live h' = live h + owned_interface ifc \<and> (r < 0 \<longrightarrow> altsetting ifc = [])"
  using interface_loop_live [OF assms [unfolded parse_interface_def]]
  by (simp add: zero_interface_def whole_interface_def owned_interface_def)

lemma keep_extra_live:
  assumes run: "keep_extra buf begin at c h = Inr (ok, c', h')" and le: "begin \<le> at"
  shows "live h' = live h + owned_config c' - owned_config c \<and> interface c' = interface c
    \<and> interface_ptr c' = interface_ptr c \<and> bNumInterfaces c' = bNumInterfaces c"
proof (cases "at = begin \<or> cd_extra c \<noteq> []")
  case True
  with run show ?thesis by (auto simp: keep_extra_def)
next
  case False
  with run obtain x where x: "copy_extra buf begin at h = Inr (x, h')"
    by (auto simp: keep_extra_def elim!: bindF_InrE split: option.splits)
  from copy_extra_live [OF x le] run False x show ?thesis
    by (cases x) (auto simp: keep_extra_def owned_config_def)
qed

lemma config_loop_live:
  "config_loop big buf he i k at sz c h = Inr (r, sz', c', h') \<Longrightarrow> i + k = length (interface c) \<Longrightarrow>
     \<forall>j. i \<le> j \<and> j < length (interface c) \<longrightarrow> interface c ! j = zero_interface \<Longrightarrow>
     wf_config c \<Longrightarrow> interface_ptr c \<Longrightarrow>
     wf_config c' \<and> live h' = live h + owned_config c' - owned_config c"
proof (induction k arbitrary: i at sz c h)
  case (Suc k)
  from Suc.prems(1) obtain stop where s: "skip_loop True buf at sz = Inr stop"
    by (auto elim!: bindF_InrE)
  show ?case
  proof (cases stop)
    case None
    with Suc.prems s show ?thesis by auto
  next
    case (Some p)
    then obtain at1 sz1 where s1: "stop = Some (at1, sz1)" by (cases p) auto
    with Suc.prems(1) s obtain ok c1 h1 where x: "keep_extra buf at at1 c h = Inr (ok, c1, h1)"
      by (auto elim!: bindF_InrE)
    from s s1 have "at \<le> at1" by (auto dest: skip_loop_le)
    note l1 = keep_extra_live [OF x this]
    then have wf1: "wf_config c1" using Suc.prems(4) by (simp add: wf_config_def)
    show ?thesis
    proof (cases ok)
      case False
      with Suc.prems(1) s s1 x l1 wf1 show ?thesis by auto
    next
      case True
      have i: "i < length (interface c1)" "interface c1 ! i = zero_interface"
        using Suc.prems(2,3) l1 by auto
      from Suc.prems(1) s s1 x True i obtain r1 ifc h2
        where p: "parse_interface big zero_interface buf at1 sz1 he h1 = Inr (r1, ifc, h2)"
        by (auto simp: Let_def elim!: bindF_InrE)
      let ?c = "c1\<lparr>interface := (interface c1)[i := ifc]\<rparr>"
      note l2 = parse_interface_live [OF p]
      have wf2: "wf_config ?c" using wf1 l2 i by (simp add: wf_config_def list_all_length nth_list_update)
      have l3: "live h2 = live h + owned_config ?c - owned_config c"
        using l1 l2 i Suc.prems(5)
        by (simp add: owned_config_def sum_list_map_update)
      show ?thesis
      proof (cases "r1 < 0")
        case True
        with Suc.prems(1) s s1 x \<open>ok\<close> p i wf2 l3 show ?thesis by (auto simp: Let_def)
      next
        case False
        with Suc.prems(1) s s1 x \<open>ok\<close> p i
        have "config_loop big buf he (Suc i) k (at1 + nat r1) (sz1 - r1) ?c h2 = Inr (r, sz', c', h')"
          by (auto simp: Let_def)
        from Suc.IH [OF this _ _ wf2] Suc.prems l1 l3 show ?thesis by auto
      qed
    qed
  qed
qed simp

lemma parse_configuration_live:
  assumes run: "parse_configuration big buf he h = Inr (r, c, h')"
  shows "wf_config c \<and> (live h' = live h + owned_config c \<or> r < 0 \<and> live h' = live h)"
proof -
  from run obtain c0 where f: "config_fields big buf he = Inr c0"
    by (auto simp: parse_configuration_def elim!: bindF_InrE)
  then have c0: "interface c0 = []" "cd_extra c0 = []" "\<not> interface_ptr c0"
    by (auto simp: config_fields_def elim!: bindF_InrE)
  then have o0: "owned_config c0 = 0" "wf_config c0" by (simp_all add: owned_config_def wf_config_def)
  obtain b h1 where m: "malloc h = (b, h1)" by fastforce
  note l1 = malloc_live [OF m]
  show ?thesis
  proof (cases "uint (bNumInterfaces c0) > USB_MAXINTERFACES \<or> \<not> b")
    case True
    with run f m l1 o0 show ?thesis by (auto simp: parse_configuration_def split: if_splits)
  next
    case False
    let ?n = "unat (bNumInterfaces c0)"
    let ?c = "c0\<lparr>interface := replicate ?n zero_interface, interface_ptr := True\<rparr>"
    from False run f m obtain r1 sz' c2 h2 where
      p: "config_loop big buf he 0 ?n (unat (cd_bLength c0)) (uint (wTotalLength c0) - uint (cd_bLength c0)) ?c h1
          = Inr (r1, sz', c2, h2)"
      by (auto simp: parse_configuration_def Let_def elim!: bindF_InrE)
    have "wf_config ?c" by (simp add: wf_config_def list_all_length wf_interface_def zero_interface_def)
    moreover have "owned_config ?c = 1" using c0 by (simp add: owned_config_def sum_list_replicate)
    ultimately have c2: "wf_config c2" "live h2 = live h + owned_config c2"
      using config_loop_live [OF p] l1 False by simp_all
    with False run f m p show ?thesis
      by (auto simp: parse_configuration_def Let_def clear_configuration_eq split: if_splits)
  qed
qed

section \<open>Fetching descriptors\<close>

text \<open>
  What the backend answers when it is asked for \<open>n\<close> bytes of a descriptor: its return value, the
  bytes it stores in the buffer, and whether they are in host byte order. \<open>junk\<close> is what fresh
  memory holds.
\<close>

type_synonym backend = "nat \<Rightarrow> int \<times> u8 list \<times> bool"

definition filled :: "(nat \<Rightarrow> u8) \<Rightarrow> nat \<Rightarrow> u8 list \<Rightarrow> u8 list" where
  "filled junk n bs = map (\<lambda>i. if i < length bs then bs ! i else junk i) [0..<n]"

definition libusb_get_active_config_descriptor ::
    "bool \<Rightarrow> backend \<Rightarrow> (nat \<Rightarrow> u8) \<Rightarrow> allocs \<Rightarrow> fault + int \<times> parsed_config option \<times> allocs" where
  "libusb_get_active_config_descriptor big ask junk h =
     (case malloc h of
        (False, h1) \<Rightarrow> Inr (rc LIBUSB_ERROR_NO_MEM, None, h1)
      | (True, h1) \<Rightarrow> (case ask 8 of (r, bs, host_endian) \<Rightarrow>
          if r < 0 then Inr (r, None, free_block h1)
          else bindF (usbi_parse_descriptor big (filled junk 8 bs) 0 ''bbw'' host_endian) (\<lambda>(fs, n).
            case malloc h1 of
              (False, h2) \<Rightarrow> Inr (rc LIBUSB_ERROR_NO_MEM, None, free_block h2)
            | (True, h2) \<Rightarrow> (case ask (unat (half_of (fs ! 2))) of (r, bs, host_endian) \<Rightarrow>
                if r < 0 then Inr (r, None, free_block (free_block h2))
                else bindF (parse_configuration big (filled junk (unat (half_of (fs ! 2))) bs)
                              host_endian h2) (\<lambda>(r, c, h3).
                  if r < 0 then Inr (r, None, free_block (free_block h3))
                  else Inr (0, Some c, free_block h3))))))"

text \<open>By index, the backend is asked for one configuration of several; from the check of the index on
  the code is that of the active configuration.\<close>

definition libusb_get_config_descriptor ::
    "bool \<Rightarrow> u8 \<Rightarrow> (nat \<Rightarrow> backend) \<Rightarrow> (nat \<Rightarrow> u8) \<Rightarrow> u8 \<Rightarrow> allocs
     \<Rightarrow> fault + int \<times> parsed_config option \<times> allocs" where
  "libusb_get_config_descriptor big num_configurations ask junk config_index h =
     (if config_index \<ge> num_configurations then Inr (rc LIBUSB_ERROR_NOT_FOUND, None, h)
      else libusb_get_active_config_descriptor big (ask (unat config_index)) junk h)"

text \<open>The search for a configuration value: an error, or the index found.\<close>

fun config_index_loop ::
    "(nat \<Rightarrow> backend) \<Rightarrow> (nat \<Rightarrow> u8) \<Rightarrow> u8 \<Rightarrow> nat \<Rightarrow> nat \<Rightarrow> int \<times> int" where
  "config_index_loop ask junk val i 0 = (0, -1)"
| "config_index_loop ask junk val i (Suc k) =
     (case ask i 6 of (r, bs, _) \<Rightarrow>
        if r < 0 then (r, -1)
        else if filled junk 6 bs ! 5 = val then (0, int i)
        else config_index_loop ask junk val (Suc i) k)"

definition usbi_get_config_index_by_value ::
    "u8 \<Rightarrow> (nat \<Rightarrow> backend) \<Rightarrow> (nat \<Rightarrow> u8) \<Rightarrow> u8 \<Rightarrow> int \<times> int" where
  "usbi_get_config_index_by_value num_configurations ask junk val =
     config_index_loop ask junk val 0 (unat num_configurations)"

definition libusb_get_config_descriptor_by_value ::
    "bool \<Rightarrow> u8 \<Rightarrow> (nat \<Rightarrow> backend) \<Rightarrow> (nat \<Rightarrow> u8) \<Rightarrow> u8 \<Rightarrow> allocs
     \<Rightarrow> fault + int \<times> parsed_config option \<times> allocs" where
  "libusb_get_config_descriptor_by_value big num_configurations ask junk val h =
     (case usbi_get_config_index_by_value num_configurations ask junk val of (r, idx) \<Rightarrow>
        if r < 0 then Inr (r, None, h)
        else if idx = -1 then Inr (rc LIBUSB_ERROR_NOT_FOUND, None, h)
        else libusb_get_config_descriptor big num_configurations ask junk (of_int idx) h)"

definition libusb_free_config_descriptor :: "parsed_config option \<Rightarrow> allocs \<Rightarrow> fault + allocs" where
  "libusb_free_config_descriptor c h =
     (case c of
        None \<Rightarrow> Inr h
      | Some c \<Rightarrow> bindF (clear_configuration c h) (\<lambda>h1. Inr (free_block h1)))"

text \<open>The device descriptor: 18 raw bytes copied over the structure, then converted.\<close>

definition native16 :: "bool \<Rightarrow> u8 \<Rightarrow> u8 \<Rightarrow> u16" where
  "native16 big b0 b1 = (if big then of_le16 b1 b0 else of_le16 b0 b1)"

definition libusb_le16_to_cpu :: "bool \<Rightarrow> u16 \<Rightarrow> u16" where
  "libusb_le16_to_cpu big w =
     (let b8_1 = ucast (drop_bit 8 w); b8_0 = ucast (w AND 0xff) in native16 big b8_0 b8_1)"

definition libusb_get_device_descriptor ::
    "bool \<Rightarrow> int \<times> u8 list \<times> bool \<Rightarrow> (nat \<Rightarrow> u8) \<Rightarrow> int \<times> device_descriptor option" where
  "libusb_get_device_descriptor big answer junk =
     (case answer of (r, bs, host_endian) \<Rightarrow>
        if r < 0 then (r, None)
        else
          let raw = filled junk 18 bs;
              conv = (\<lambda>i. let w = native16 big (raw ! i) (raw ! (i + 1))
                          in if host_endian then w else libusb_le16_to_cpu big w)
          in (0, Some \<lparr>dd_bLength = raw ! 0, dd_bDescriptorType = raw ! 1, bcdUSB = conv 2,
                bDeviceClass = raw ! 4, bDeviceSubClass = raw ! 5, bDeviceProtocol = raw ! 6,
                bMaxPacketSize0 = raw ! 7, idVendor = conv 8, idProduct = conv 10,
                bcdDevice = conv 12, iManufacturer = raw ! 14, iProduct = raw ! 15,
                iSerialNumber = raw ! 16, bNumConfigurations = raw ! 17\<rparr>))"

section \<open>Ownership of a fetched configuration\<close>

lemma owned_endpoints_nonneg: "0 \<le> owned_endpoints eps"
  by (induction eps) (auto simp: owned_endpoints_def owned_extra_def)

lemma owned_interface_nonneg: "0 \<le> owned_interface ifc"
proof -
  have "0 \<le> owned_setting a" for a
    using owned_endpoints_nonneg [of "endpoint a"] by (simp add: owned_setting_def owned_extra_def)
  then have "0 \<le> (\<Sum>a\<leftarrow>altsetting ifc. owned_setting a)" by (intro sum_list_nonneg) auto
  then show ?thesis by (simp add: owned_interface_def)
qed

lemma owned_config_nonneg: "0 \<le> owned_config c"
proof -
  have "0 \<le> (\<Sum>i\<leftarrow>interface c. owned_interface i)" by (rule sum_list_nonneg) (auto simp: owned_interface_nonneg)
  then show ?thesis by (simp add: owned_config_def owned_extra_def)
qed

lemma get_active_live:
  assumes run: "libusb_get_active_config_descriptor big ask junk h = Inr (r, cfg, h')"
  shows "case cfg of
      None \<Rightarrow> r < 0 \<and> live h \<le> live h'
    | Some c \<Rightarrow> r = 0 \<and> wf_config c \<and> live h' = live h + 1 + owned_config c"
proof -
  obtain b h1 where m1: "malloc h = (b, h1)" by fastforce
  obtain r1 bs1 he1 where a1: "ask 8 = (r1, bs1, he1)" by (cases "ask 8") auto
  show ?thesis
  proof (cases "\<not> b \<or> r1 < 0")
    case True
    with run m1 a1 malloc_live [OF m1] show ?thesis
      by (auto simp: libusb_get_active_config_descriptor_def free_block_def split: if_splits bool.splits)
  next
    case False
    with run m1 a1 obtain fs n where
      u: "usbi_parse_descriptor big (filled junk 8 bs1) 0 ''bbw'' he1 = Inr (fs, n)"
      by (auto simp: libusb_get_active_config_descriptor_def elim!: bindF_InrE)
    let ?n = "unat (half_of (fs ! 2))"
    obtain b2 h2 where m2: "malloc h1 = (b2, h2)" by fastforce
    obtain r2 bs2 he2 where a2: "ask ?n = (r2, bs2, he2)" by (cases "ask ?n") auto
    note l = malloc_live [OF m1] malloc_live [OF m2]
    show ?thesis
    proof (cases "\<not> b2 \<or> r2 < 0")
      case True
      with run m1 a1 False u m2 a2 l show ?thesis
        by (auto simp: libusb_get_active_config_descriptor_def free_block_def split: if_splits bool.splits)
    next
      case ok: False
      with run m1 a1 False u m2 a2 obtain r3 c h3
        where p: "parse_configuration big (filled junk ?n bs2) he2 h2 = Inr (r3, c, h3)"
        by (auto simp: libusb_get_active_config_descriptor_def elim!: bindF_InrE)
      from parse_configuration_live [OF p] owned_config_nonneg [of c]
      show ?thesis using run m1 a1 False u m2 a2 ok p l
        by (auto simp: libusb_get_active_config_descriptor_def free_block_def split: if_splits)
    qed
  qed
qed

text \<open>C27: ownership of a configuration descriptor. Whatever the device answers, a descriptor that is
  handed out owns exactly the blocks that were allocated for it, its arrays have the lengths its
  counts say, and \<open>libusb_free_config_descriptor\<close> then runs within these arrays and gives every
  block back. When no descriptor is handed out the result is an error.\<close>

theorem config_descriptor_ownership:
  assumes "libusb_get_config_descriptor big n ask junk i h = Inr (r, cfg, h')"
  shows "case cfg of
      None \<Rightarrow> r < 0
    | Some c \<Rightarrow> r = 0 \<and> wf_config c \<and> live h' = live h + 1 + owned_config c
        \<and> (\<exists>h''. libusb_free_config_descriptor cfg h' = Inr h'' \<and> live h'' = live h)"
proof (cases "n \<le> i")
  case True
  with assms show ?thesis by (auto simp: libusb_get_config_descriptor_def)
next
  case False
  with assms get_active_live [of big "ask (unat i)" junk h r cfg h'] show ?thesis
    by (auto simp: libusb_get_config_descriptor_def libusb_free_config_descriptor_def
        clear_configuration_eq free_block_def split: option.splits)
qed

text \<open>An interface with one bulk endpoint, followed by a class descriptor.\<close>

definition sample_raw :: "u8 list" where
  "sample_raw = [9, 2, 28, 0, 1, 1, 0, 0x80, 50,  9, 4, 0, 0, 1, 0xff, 0x42, 1, 0,
     7, 5, 0x81, 2, 0, 2, 0,  3, 0x24, 7]"

definition sample_ask :: "nat \<Rightarrow> backend" where
  "sample_ask i n = (0, take n sample_raw, False)"

definition sample_parsed :: parsed_config where
  "sample_parsed = \<lparr>cd_bLength = 9, cd_bDescriptorType = 2, wTotalLength = 28, bNumInterfaces = 1,
     bConfigurationValue = 1, iConfiguration = 0, cd_bmAttributes = 0x80, MaxPower = 50,
     interface = [\<lparr>altsetting = [\<lparr>id_bLength = 9, id_bDescriptorType = 4, bInterfaceNumber = 0,
         bAlternateSetting = 0, bNumEndpoints = 1, bInterfaceClass = 0xff, bInterfaceSubClass = 0x42,
         bInterfaceProtocol = 1, iInterface = 0,
         endpoint = [\<lparr>ed_bLength = 7, ed_bDescriptorType = 5, bEndpointAddress = 0x81,
             bmAttributes = 2, wMaxPacketSize = 512, bInterval = 0, bRefresh = 0, bSynchAddress = 0,
             ed_extra = [3, 0x24, 7]\<rparr>],
         id_extra = []\<rparr>], num_altsetting = 1\<rparr>],
     cd_extra = [], interface_ptr = True\<rparr>"

lemma sample_run:
  "libusb_get_config_descriptor False 1 sample_ask (\<lambda>_. 0) 0 \<lparr>grant = [], live = 0\<rparr>
     = Inr (0, Some sample_parsed, \<lparr>grant = [], live = 5\<rparr>)"
  by code_simp

theorem config_descriptor_ownership_witness:
  "libusb_get_config_descriptor False 1 sample_ask (\<lambda>_. 0) 0 \<lparr>grant = [], live = 0\<rparr>
     = Inr (0, Some sample_parsed, \<lparr>grant = [], live = 5\<rparr>)
   \<and> (\<exists>h''. libusb_free_config_descriptor (Some sample_parsed) \<lparr>grant = [], live = 5\<rparr> = Inr h''
        \<and> live h'' = 0)"
  using config_descriptor_ownership [OF sample_run] sample_run by simp

section \<open>A configuration whose length is too short\<close>

text \<open>A negative size ends every loop at once.\<close>

lemma config_loop_negative:
  "sz < 0 \<Longrightarrow> list_all (\<lambda>i. i = zero_interface) (interface c) \<Longrightarrow> i + k \<le> length (interface c) \<Longrightarrow>
     config_loop big buf he i k at sz c h = Inr (0, sz, c, h)"
proof (induction k arbitrary: i)
  case (Suc k)
  then have z: "interface c ! i = zero_interface" by (simp add: list_all_length)
  have "skip_loop True buf at sz = Inr (Some (at, sz))"
    using Suc.prems(1) by (subst skip_loop.simps) simp
  moreover have "parse_interface big zero_interface buf at sz he h = Inr (0, zero_interface, h)"
    using Suc.prems(1) by (simp add: parse_interface_def interface_loop_end) (simp add: zero_interface_def)
  moreover have "(interface c)[i := zero_interface] = interface c"
    using z by (metis list_update_id)
  ultimately show ?case using Suc z by (simp add: keep_extra_def)
qed simp

lemma filled_id: "length bs = n \<Longrightarrow> filled junk n bs = bs"
  by (simp add: filled_def list_eq_iff_nth_eq)

lemma length_filled [simp]: "length (filled junk n bs) = n"
  by (simp add: filled_def)

lemma nth_filled: "i < n \<Longrightarrow> i < length bs \<Longrightarrow> filled junk n bs ! i = bs ! i"
  by (simp add: filled_def)

lemma malloc_granted: "grant h = [] \<Longrightarrow> malloc h = (True, h\<lparr>live := live h + 1\<rparr>)"
  by (simp add: malloc_def next_grant_def)

lemma config_fields_le:
  "9 \<le> length buf \<Longrightarrow> config_fields big buf False =
     Inr \<lparr>cd_bLength = buf ! 0, cd_bDescriptorType = buf ! 1, wTotalLength = of_le16 (buf ! 2) (buf ! 3),
          bNumInterfaces = buf ! 4, bConfigurationValue = buf ! 5, iConfiguration = buf ! 6,
          cd_bmAttributes = buf ! 7, MaxPower = buf ! 8, interface = [], cd_extra = [], interface_ptr = False\<rparr>"
  by (auto simp: config_fields_def rd_def eval_nat_numeral)

text \<open>A configuration descriptor that claims to be longer than its total length is reported as an
  error without the interfaces being freed. For every device whose configuration starts with a
  \<open>bLength\<close> greater than its \<open>wTotalLength\<close> (of 9 at least) and that has at most 32 interfaces, the
  parser runs into a negative size, returns it as if it were an error code, and the caller frees the
  configuration without its array of interfaces: one block is lost with every call.\<close>

theorem short_configuration_leaks:
  assumes bs: "length bs = m" and nine: "9 \<le> m"
    and head: "of_le16 (bs ! 2) (bs ! 3) = of_nat m" and fits: "m < 65536"
    and short: "int m < uint (bs ! 0)" and count: "uint (bs ! 4) \<le> 32"
    and ask: "\<And>k. k \<le> m \<Longrightarrow> ask k = (0, take k bs, False)" and h: "grant h = []"
  shows "libusb_get_active_config_descriptor big ask junk h
    = Inr (int m - uint (bs ! 0), None, h\<lparr>live := live h + 1\<rparr>)"
proof -
  have w: "unat (of_le16 (bs ! 2) (bs ! 3)) = m"
    using head fits by (simp add: unsigned_of_nat take_bit_nat_eq_self)
  have u: "usbi_parse_descriptor big (filled junk 8 (take 8 bs)) 0 ''bbw'' False
      = Inr ([Byte (bs ! 0), Byte (bs ! 1), Half (of_le16 (bs ! 2) (bs ! 3))], 4)"
    using bs nine by (simp add: rd_def nth_filled eval_nat_numeral)
  let ?h = "h\<lparr>live := live h + 3\<rparr>" and ?n = "unat (bs ! 4)"
  have nn: "\<not> uint (bs ! 4) > USB_MAXINTERFACES" using count by (simp add: USB_MAXINTERFACES_def)
  have sz: "uint (of_le16 (bs ! 2) (bs ! 3)) = int m" using w by (metis uint_nat)
  define c where "c = \<lparr>cd_bLength = bs ! 0, cd_bDescriptorType = bs ! 1,
      wTotalLength = of_le16 (bs ! 2) (bs ! 3),
      bNumInterfaces = bs ! 4, bConfigurationValue = bs ! 5, iConfiguration = bs ! 6,
      cd_bmAttributes = bs ! 7, MaxPower = bs ! 8, interface = replicate ?n zero_interface,
      cd_extra = [], interface_ptr = True\<rparr>"
  have "config_loop big bs False 0 ?n (unat (bs ! 0)) (int m - uint (bs ! 0)) c ?h
      = Inr (0, int m - uint (bs ! 0), c, ?h)"
    by (rule config_loop_negative) (use short in \<open>auto simp: c_def list_all_length\<close>)
  then have "parse_configuration big bs False (h\<lparr>live := 2 + live h\<rparr>)
      = Inr (int m - uint (bs ! 0), c, ?h)"
    using bs nine nn h sz
    by (simp add: parse_configuration_def config_fields_le malloc_granted c_def add.commute)
  then show ?thesis
    using u ask [of 8] ask [of m] nine h bs w short
    by (simp add: libusb_get_active_config_descriptor_def malloc_granted filled_id free_block_def)
qed

theorem short_configuration_leaks_witness:
  "libusb_get_active_config_descriptor False
     (\<lambda>n. (0, take n [10, 2, 9, 0, 1, 1, 0, 0x80, 50], False)) (\<lambda>_. 0) \<lparr>grant = [], live = 0\<rparr>
   = Inr (-1, None, \<lparr>grant = [], live = 1\<rparr>)"
  using short_configuration_leaks [of "[10, 2, 9, 0, 1, 1, 0, 0x80, 50]" 9
      "\<lambda>n. (0, take n [10, 2, 9, 0, 1, 1, 0, 0x80, 50], False)" "\<lparr>grant = [], live = 0\<rparr>" False "\<lambda>_. 0"]
  by (simp add: of_le16_def)

end
