(* ===== verification/Config_Format.thy ===== *)
theory Config_Format
  imports Descriptor
begin

text \<open>
  The byte format of configuration descriptors, and what the parser of \<open>descriptor.c\<close> makes of a
  well-formed one: the configuration it was written from, unless its last setting has no endpoint.
\<close>

section \<open>The format\<close>

text \<open>A sequence of class and vendor descriptors, each with its length and its type in front.\<close>

inductive class_specific :: "u8 list \<Rightarrow> bool" where
  none: "class_specific []"
| more: "2 \<le> unat l \<Longrightarrow> length body = unat l - 2 \<Longrightarrow> \<not> proper t \<Longrightarrow> class_specific xs \<Longrightarrow>
    class_specific (l # t # body @ xs)"

definition endpoint_bytes :: "endpoint_descriptor \<Rightarrow> u8 list" where
  "endpoint_bytes e =
     [ed_bLength e, ed_bDescriptorType e, bEndpointAddress e, bmAttributes e] @
     le16 (wMaxPacketSize e) @ [bInterval e] @
     (if ed_bLength e = 9 then [bRefresh e, bSynchAddress e] else []) @ ed_extra e"

definition good_endpoint :: "endpoint_descriptor \<Rightarrow> bool" where
  "good_endpoint e \<longleftrightarrow> ed_bDescriptorType e = DT_ENDPOINT
     \<and> (ed_bLength e = 9 \<or> ed_bLength e = 7 \<and> bRefresh e = 0 \<and> bSynchAddress e = 0)
     \<and> class_specific (ed_extra e)"

definition setting_bytes :: "interface_descriptor \<Rightarrow> u8 list" where
  "setting_bytes a =
     [id_bLength a, id_bDescriptorType a, bInterfaceNumber a, bAlternateSetting a, bNumEndpoints a,
      bInterfaceClass a, bInterfaceSubClass a, bInterfaceProtocol a, iInterface a] @
     id_extra a @ concat (map endpoint_bytes (endpoint a))"

definition good_setting :: "interface_descriptor \<Rightarrow> bool" where
  "good_setting a \<longleftrightarrow> id_bLength a = 9 \<and> id_bDescriptorType a = DT_INTERFACE
     \<and> unat (bNumEndpoints a) = length (endpoint a) \<and> length (endpoint a) \<le> 32
     \<and> list_all good_endpoint (endpoint a) \<and> class_specific (id_extra a)"

definition settings_bytes :: "interface_descriptor list \<Rightarrow> u8 list" where
  "settings_bytes as = concat (map setting_bytes as)"

text \<open>The first setting of an interface is its setting 0, the others are alternates.\<close>

definition good_interface :: "usb_interface \<Rightarrow> bool" where
  "good_interface ifc \<longleftrightarrow> altsetting ifc \<noteq> [] \<and> num_altsetting ifc = length (altsetting ifc)
     \<and> list_all good_setting (altsetting ifc)
     \<and> bAlternateSetting (hd (altsetting ifc)) = 0
     \<and> list_all (\<lambda>a. bAlternateSetting a \<noteq> 0) (tl (altsetting ifc))"

definition interfaces_bytes :: "usb_interface list \<Rightarrow> u8 list" where
  "interfaces_bytes ifs = concat (map (\<lambda>ifc. settings_bytes (altsetting ifc)) ifs)"

definition config_bytes :: "parsed_config \<Rightarrow> u8 list" where
  "config_bytes c =
     [cd_bLength c, cd_bDescriptorType c] @ le16 (wTotalLength c) @
     [bNumInterfaces c, bConfigurationValue c, iConfiguration c, cd_bmAttributes c, MaxPower c] @
     cd_extra c @ interfaces_bytes (interface c)"

definition good_config :: "parsed_config \<Rightarrow> bool" where
  "good_config c \<longleftrightarrow> cd_bLength c = 9 \<and> unat (wTotalLength c) = length (config_bytes c)
     \<and> unat (bNumInterfaces c) = length (interface c) \<and> length (interface c) \<le> 32
     \<and> interface c \<noteq> [] \<and> interface_ptr c
     \<and> list_all good_interface (interface c) \<and> class_specific (cd_extra c)"

definition last_setting :: "parsed_config \<Rightarrow> interface_descriptor" where
  "last_setting c = last (altsetting (last (interface c)))"

section \<open>Skipping\<close>

lemma drop_head: "drop at buf = x # rest \<Longrightarrow> at < length buf \<and> buf ! at = x"
  by (metis drop_all list.distinct(1) linorder_not_less nth_via_drop)

lemma drop_at: "drop at buf = x # rest \<Longrightarrow> drop (Suc at) buf = rest"
  by (metis drop_Suc list.sel(3) tl_drop)

lemma drop_append_at: "drop at buf = xs @ rest \<Longrightarrow> drop (at + length xs) buf = rest"
  by (metis add.commute append_eq_conv_conj drop_drop)

lemma rd_drop: "drop at buf = x # rest \<Longrightarrow> rd buf at = Inr x"
  by (simp add: rd_def drop_head)

lemma header_drop: "drop at buf = l # t # rest \<Longrightarrow> header_at buf at = Inr (l, t)"
  using drop_head [of at buf l] drop_head [of "Suc at" buf t] drop_at [of at buf]
  by (simp add: header_at_eq)

lemma int_le_uint: "k \<le> unat (l :: u8) \<longleftrightarrow> int k \<le> uint l"
  using of_nat_le_iff [of k "unat l", where ?'a = int] by simp

text \<open>What may come behind a sequence of class descriptors.\<close>

definition halts :: "u8 list \<Rightarrow> bool" where
  "halts rest \<longleftrightarrow> rest = [] \<or> (\<exists>l t r. rest = l # t # r \<and> 2 \<le> unat l \<and> unat l \<le> length rest \<and> proper t)"

lemma skip_class:
  "class_specific xs \<Longrightarrow> drop at buf = xs @ rest \<Longrightarrow> halts rest \<Longrightarrow> sz = int (length xs + length rest) \<Longrightarrow>
     skip_loop strict buf at sz = Inr (Some (at + length xs, int (length rest)))"
proof (induction arbitrary: at sz rule: class_specific.induct)
  case none
  show ?case
  proof (cases "rest = []")
    case True
    with none show ?thesis by (subst skip_loop.simps) simp
  next
    case False
    with none obtain l t r where r: "rest = l # t # r" "2 \<le> unat l" "unat l \<le> length rest" "proper t"
      by (auto simp: halts_def)
    then have "2 \<le> uint l" "uint l \<le> int (length rest)"
      using int_le_uint [of 2 l] of_nat_le_iff [of "unat l" "length rest", where ?'a = int] by simp_all
    with none r header_drop [of at buf l t r] show ?thesis by (subst skip_loop.simps) simp
  qed
next
  case (more l body t xs)
  have n: "length (l # t # body) = unat l" using more.hyps by simp
  have sz: "sz = uint l + int (length xs + length rest)"
  proof -
    have "uint l = int (length (l # t # body))" by (simp only: uint_nat n)
    then show ?thesis using more.prems(3) by simp
  qed
  have u: "2 \<le> uint l" using more.hyps int_le_uint [of 2 l] by simp
  have "drop (at + unat l) buf = xs @ rest"
    using drop_append_at [of at buf "l # t # body" "xs @ rest", unfolded n] more.prems(1) by simp
  then have "skip_loop strict buf (at + unat l) (sz - uint l)
      = Inr (Some (at + unat l + length xs, int (length rest)))"
    using sz more.prems(2) by (intro more.IH) auto
  moreover have "header_at buf at = Inr (l, t)"
    by (rule header_drop) (use more.prems in simp)
  ultimately have "skip_loop strict buf at sz = Inr (Some (at + unat l + length xs, int (length rest)))"
    using u sz more.hyps(3) by (subst skip_loop.simps) simp
  moreover have "at + length (l # t # body @ xs) = at + unat l + length xs"
    unfolding n [symmetric] by simp
  ultimately show ?case by simp
qed

section \<open>Endpoints\<close>

abbreviation plus_live :: "allocs \<Rightarrow> int \<Rightarrow> allocs" where
  "plus_live h n \<equiv> h\<lparr>live := live h + n\<rparr>"

lemma copy_extra_run:
  assumes "drop b buf = xs @ rest" and "grant h = []"
  shows "copy_extra buf b (b + length xs) h = Inr (Some xs, plus_live h (owned_extra xs))"
proof (cases "xs = []")
  case True
  then show ?thesis by (simp add: copy_extra_def)
next
  case False
  have "b < length buf" using assms(1) False drop_head [of b buf "hd xs" "tl xs @ rest"] by simp
  moreover have "length buf - b = length xs + length rest"
    using assms(1) by (metis length_append length_drop)
  ultimately have "b + length xs \<le> length buf" by simp
  then show ?thesis using False assms
    by (simp add: copy_extra_def malloc_granted copy_bytes_def owned_extra_def)
qed

lemma length_endpoint_bytes:
  "good_endpoint e \<Longrightarrow> length (endpoint_bytes e) = unat (ed_bLength e) + length (ed_extra e)"
  by (auto simp: good_endpoint_def endpoint_bytes_def)

lemma int_length_endpoint_bytes:
  "good_endpoint e \<Longrightarrow> int (length (endpoint_bytes e)) = uint (ed_bLength e) + int (length (ed_extra e))"
  by (simp only: length_endpoint_bytes of_nat_add uint_nat)

lemma endpoint_fields_run:
  assumes d: "drop at buf = endpoint_bytes e @ rest" and e: "good_endpoint e"
  shows "endpoint_fields big False buf at (ed_bLength e) zero_endpoint = Inr (e\<lparr>ed_extra := []\<rparr>)"
proof -
  let ?w = "wMaxPacketSize e"
  define tail where "tail = (if ed_bLength e = 9 then [bRefresh e, bSynchAddress e] else []) @ ed_extra e @ rest"
  have d0: "drop at buf = ed_bLength e # ed_bDescriptorType e # bEndpointAddress e # bmAttributes e #
      ucast ?w # ucast (drop_bit 8 ?w) # bInterval e # tail"
    using d by (simp add: endpoint_bytes_def le16_def tail_def)
  note d1 = drop_at [OF d0] note d2 = drop_at [OF d1] note d3 = drop_at [OF d2]
  note d4 = drop_at [OF d3] note d5 = drop_at [OF d4] note d6 = drop_at [OF d5]
  note r = rd_drop [OF d0] rd_drop [OF d1] rd_drop [OF d2] rd_drop [OF d3] rd_drop [OF d4]
    rd_drop [OF d5] rd_drop [OF d6]
  show ?thesis
  proof (cases "ed_bLength e = 9")
    case True
    then have "drop (Suc (Suc (Suc (Suc (Suc (Suc (Suc at))))))) buf = bRefresh e # bSynchAddress e # ed_extra e @ rest"
      using drop_at [OF d6] by (simp add: tail_def)
    note r7 = rd_drop [OF this] rd_drop [OF drop_at [OF this]]
    show ?thesis using True r r7
      by (cases e) (simp add: endpoint_fields_def zero_endpoint_def of_le16_bytes)
  next
    case False
    with e have "ed_bLength e = 7" "bRefresh e = 0" "bSynchAddress e = 0" by (auto simp: good_endpoint_def)
    with r show ?thesis
      by (cases e) (simp add: endpoint_fields_def zero_endpoint_def of_le16_bytes)
  qed
qed

lemma parse_endpoint_run:
  assumes d: "drop at buf = endpoint_bytes e @ rest" and e: "good_endpoint e" and rest: "halts rest"
    and h: "grant h = []" and sz: "sz = int (length (endpoint_bytes e) + length rest)"
  shows "parse_endpoint big zero_endpoint buf at sz False h
    = Inr (int (length (endpoint_bytes e)), e, plus_live h (owned_extra (ed_extra e)))"
proof -
  let ?l = "ed_bLength e"
  note n = length_endpoint_bytes [OF e]
  note u = int_length_endpoint_bytes [OF e]
  have hd: "header_at buf at = Inr (?l, DT_ENDPOINT)"
    using d e by (intro header_drop) (simp add: endpoint_bytes_def good_endpoint_def)
  define front where "front = take (unat ?l) (endpoint_bytes e)"
  have front: "endpoint_bytes e = front @ ed_extra e" "length front = unat ?l"
    using e by (auto simp: front_def endpoint_bytes_def good_endpoint_def)
  then have d1: "drop (at + unat ?l) buf = ed_extra e @ rest"
    using drop_append_at [of at buf front "ed_extra e @ rest"] d by simp
  have "sz - uint ?l = int (length (ed_extra e) + length rest)" using sz u by simp
  then have s: "skip_loop False buf (at + unat ?l) (sz - uint ?l)
      = Inr (Some (at + unat ?l + length (ed_extra e), int (length rest)))"
    using e rest d1 by (intro skip_class) (simp_all add: good_endpoint_def)
  have "\<not> sz < uint ?l" using sz u by simp
  then show ?thesis
    using hd endpoint_fields_run [OF d e, of big] s copy_extra_run [OF d1 h] n
    by (simp add: parse_endpoint_def)
qed

lemma halts_endpoint: "good_endpoint e \<Longrightarrow> halts (endpoint_bytes e @ rest)"
  using length_endpoint_bytes [of e]
  by (auto simp: halts_def good_endpoint_def endpoint_bytes_def proper_def)

lemma halts_endpoints:
  "list_all good_endpoint es \<Longrightarrow> halts rest \<Longrightarrow> halts (concat (map endpoint_bytes es) @ rest)"
  by (cases es) (simp_all add: halts_endpoint)

lemma endpoints_loop_run:
  "list_all good_endpoint es \<Longrightarrow> halts rest \<Longrightarrow> grant h = [] \<Longrightarrow>
     drop at buf = concat (map endpoint_bytes es) @ rest \<Longrightarrow>
     sz = int (length (concat (map endpoint_bytes es)) + length rest) \<Longrightarrow>
     endpoints_loop big False buf (length front) (length es) at sz
         (front @ replicate (length es) zero_endpoint) h
       = Inr (0, at + length (concat (map endpoint_bytes es)), int (length rest), front @ es,
              plus_live h (owned_endpoints es))"
proof (induction es arbitrary: at sz front h)
  case Nil
  then show ?case by (simp add: owned_endpoints_def)
next
  case (Cons e es)
  let ?rest = "concat (map endpoint_bytes es) @ rest"
  have d: "drop at buf = endpoint_bytes e @ ?rest" using Cons.prems by simp
  have e: "good_endpoint e" using Cons.prems by simp
  have hr: "halts ?rest" using Cons.prems by (intro halts_endpoints) auto
  have sz: "sz = int (length (endpoint_bytes e) + length ?rest)" using Cons.prems by simp
  note p = parse_endpoint_run [OF d e hr Cons.prems(3) sz, of big]
  have hd: "header_at buf at = Inr (ed_bLength e, ed_bDescriptorType e)"
    using d by (intro header_drop) (simp add: endpoint_bytes_def)
  have le: "\<not> sz < uint (ed_bLength e)" using sz int_length_endpoint_bytes [OF e] by simp
  let ?h = "plus_live h (owned_extra (ed_extra e))" and ?at = "at + length (endpoint_bytes e)"
  have "endpoints_loop big False buf (length (front @ [e])) (length es) ?at (int (length ?rest))
      ((front @ [e]) @ replicate (length es) zero_endpoint) ?h
    = Inr (0, ?at + length (concat (map endpoint_bytes es)), int (length rest), (front @ [e]) @ es,
          plus_live ?h (owned_endpoints es))"
    using Cons.prems drop_append_at [OF d] by (intro Cons.IH) auto
  then show ?case using p hd le sz by (simp add: list_update_append owned_endpoints_def algebra_simps)
qed

section \<open>Settings\<close>

text \<open>Behind a setting there is another one, or the end of the configuration.\<close>

definition follows :: "u8 list \<Rightarrow> bool" where
  "follows rest \<longleftrightarrow> rest = [] \<or> (\<exists>i alt r. rest = 9 # DT_INTERFACE # i # alt # r \<and> 9 \<le> length rest)"

lemma follows_halts: "follows rest \<Longrightarrow> halts rest"
  by (auto simp: follows_def halts_def proper_def)

text \<open>The next setting is an alternate of the same interface.\<close>

definition alternate :: "u8 list \<Rightarrow> bool" where
  "alternate rest \<longleftrightarrow> rest \<noteq> [] \<and> rest ! 3 \<noteq> 0"

lemma another_setting_run:
  assumes d: "drop at buf = rest" and f: "follows rest" and sz: "sz = int (length rest)"
  shows "another_setting buf at sz = Inr (alternate rest)"
proof (cases "rest = []")
  case True
  with sz show ?thesis by (simp add: another_setting_def alternate_def)
next
  case False
  with f obtain i alt r where r: "rest = 9 # DT_INTERFACE # i # alt # r" "9 \<le> length rest"
    by (auto simp: follows_def)
  have d0: "drop at buf = 9 # DT_INTERFACE # i # alt # r" using d r by simp
  note d1 = drop_at [OF d0] note d2 = drop_at [OF d1] note d3 = drop_at [OF d2]
  have "rd buf (at + 3) = Inr alt" using rd_drop [OF d3] by (simp add: eval_nat_numeral)
  then show ?thesis using rd_drop [OF d1] r sz
    by (simp add: another_setting_def alternate_def)
qed

lemma interface_fields_run:
  assumes d: "drop at buf = setting_bytes a @ rest"
  shows "interface_fields big buf at = Inr (a\<lparr>endpoint := [], id_extra := []\<rparr>)"
proof -
  define t where "t = id_extra a @ concat (map endpoint_bytes (endpoint a)) @ rest"
  have d0: "drop at buf = id_bLength a # id_bDescriptorType a # bInterfaceNumber a #
      bAlternateSetting a # bNumEndpoints a # bInterfaceClass a # bInterfaceSubClass a #
      bInterfaceProtocol a # iInterface a # t"
    using d by (simp add: setting_bytes_def t_def)
  note d1 = drop_at [OF d0] note d2 = drop_at [OF d1] note d3 = drop_at [OF d2]
  note d4 = drop_at [OF d3] note d5 = drop_at [OF d4] note d6 = drop_at [OF d5]
  note d7 = drop_at [OF d6] note d8 = drop_at [OF d7]
  note r = rd_drop [OF d0] rd_drop [OF d1] rd_drop [OF d2] rd_drop [OF d3] rd_drop [OF d4]
    rd_drop [OF d5] rd_drop [OF d6] rd_drop [OF d7] rd_drop [OF d8]
  show ?thesis using r by (cases a) (simp add: interface_fields_def)
qed

lemma parse_endpoints_run:
  assumes d: "drop at buf = concat (map endpoint_bytes (endpoint a)) @ rest" and a: "good_setting a"
    and rest: "halts rest" and h: "grant h = []"
    and sz: "sz = int (length (concat (map endpoint_bytes (endpoint a))) + length rest)"
  shows "parse_endpoints big False buf at sz (a\<lparr>endpoint := []\<rparr>) h
    = Inr (0, at + length (concat (map endpoint_bytes (endpoint a))), int (length rest), a,
           plus_live h (owned_setting a - owned_extra (id_extra a)))"
proof (cases "endpoint a = []")
  case True
  with a sz have "unat (bNumEndpoints a) = 0" "a\<lparr>endpoint := []\<rparr> = a" by (simp_all add: good_setting_def)
  with True sz show ?thesis by (simp add: parse_endpoints_def owned_setting_def)
next
  case False
  have n: "unat (bNumEndpoints a) = length (endpoint a)" and e: "list_all good_endpoint (endpoint a)"
    using a by (simp_all add: good_setting_def)
  have "endpoints_loop big False buf 0 (length (endpoint a)) at sz
      (replicate (length (endpoint a)) zero_endpoint) (plus_live h 1)
    = Inr (0, at + length (concat (map endpoint_bytes (endpoint a))), int (length rest), endpoint a,
           plus_live h (1 + owned_endpoints (endpoint a)))"
    using endpoints_loop_run [OF e rest, of "plus_live h 1" at buf sz big "[]"] h d sz
    by (simp add: add.assoc)
  with False n h show ?thesis
    by (simp add: parse_endpoints_def malloc_granted owned_setting_def algebra_simps)
qed

text \<open>The last setting of a configuration needs an endpoint: the code looks for a header behind the
  class descriptors of a setting without asking whether there is anything.\<close>

definition last_readable :: "interface_descriptor \<Rightarrow> u8 list \<Rightarrow> bool" where
  "last_readable a rest \<longleftrightarrow> endpoint a \<noteq> [] \<or> rest \<noteq> []"

lemma setting_tail_run:
  assumes d: "drop at buf = concat (map endpoint_bytes (endpoint a)) @ rest" and a: "good_setting a"
    and rest: "follows rest" and h: "grant h = []"
    and sz: "sz = int (length (concat (map endpoint_bytes (endpoint a))) + length rest)"
  shows "setting_tail big ifc (a\<lparr>endpoint := []\<rparr>) buf at sz False h =
    (if last_readable a rest
     then Inr (if alternate rest then Again else Return,
               at + length (concat (map endpoint_bytes (endpoint a))), int (length rest),
               add_setting ifc a, plus_live h (owned_setting a - owned_extra (id_extra a)))
     else Inl OutOfBounds)"
proof (cases "last_readable a rest")
  case False
  with d have "drop at buf = []" by (simp add: last_readable_def)
  then have "header_at buf at = Inl OutOfBounds" by (simp add: header_at_eq)
  with False show ?thesis by (simp add: setting_tail_def)
next
  case True
  let ?eps = "concat (map endpoint_bytes (endpoint a))"
  have "\<exists>l t r. ?eps @ rest = l # t # r \<and> t \<noteq> DT_CONFIG \<and> t \<noteq> DT_DEVICE"
  proof (cases "endpoint a")
    case Nil
    with True rest show ?thesis by (auto simp: last_readable_def follows_def dt_defs)
  next
    case (Cons e es)
    with a have "ed_bDescriptorType e = DT_ENDPOINT" by (simp add: good_setting_def good_endpoint_def)
    with Cons show ?thesis by (simp add: endpoint_bytes_def dt_defs)
  qed
  then obtain l t where hd: "header_at buf at = Inr (l, t)" and t: "t \<noteq> DT_CONFIG" "t \<noteq> DT_DEVICE"
    using d header_drop by metis
  have n: "\<not> uint (bNumEndpoints (a\<lparr>endpoint := []\<rparr>)) > USB_MAXENDPOINTS"
    using a int_le_uint [of 33 "bNumEndpoints a"] by (simp add: good_setting_def USB_MAXENDPOINTS_def)
  have d1: "drop (at + length ?eps) buf = rest" by (rule drop_append_at) (rule d)
  show ?thesis
    using True hd t n parse_endpoints_run [OF d a follows_halts [OF rest] h sz, of big]
      another_setting_run [OF d1 rest refl]
    by (simp add: setting_tail_def)
qed

lemma halts_settings:
  "good_setting a \<Longrightarrow> follows rest \<Longrightarrow> halts (concat (map endpoint_bytes (endpoint a)) @ rest)"
  by (intro halts_endpoints follows_halts) (simp_all add: good_setting_def)

lemma parse_setting_run:
  assumes d: "drop at buf = setting_bytes a @ rest" and a: "good_setting a"
    and rest: "follows rest" and h: "grant h = []" and sz: "sz = int (length (setting_bytes a) + length rest)"
  shows "parse_setting big ifc buf at sz False h =
    (if last_readable a rest
     then Inr (if alternate rest then Again else Return, at + length (setting_bytes a), int (length rest),
               add_setting ifc a, plus_live h (owned_interface (add_setting ifc a) - owned_interface ifc))
     else Inl OutOfBounds)"
proof -
  let ?eps = "concat (map endpoint_bytes (endpoint a))" and ?x = "id_extra a"
  let ?a0 = "a\<lparr>endpoint := [], id_extra := []\<rparr>"
  let ?n = "if altsetting ifc = [] then 1 else 0 :: int"
  have ra: "realloc (altsetting ifc = []) h = (True, plus_live h ?n)"
    using h by (simp add: realloc_def malloc_granted next_grant_def)
  note f = interface_fields_run [OF d, of big]
  have l: "id_bLength a = 9" using a by (simp add: good_setting_def)
  have d1: "drop (at + 9) buf = ?x @ ?eps @ rest"
    using drop_append_at [of at buf "take 9 (setting_bytes a)" "?x @ ?eps @ rest"] d
    by (simp add: setting_bytes_def eval_nat_numeral)
  have s: "skip_loop False buf (at + 9) (sz - 9) = Inr (Some (at + 9 + length ?x, int (length (?eps @ rest))))"
    using a sz halts_settings [OF a rest] d1
    by (intro skip_class) (simp_all add: good_setting_def setting_bytes_def)
  have d2: "drop (at + 9 + length ?x) buf = ?eps @ rest" by (rule drop_append_at) (rule d1)
  have c: "copy_extra buf (at + 9) (at + 9 + length ?x) (plus_live h ?n)
      = Inr (Some ?x, plus_live h (?n + owned_extra ?x))"
    using copy_extra_run [OF d1, of "plus_live h ?n"] h by (simp add: add.assoc)
  have t: "setting_tail big ifc (?a0\<lparr>id_extra := ?x\<rparr>) buf (at + 9 + length ?x) (int (length (?eps @ rest)))
        False (plus_live h (?n + owned_extra ?x)) =
    (if last_readable a rest
     then Inr (if alternate rest then Again else Return, at + length (setting_bytes a), int (length rest),
               add_setting ifc a, plus_live h (?n + owned_setting a))
     else Inl OutOfBounds)"
    using setting_tail_run [OF d2 a rest, of "plus_live h (?n + owned_extra ?x)" "int (length (?eps @ rest))"
        big ifc] h by (simp add: setting_bytes_def algebra_simps)
  have "?n + owned_setting a = owned_interface (add_setting ifc a) - owned_interface ifc"
    by (simp add: owned_interface_add)
  with t ra f l s c show ?thesis by (simp add: parse_setting_def)
qed

section \<open>Interfaces and configurations\<close>

lemma setting_bytes_head:
  "good_setting a \<Longrightarrow> \<exists>r. setting_bytes a @ rest = 9 # DT_INTERFACE # bInterfaceNumber a # bAlternateSetting a # r
     \<and> 9 \<le> length (setting_bytes a @ rest)"
  by (simp add: setting_bytes_def good_setting_def)

lemma follows_setting: "good_setting a \<Longrightarrow> follows (setting_bytes a @ rest)"
  using setting_bytes_head [of a rest] by (auto simp: follows_def)

lemma alternate_setting: "good_setting a \<Longrightarrow> alternate (setting_bytes a @ rest) \<longleftrightarrow> bAlternateSetting a \<noteq> 0"
  using setting_bytes_head [of a rest] by (auto simp: alternate_def)

lemma interface_loop_run:
  "as \<noteq> [] \<Longrightarrow> list_all good_setting as \<Longrightarrow> list_all (\<lambda>a. bAlternateSetting a \<noteq> 0) (tl as) \<Longrightarrow>
     follows rest \<Longrightarrow> \<not> alternate rest \<Longrightarrow> grant h = [] \<Longrightarrow> drop at buf = settings_bytes as @ rest \<Longrightarrow>
     sz = int (length (settings_bytes as) + length rest) \<Longrightarrow>
     interface_loop big ifc buf start at sz False h =
       (if last_readable (last as) rest
        then Inr (int (at + length (settings_bytes as) - start),
                  fold (\<lambda>a i. add_setting i a) as ifc,
                  plus_live h (owned_interface (fold (\<lambda>a i. add_setting i a) as ifc) - owned_interface ifc))
        else Inl OutOfBounds)"
proof (induction as arbitrary: at sz h ifc)
  case (Cons a as)
  let ?rest = "settings_bytes as @ rest" and ?b = "setting_bytes a"
  have a: "good_setting a" and as: "list_all good_setting as" using Cons.prems by simp_all
  have d: "drop at buf = ?b @ ?rest" and sz: "sz = int (length ?b + length ?rest)"
    using Cons.prems(7,8) by (simp_all add: settings_bytes_def)
  have nine: "\<not> sz < 9" using setting_bytes_head [OF a, of "[]"] sz by simp
  have f: "follows ?rest"
    using Cons.prems(4) as by (cases as) (simp_all add: settings_bytes_def follows_setting)
  have alt: "alternate ?rest \<longleftrightarrow> as \<noteq> []"
  proof (cases as)
    case (Cons a' as')
    with as Cons.prems(3) alternate_setting [of a' "settings_bytes as' @ rest"] show ?thesis
      by (simp add: settings_bytes_def)
  qed (use Cons.prems(5) in \<open>simp add: settings_bytes_def\<close>)
  note p = parse_setting_run [OF d a f Cons.prems(6) sz, of big ifc]
  show ?case
  proof (cases "as = []")
    case True
    show ?thesis
      by (subst interface_loop.simps) (use p nine alt True in \<open>simp add: settings_bytes_def\<close>)
  next
    case False
    then obtain a' as' where as': "as = a' # as'" by (cases as) auto
    then have "?rest \<noteq> []" using as setting_bytes_head [of a' "[]"] by (auto simp: settings_bytes_def)
    then have read: "last_readable a ?rest" by (simp add: last_readable_def)
    let ?i = "add_setting ifc a"
    let ?h = "plus_live h (owned_interface ?i - owned_interface ifc)"
    have tl: "list_all (\<lambda>a. bAlternateSetting a \<noteq> 0) (tl as)" using Cons.prems(3) as' by simp
    have "interface_loop big ?i buf start (at + length ?b) (int (length ?rest)) False ?h =
       (if last_readable (last as) rest
        then Inr (int (at + length ?b + length (settings_bytes as) - start),
                  fold (\<lambda>a i. add_setting i a) as ?i,
                  plus_live ?h (owned_interface (fold (\<lambda>a i. add_setting i a) as ?i) - owned_interface ?i))
        else Inl OutOfBounds)"
      by (rule Cons.IH [OF False as tl Cons.prems(4,5) _ drop_append_at [OF d]])
        (use Cons.prems(6) in simp_all)
    moreover have "interface_loop big ifc buf start at sz False h
        = interface_loop big ?i buf start (at + length ?b) (int (length ?rest)) False ?h"
      by (subst interface_loop.simps) (use p nine alt False read in simp)
    ultimately show ?thesis using False by (simp add: settings_bytes_def add.assoc)
  qed
qed simp

lemma fold_add_setting:
  "fold (\<lambda>a i. add_setting i a) as ifc
     = ifc\<lparr>altsetting := altsetting ifc @ as, num_altsetting := num_altsetting ifc + length as\<rparr>"
  by (induction as arbitrary: ifc) (simp_all add: add_setting_def)

lemma parse_interface_run:
  assumes ifc: "good_interface ifc" and rest: "follows rest" "\<not> alternate rest" and h: "grant h = []"
    and d: "drop at buf = settings_bytes (altsetting ifc) @ rest"
    and sz: "sz = int (length (settings_bytes (altsetting ifc)) + length rest)"
  shows "parse_interface big zero_interface buf at sz False h =
    (if last_readable (last (altsetting ifc)) rest
     then Inr (int (length (settings_bytes (altsetting ifc))), ifc, plus_live h (owned_interface ifc))
     else Inl OutOfBounds)"
proof -
  have "fold (\<lambda>a i. add_setting i a) (altsetting ifc) zero_interface = ifc"
    using ifc by (cases ifc) (simp add: fold_add_setting good_interface_def zero_interface_def)
  moreover have "zero_interface\<lparr>num_altsetting := 0\<rparr> = zero_interface" by (simp add: zero_interface_def)
  ultimately show ?thesis
    using interface_loop_run [of "altsetting ifc" rest h at buf sz big zero_interface at] assms
    by (simp add: parse_interface_def good_interface_def)
qed

lemma interfaces_bytes_head:
  assumes "list_all good_interface ifs"
  shows "follows (interfaces_bytes ifs) \<and> \<not> alternate (interfaces_bytes ifs)
    \<and> (interfaces_bytes ifs = [] \<longleftrightarrow> ifs = [])"
proof (cases ifs)
  case Nil
  then show ?thesis by (simp add: interfaces_bytes_def follows_def alternate_def)
next
  case (Cons ifc ifs')
  with assms obtain a as where a: "altsetting ifc = a # as" "good_setting a" "bAlternateSetting a = 0"
    by (cases "altsetting ifc") (auto simp: good_interface_def)
  have "interfaces_bytes ifs = setting_bytes a @ settings_bytes as @ interfaces_bytes ifs'"
    using Cons a by (simp add: interfaces_bytes_def settings_bytes_def)
  then show ?thesis using Cons a follows_setting [OF a(2)] alternate_setting [OF a(2)]
      setting_bytes_head [OF a(2), of "[]"] by auto
qed

lemma keep_extra_run:
  assumes "drop at buf = xs @ rest" and "grant h = []" and "xs \<noteq> [] \<longrightarrow> cd_extra c = []"
  shows "keep_extra buf at (at + length xs) c h
    = Inr (True, c\<lparr>cd_extra := if xs = [] then cd_extra c else xs\<rparr>, plus_live h (owned_extra xs))"
  using assms copy_extra_run [OF assms(1,2)] by (simp add: keep_extra_def)

lemma config_loop_run:
  "list_all good_interface ifs \<Longrightarrow> class_specific xs \<Longrightarrow> ifs = [] \<longrightarrow> xs = [] \<Longrightarrow> xs \<noteq> [] \<longrightarrow> cd_extra c = [] \<Longrightarrow>
     grant h = [] \<Longrightarrow> drop at buf = xs @ interfaces_bytes ifs \<Longrightarrow>
     sz = int (length xs + length (interfaces_bytes ifs)) \<Longrightarrow>
     interface c = front @ replicate (length ifs) zero_interface \<Longrightarrow>
     config_loop big buf False (length front) (length ifs) at sz c h =
       (if ifs = [] \<or> endpoint (last (altsetting (last ifs))) \<noteq> []
        then Inr (0, 0, c\<lparr>interface := front @ ifs, cd_extra := if xs = [] then cd_extra c else xs\<rparr>,
                  plus_live h (owned_extra xs + (\<Sum>i\<leftarrow>ifs. owned_interface i)))
        else Inl OutOfBounds)"
proof (induction ifs arbitrary: xs at sz c h front)
  case Nil
  then show ?case by (simp add: interfaces_bytes_def)
next
  case (Cons ifc ifs)
  let ?b = "settings_bytes (altsetting ifc)" and ?rest = "interfaces_bytes ifs"
  let ?at = "at + length xs" and ?c = "c\<lparr>cd_extra := if xs = [] then cd_extra c else xs\<rparr>"
  let ?h = "plus_live h (owned_extra xs)"
  have all: "interfaces_bytes (ifc # ifs) = ?b @ ?rest" by (simp add: interfaces_bytes_def)
  have ifc: "good_interface ifc" and ifs: "list_all good_interface ifs" using Cons.prems(1) by simp_all
  have halt: "halts (?b @ ?rest)" and s: "skip_loop True buf at sz = Inr (Some (?at, int (length (?b @ ?rest))))"
  proof -
    show "halts (?b @ ?rest)" using interfaces_bytes_head [OF Cons.prems(1)] all follows_halts by metis
    then show "skip_loop True buf at sz = Inr (Some (?at, int (length (?b @ ?rest))))"
      using Cons.prems(2,6,7) all by (intro skip_class) simp_all
  qed
  have d1: "drop ?at buf = ?b @ ?rest" by (rule drop_append_at) (use Cons.prems(6) all in simp)
  note k = keep_extra_run [OF Cons.prems(6,5,4)]
  have i: "interface ?c ! length front = zero_interface" using Cons.prems(8) by simp
  have p: "parse_interface big zero_interface buf ?at (int (length (?b @ ?rest))) False ?h =
      (if last_readable (last (altsetting ifc)) ?rest
       then Inr (int (length ?b), ifc, plus_live ?h (owned_interface ifc)) else Inl OutOfBounds)"
    using interfaces_bytes_head [OF ifs] Cons.prems(5) by (intro parse_interface_run ifc d1) auto
  show ?case
  proof (cases "last_readable (last (altsetting ifc)) ?rest")
    case False
    then have "ifs = []" "endpoint (last (altsetting ifc)) = []"
      using interfaces_bytes_head [OF ifs] by (auto simp: last_readable_def)
    with s k i p False show ?thesis by simp
  next
    case True
    let ?c2 = "?c\<lparr>interface := (front @ [ifc]) @ replicate (length ifs) zero_interface\<rparr>"
    let ?h2 = "plus_live ?h (owned_interface ifc)"
    have up: "(interface ?c)[length front := ifc] = (front @ [ifc]) @ replicate (length ifs) zero_interface"
      using Cons.prems(8) by (simp add: list_update_append)
    have d2: "drop (?at + length ?b) buf = [] @ ?rest" using drop_append_at [OF d1] by simp
    have "config_loop big buf False (length (front @ [ifc])) (length ifs) (?at + length ?b)
          (int (length ([] :: u8 list) + length ?rest)) ?c2 ?h2 =
       (if ifs = [] \<or> endpoint (last (altsetting (last ifs))) \<noteq> []
        then Inr (0, 0, ?c2\<lparr>interface := (front @ [ifc]) @ ifs, cd_extra := if ([] :: u8 list) = [] then cd_extra ?c2 else []\<rparr>,
                  plus_live ?h2 (owned_extra [] + (\<Sum>i\<leftarrow>ifs. owned_interface i)))
        else Inl OutOfBounds)"
      by (rule Cons.IH [OF ifs class_specific.none _ _ _ d2 refl]) (use Cons.prems(5) in simp_all)
    then have step: "config_loop big buf False (Suc (length front)) (length ifs) (?at + length ?b)
          (int (length ?rest)) ?c2 ?h2 =
       (if ifs = [] \<or> endpoint (last (altsetting (last ifs))) \<noteq> []
        then Inr (0, 0, ?c\<lparr>interface := front @ ifc # ifs\<rparr>,
                  plus_live h (owned_extra xs + (\<Sum>i\<leftarrow>ifc # ifs. owned_interface i)))
        else Inl OutOfBounds)" by (simp add: algebra_simps)
    have "config_loop big buf False (length front) (length (ifc # ifs)) at sz c h
        = config_loop big buf False (Suc (length front)) (length ifs) (?at + length ?b) (int (length ?rest)) ?c2 ?h2"
      using s k i p True up by (simp add: Let_def)
    moreover have "(ifs = [] \<or> endpoint (last (altsetting (last ifs))) \<noteq> [])
        \<longleftrightarrow> endpoint (last (altsetting (last (ifc # ifs)))) \<noteq> []"
      using True interfaces_bytes_head [OF ifs] by (auto simp: last_readable_def)
    ultimately show ?thesis using step by simp
  qed
qed

lemma parse_configuration_run:
  assumes c: "good_config c" and h: "grant h = []"
  shows "parse_configuration big (config_bytes c) False h =
    (if endpoint (last_setting c) \<noteq> [] then Inr (0, c, plus_live h (owned_config c)) else Inl OutOfBounds)"
proof -
  let ?buf = "config_bytes c" and ?n = "unat (bNumInterfaces c)"
  define c1 where "c1 = c\<lparr>interface := replicate ?n zero_interface, cd_extra := []\<rparr>"
  have ptr: "interface_ptr c" and nine: "cd_bLength c = 9" and n: "?n = length (interface c)"
    and ne: "interface c \<noteq> []" and total: "unat (wTotalLength c) = length ?buf"
    using c by (simp_all add: good_config_def)
  have u: "uint (wTotalLength c) = int (length ?buf)" unfolding total [symmetric] by simp
  have few: "\<not> uint (bNumInterfaces c) > USB_MAXINTERFACES"
    using c int_le_uint [of 33 "bNumInterfaces c"] by (simp add: good_config_def USB_MAXINTERFACES_def)
  have f: "config_fields big ?buf False = Inr (c\<lparr>interface := [], cd_extra := [], interface_ptr := False\<rparr>)"
  proof -
    have "9 \<le> length ?buf" by (simp add: config_bytes_def)
    from config_fields_le [OF this] show ?thesis
      by (cases c) (simp add: config_bytes_def le16_def of_le16_bytes)
  qed
  have d: "drop 9 ?buf = cd_extra c @ interfaces_bytes (interface c)"
    by (simp add: config_bytes_def le16_def)
  have "config_loop big ?buf False (length ([] :: usb_interface list)) (length (interface c)) 9
        (int (length ?buf) - 9) c1 (plus_live h 1) =
     (if interface c = [] \<or> endpoint (last (altsetting (last (interface c)))) \<noteq> []
      then Inr (0, 0, c1\<lparr>interface := [] @ interface c, cd_extra := if cd_extra c = [] then cd_extra c1 else cd_extra c\<rparr>,
            plus_live (plus_live h 1) (owned_extra (cd_extra c) + (\<Sum>i\<leftarrow>interface c. owned_interface i)))
      else Inl OutOfBounds)"
    by (rule config_loop_run) (use c h d n in \<open>simp_all add: good_config_def c1_def config_bytes_def\<close>)
  then have loop: "config_loop big ?buf False 0 ?n 9 (int (length ?buf) - 9) c1 (plus_live h 1) =
     (if endpoint (last_setting c) \<noteq> [] then Inr (0, 0, c, plus_live h (owned_config c)) else Inl OutOfBounds)"
    using ne n ptr by (cases c) (simp add: c1_def last_setting_def owned_config_def algebra_simps)
  have "c\<lparr>cd_extra := [], interface := replicate ?n zero_interface, interface_ptr := True\<rparr> = c1"
    using ptr by (cases c) (simp add: c1_def)
  then show ?thesis using f few h loop u nine
    by (simp add: parse_configuration_def malloc_granted Let_def)
qed

section \<open>Properties\<close>

text \<open>A device that answers requests for its configuration with the first bytes of it.\<close>

definition device_with :: "parsed_config \<Rightarrow> nat \<Rightarrow> backend" where
  "device_with c i n = (0, take n (config_bytes c), False)"

lemma get_active_run:
  assumes c: "good_config c" and h: "grant h = []"
  shows "libusb_get_active_config_descriptor big (device_with c i) junk h =
    (if endpoint (last_setting c) \<noteq> [] then Inr (0, Some c, plus_live h (1 + owned_config c)) else Inl OutOfBounds)"
proof -
  have w: "usbi_parse_descriptor big (filled junk 8 (take 8 (config_bytes c))) 0 ''bbw'' False
      = Inr ([Byte (cd_bLength c), Byte (cd_bDescriptorType c), Half (wTotalLength c)], 4)"
    by (simp add: config_bytes_def rd_def nth_filled le16_def of_le16_bytes)
  have n: "unat (wTotalLength c) = length (config_bytes c)" using c by (simp add: good_config_def)
  have "parse_configuration big (config_bytes c) False (plus_live h 2) =
      (if endpoint (last_setting c) \<noteq> [] then Inr (0, c, plus_live (plus_live h 2) (owned_config c))
       else Inl OutOfBounds)"
    by (rule parse_configuration_run [OF c]) (use h in simp)
  then show ?thesis
    using w n h
    by (simp add: libusb_get_active_config_descriptor_def device_with_def malloc_granted filled_id
        free_block_def algebra_simps)
qed

text \<open>C26: round trip of configuration descriptors. A well-formed configuration (class descriptors with
  valid lengths, every interface made of a setting 0 and its alternates, counts and total length
  right) whose last setting has an endpoint is read from the device exactly as it was written, with
  all its interfaces, settings, endpoints and class descriptors, on hosts of either byte order; and
  only the blocks of the result stay allocated.\<close>

theorem config_roundtrip:
  assumes "good_config c" and "endpoint (last_setting c) \<noteq> []" and "grant h = []"
    and "unat i < unat n"
  shows "libusb_get_config_descriptor big n (device_with c) junk i h
    = Inr (0, Some c, h\<lparr>live := live h + (1 + owned_config c)\<rparr>)"
  using get_active_run [OF assms(1,3)] assms(2,4)
  by (simp add: libusb_get_config_descriptor_def word_le_nat_alt)

lemma sample_good: "good_config sample_parsed"
proof -
  have "class_specific [3, 0x24, 7]"
    using class_specific.more [of 3 "[7]" "0x24" "[]"] class_specific.none by (simp add: proper_def dt_defs)
  then show ?thesis
    by (simp add: good_config_def sample_parsed_def good_interface_def good_setting_def good_endpoint_def
        config_bytes_def interfaces_bytes_def settings_bytes_def setting_bytes_def endpoint_bytes_def
        class_specific.none dt_defs)
qed

theorem config_roundtrip_witness:
  "libusb_get_config_descriptor True 1 (device_with sample_parsed) (\<lambda>_. 0) 0 \<lparr>grant = [], live = 0\<rparr>
     = Inr (0, Some sample_parsed, \<lparr>grant = [], live = 5\<rparr>)"
proof -
  have "endpoint (last_setting sample_parsed) \<noteq> []" by (simp add: last_setting_def sample_parsed_def)
  moreover have "owned_config sample_parsed = 4" by code_simp
  ultimately show ?thesis
    using config_roundtrip [OF sample_good, of "\<lparr>grant = [], live = 0\<rparr>" 0 1 True "\<lambda>_. 0"] by simp
qed

text \<open>A configuration that ends in a setting without endpoints is read past its end. However
  well-formed the configuration is, after the class descriptors of its last setting the parser reads
  two more bytes before it looks at the remaining size, behind the block allocated for the
  descriptor.\<close>

theorem config_overread:
  assumes "good_config c" and "endpoint (last_setting c) = []" and "grant h = []"
  shows "libusb_get_active_config_descriptor big (device_with c i) junk h = Inl OutOfBounds"
  using get_active_run [OF assms(1,3)] assms(2) by simp

definition no_endpoints :: parsed_config where
  "no_endpoints = \<lparr>cd_bLength = 9, cd_bDescriptorType = 2, wTotalLength = 18, bNumInterfaces = 1,
     bConfigurationValue = 1, iConfiguration = 0, cd_bmAttributes = 0x80, MaxPower = 50,
     interface = [\<lparr>altsetting = [\<lparr>id_bLength = 9, id_bDescriptorType = 4, bInterfaceNumber = 0,
         bAlternateSetting = 0, bNumEndpoints = 0, bInterfaceClass = 0xfe, bInterfaceSubClass = 1,
         bInterfaceProtocol = 1, iInterface = 0, endpoint = [], id_extra = []\<rparr>], num_altsetting = 1\<rparr>],
     cd_extra = [], interface_ptr = True\<rparr>"

theorem config_overread_witness:
  "libusb_get_active_config_descriptor False (device_with no_endpoints 0) (\<lambda>_. 0) \<lparr>grant = [], live = 0\<rparr>
     = Inl OutOfBounds"
proof (rule config_overread)
  show "good_config no_endpoints"
    by (simp add: good_config_def no_endpoints_def good_interface_def good_setting_def
        config_bytes_def interfaces_bytes_def settings_bytes_def setting_bytes_def
        class_specific.none dt_defs)
qed (simp_all add: last_setting_def no_endpoints_def)

end
