(* ===== verification/String_Descriptor.thy ===== *)
theory String_Descriptor
  imports Descriptor
begin

text \<open>
  String descriptors: \<open>libusb_get_string_descriptor\<close> (\<open>libusb.h\<close>) and the conversion to ASCII of
  \<open>libusb_get_string_descriptor_ascii\<close> (\<open>descriptor.c\<close>), on top of the control transfers of
  \<open>SyncIo\<close>. The script lists, for each control request, the bytes the device answers and what the
  transfer engine does.
\<close>

section \<open>The code\<close>

type_synonym request_script = "(u8 list \<times> sync_env) list"

text \<open>The request: its return value, the buffer after the bytes of the answer have been copied to its
  start, and the rest of the script. The length is passed on as 16 bits.\<close>

definition libusb_get_string_descriptor ::
    "addr \<Rightarrow> u8 \<Rightarrow> u16 \<Rightarrow> u8 list \<Rightarrow> int \<Rightarrow> request_script \<Rightarrow> fault + int \<times> u8 list \<times> request_script" where
  "libusb_get_string_descriptor dev desc_index langid buf len script =
     (case script of
        [] \<Rightarrow> Inl Blocked
      | (incoming, env) # rest \<Rightarrow>
          bindF (libusb_control_transfer dev ENDPOINT_IN REQUEST_GET_DESCRIPTOR
                   (push_bit 8 (ucast DT_STRING) OR ucast desc_index) langid buf (of_int len) 1000
                   incoming env)
            (\<lambda>(res, bs). Inr (ret res, bs @ drop (length bs) buf, rest)))"

definition wr :: "u8 list \<Rightarrow> nat \<Rightarrow> u8 \<Rightarrow> fault + u8 list" where
  "wr xs i b = (if i < length xs then Inr (xs[i := b]) else Inl OutOfBounds)"

text \<open>The loop over the 16-bit units; the source index grows by two, up to the length byte \<open>n\<close>.\<close>

function ascii_loop ::
    "u8 list \<Rightarrow> nat \<Rightarrow> int \<Rightarrow> nat \<Rightarrow> nat \<Rightarrow> u8 list \<Rightarrow> fault + nat \<times> u8 list" where
  "ascii_loop tbuf n len si di dat =
     (if si < n
      then if int di \<ge> len - 1 then Inr (di, dat)
           else bindF (rd tbuf (si + 1)) (\<lambda>hi.
                bindF (if hi \<noteq> 0 then Inr (of_char (CHR ''?'')) else rd tbuf si) (\<lambda>c.
                bindF (wr dat di c) (\<lambda>dat'. ascii_loop tbuf n len (si + 2) (di + 1) dat')))
      else Inr (di, dat))"
  by pat_completeness auto
termination
  by (relation "measure (\<lambda>(tbuf, n, len, si, di, dat). n - si)") auto

declare ascii_loop.simps [simp del]

text \<open>The string of a descriptor: \<open>tbuf\<close> is the content of the local buffer, \<open>dat\<close> that of the
  caller's, whose size the caller gives as \<open>len\<close>.\<close>

definition libusb_get_string_descriptor_ascii ::
    "addr \<Rightarrow> u8 \<Rightarrow> u8 list \<Rightarrow> int \<Rightarrow> u8 list \<Rightarrow> request_script \<Rightarrow> fault + int \<times> u8 list" where
  "libusb_get_string_descriptor_ascii dev desc_index dat len tbuf script =
     bindF (libusb_get_string_descriptor dev 0 0 tbuf 255 script) (\<lambda>(r, tbuf1, script1).
       if r < 0 then Inr (r, dat)
       else if r < 4 then Inr (rc LIBUSB_ERROR_IO, dat)
       else
         let langid = of_le16 (tbuf1 ! 2) (tbuf1 ! 3)
         in bindF (libusb_get_string_descriptor dev desc_index langid tbuf1 255 script1)
              (\<lambda>(r, tbuf2, script2).
              if r < 0 then Inr (r, dat)
              else if tbuf2 ! 1 \<noteq> DT_STRING then Inr (rc LIBUSB_ERROR_IO, dat)
              else if uint (tbuf2 ! 0) > r then Inr (rc LIBUSB_ERROR_IO, dat)
              else bindF (ascii_loop tbuf2 (unat (tbuf2 ! 0)) len 2 0 dat) (\<lambda>(di, dat').
                   bindF (wr dat' di 0) (\<lambda>dat''. Inr (int di, dat'')))))"

section \<open>Requests\<close>

lemma string_request_in:
  assumes "libusb_get_string_descriptor dev i lang buf 255 script = Inr (r, buf', rest)"
    and "length buf = 255"
  obtains incoming env bs where "script = (incoming, env) # rest" and "buf' = bs @ drop (length bs) buf"
    and "bs = take (length bs) incoming" and "r \<le> int (length bs)" and "length bs \<le> 255"
    and "length buf' = 255"
proof -
  from assms(1) obtain incoming env res bs where s: "script = (incoming, env) # rest"
    and c: "libusb_control_transfer dev ENDPOINT_IN REQUEST_GET_DESCRIPTOR
        (push_bit 8 (ucast DT_STRING) OR ucast i) lang buf 255 1000 incoming env = Inr (res, bs)"
    and eq: "r = ret res" "buf' = bs @ drop (length bs) buf"
    by (auto simp: libusb_get_string_descriptor_def elim!: bindF_InrE split: list.splits)
  from control_in [OF c] have "r \<le> int (length bs)" "length bs \<le> 255" "bs = take (length bs) incoming"
    by (simp_all add: eq)
  with that [OF s eq(2)] assms(2) show thesis by (simp add: eq(2))
qed

lemma string_request_blocked:
  "libusb_get_string_descriptor dev i lang buf len script = Inl f \<Longrightarrow> f = Blocked"
  by (auto simp: libusb_get_string_descriptor_def fault_simps split: list.splits
      dest: control_in_blocked)

section \<open>The conversion\<close>

text \<open>The character for unit \<open>k\<close>, and the number of characters stored.\<close>

definition ascii_char :: "u8 list \<Rightarrow> nat \<Rightarrow> u8" where
  "ascii_char tbuf k = (if tbuf ! (2 * k + 3) \<noteq> 0 then of_char (CHR ''?'') else tbuf ! (2 * k + 2))"

definition ascii_count :: "nat \<Rightarrow> int \<Rightarrow> nat" where
  "ascii_count n len = min (nat (len - 1)) ((n - 1) div 2)"

lemma ascii_loop_run:
  "length tbuf = 255 \<Longrightarrow> n < 255 \<Longrightarrow> len \<le> int (length dat) \<Longrightarrow> di \<le> ascii_count n len \<Longrightarrow>
     ascii_loop tbuf n len (2 * di + 2) di dat
       = Inr (ascii_count n len, take di dat @ map (ascii_char tbuf) [di..<ascii_count n len]
              @ drop (ascii_count n len) dat)"
proof (induction "ascii_count n len - di" arbitrary: di dat)
  case 0
  then have "di = ascii_count n len" by simp
  then have "n \<le> 2 * di + 2 \<or> len - 1 \<le> int di" by (auto simp: ascii_count_def min_def split: if_splits)
  with \<open>di = _\<close> show ?case by (subst ascii_loop.simps) auto
next
  case (Suc k)
  let ?m = "ascii_count n len" and ?c = "ascii_char tbuf di"
  from Suc.hyps(2) have less: "di < ?m" by simp
  then have si: "2 * di + 2 < n" "\<not> len - 1 \<le> int di" "di < length dat"
    using Suc.prems by (auto simp: ascii_count_def)
  then have hi: "rd tbuf (2 * di + 2 + 1) = Inr (tbuf ! (2 * di + 3))"
    and lo: "rd tbuf (2 * di + 2) = Inr (tbuf ! (2 * di + 2))"
    using Suc.prems(1,2) by (simp_all add: rd_def numeral_3_eq_3)
  have "ascii_loop tbuf n len (2 * di + 2) di dat
      = ascii_loop tbuf n len (2 * Suc di + 2) (Suc di) (dat[di := ?c])"
    by (subst ascii_loop.simps) (use si hi lo in \<open>simp add: wr_def ascii_char_def\<close>)
  also have "\<dots> = Inr (?m, take (Suc di) (dat[di := ?c]) @ map (ascii_char tbuf) [Suc di..<?m] @ drop ?m dat)"
    using Suc.hyps(1) [of "Suc di" "dat[di := ?c]"] Suc.hyps(2) Suc.prems less by simp
  also have "take (Suc di) (dat[di := ?c]) = take di dat @ [?c]"
    using si(3) by (simp add: take_Suc_conv_app_nth)
  finally show ?case using less by (simp add: upt_conv_Cons)
qed

lemma ascii_store:
  assumes "length tbuf = 255" "n < 255" "1 \<le> len" "len \<le> int (length dat)"
  shows "bindF (ascii_loop tbuf n len 2 0 dat) (\<lambda>(di, dat'). bindF (wr dat' di 0) (\<lambda>dat''. Inr (int di, dat'')))
    = Inr (int (ascii_count n len), map (ascii_char tbuf) [0..<ascii_count n len] @
           0 # drop (ascii_count n len + 1) dat)"
proof -
  let ?m = "ascii_count n len"
  have m: "?m < length dat" using assms(3,4) by (simp add: ascii_count_def)
  then have "drop ?m dat = dat ! ?m # drop (?m + 1) dat" by (simp add: Cons_nth_drop_Suc)
  with m ascii_loop_run [OF assms(1,2,4), of 0] show ?thesis
    by (simp add: wr_def list_update_append numeral_2_eq_2)
qed

text \<open>Reading a string descriptor stays within its buffers. If the caller passes the size of its
  buffer and the device answers each request with fewer than 255 bytes, then whatever they are and
  however the transfers end, neither the local buffer nor the caller's is overrun; a result is less
  than the size, and a non-negative one is the position of the terminating zero byte that has been
  stored, behind which the caller's buffer is unchanged.\<close>

theorem string_ascii_in_bounds:
  assumes "1 \<le> len" "len \<le> int (length dat)" "length tbuf = 255"
    and short: "list_all (\<lambda>(answer, env). length answer < 255) script"
  shows "case libusb_get_string_descriptor_ascii dev i dat len tbuf script of
      Inl f \<Rightarrow> f = Blocked
    | Inr (r, dat') \<Rightarrow> length dat' = length dat \<and> r < len
        \<and> (0 \<le> r \<longrightarrow> dat' ! nat r = 0 \<and> drop (nat r + 1) dat' = drop (nat r + 1) dat)
        \<and> (r < 0 \<longrightarrow> dat' = dat)"
proof (cases "libusb_get_string_descriptor dev 0 0 tbuf 255 script")
  case (Inl f)
  then show ?thesis using string_request_blocked [OF Inl]
    by (simp add: libusb_get_string_descriptor_ascii_def)
next
  case (Inr x)
  then obtain r1 tbuf1 script1 where q1: "libusb_get_string_descriptor dev 0 0 tbuf 255 script
      = Inr (r1, tbuf1, script1)" by (cases x) auto
  from string_request_in [OF q1 assms(3)] obtain in1 env1 where
    s1: "script = (in1, env1) # script1" and t1: "length tbuf1 = 255" by metis
  let ?lang = "of_le16 (tbuf1 ! 2) (tbuf1 ! 3)"
  show ?thesis
  proof (cases "r1 < 4")
    case True
    with q1 assms show ?thesis by (auto simp: libusb_get_string_descriptor_ascii_def)
  next
    case r1: False
    show ?thesis
    proof (cases "libusb_get_string_descriptor dev i ?lang tbuf1 255 script1")
      case (Inl f)
      then show ?thesis using q1 r1 string_request_blocked [OF Inl]
        by (simp add: libusb_get_string_descriptor_ascii_def Let_def)
    next
      case (Inr y)
      then obtain r2 tbuf2 script2 where q2: "libusb_get_string_descriptor dev i ?lang tbuf1 255 script1
          = Inr (r2, tbuf2, script2)" by (cases y) auto
      from string_request_in [OF q2 t1] obtain in2 env2 bs where s2: "script1 = (in2, env2) # script2"
        and bs: "bs = take (length bs) in2" and r2: "r2 \<le> int (length bs)" and t2: "length tbuf2 = 255"
        by metis
      have "length bs \<le> length in2" using bs by (metis length_take min.cobounded1)
      with r2 short s1 s2 have "r2 < 255" by simp
      show ?thesis
      proof (cases "r2 < 0 \<or> tbuf2 ! 1 \<noteq> DT_STRING \<or> uint (tbuf2 ! 0) > r2")
        case True
        with q1 r1 q2 assms show ?thesis
          by (auto simp: libusb_get_string_descriptor_ascii_def Let_def)
      next
        case False
        with \<open>r2 < 255\<close> have "int (unat (tbuf2 ! 0)) < 255" by simp
        then have n: "unat (tbuf2 ! 0) < 255" by linarith
        let ?m = "ascii_count (unat (tbuf2 ! 0)) len"
        have m: "int ?m < len" using assms(1) by (simp add: ascii_count_def)
        with ascii_store [OF t2 n assms(1,2)] q1 r1 q2 False assms(2) show ?thesis
          by (simp add: libusb_get_string_descriptor_ascii_def Let_def nth_append)
      qed
    qed
  qed
qed

text \<open>The string descriptor of a sequence of 16-bit units, and a device that has it for every index.\<close>

definition unit_string :: "u16 list \<Rightarrow> u8 list" where
  "unit_string us = [of_nat (2 + 2 * length us), DT_STRING] @ concat (map le16 us)"

definition string_script :: "u16 list \<Rightarrow> request_script" where
  "string_script us = [([4, 3, 0x09, 0x04], good_env 255), (unit_string us, good_env 255)]"

definition ascii_unit :: "u16 \<Rightarrow> u8" where
  "ascii_unit w = (if w < 256 then ucast w else of_char (CHR ''?''))"

lemma length_units [simp]: "length (concat (map le16 us)) = 2 * length us"
  by (induction us) simp_all

lemma units_nth:
  "k < length us \<Longrightarrow> concat (map le16 us) ! (2 * k) = ucast (us ! k)
     \<and> concat (map le16 us) ! Suc (2 * k) = ucast (drop_bit 8 (us ! k))"
proof (induction us arbitrary: k)
  case (Cons w us)
  then show ?case by (cases k) (auto simp: le16_def)
qed simp

lemma high_byte: "(ucast (drop_bit 8 (w :: u16)) :: u8) \<noteq> 0 \<longleftrightarrow> \<not> w < 256"
proof -
  have "unat (ucast (drop_bit 8 w) :: u8) = unat (drop_bit 8 w) mod 256"
    by (simp add: unsigned_ucast_eq take_bit_eq_mod)
  also have "unat (drop_bit 8 w) = unat w div 256"
    by (simp add: drop_bit_eq_div unat_div)
  also have "unat w div 256 mod 256 = unat w div 256"
    using u16_less [of w] by (intro mod_less) simp
  finally have "(ucast (drop_bit 8 w) :: u8) = 0 \<longleftrightarrow> unat w div 256 = 0"
    by (simp only: unat_eq_zero [symmetric])
  also have "\<dots> \<longleftrightarrow> unat w < 256" by (simp add: div_eq_0_iff)
  also have "\<dots> \<longleftrightarrow> w < 256" by (simp add: word_less_nat_alt)
  finally show ?thesis by simp
qed

lemma unat_of_nat_u8: "k < 256 \<Longrightarrow> unat (of_nat k :: u8) = k"
  by (simp add: unsigned_of_nat take_bit_nat_eq_self)

lemma request_answered:
  assumes "length buf = 255" and "length answer \<le> 255"
  shows "libusb_get_string_descriptor dev i lang buf 255 ((answer, good_env 255) # rest)
    = Inr (int (length answer), answer @ drop (length answer) buf, rest)"
  using assms by (simp add: libusb_get_string_descriptor_def libusb_control_transfer_def good_env_def Let_def
      endpoint_dir_defs min_def)

text \<open>C28: what the caller gets for a string. For every descriptor of up to 126 16-bit units that fits
  into the caller's buffer with its terminator, the units below 256 arrive as their low bytes, all
  others as question marks, and the result is the number of units.\<close>

theorem string_ascii_units:
  assumes us: "length us \<le> 126" "int (length us) < len" "len \<le> int (length dat)" "length tbuf = 255"
  shows "libusb_get_string_descriptor_ascii dev i dat len tbuf (string_script us)
    = Inr (int (length us), map ascii_unit us @ 0 # drop (length us + 1) dat)"
proof -
  let ?s = "unit_string us" and ?t1 = "[4, 3, 0x09, 0x04] @ drop (length [4, 3, 0x09, 0x04 :: u8]) tbuf"
  let ?t2 = "?s @ drop (length ?s) ?t1" and ?n = "2 + 2 * length us"
  have ls: "length ?s = ?n" "length ?s \<le> 255" using us(1) by (simp_all add: unit_string_def)
  have t2: "length ?t2 = 255" using us(4) ls by simp
  have b0: "unat (?t2 ! 0) = ?n" "uint (?t2 ! 0) = int ?n"
  proof -
    show "unat (?t2 ! 0) = ?n"
      unfolding unit_string_def append_Cons nth_Cons_0 using us(1) by (intro unat_of_nat_u8) simp
    then show "uint (?t2 ! 0) = int ?n" by (simp only: uint_nat)
  qed
  have count: "ascii_count ?n len = length us"
    using us(2) by (auto simp: ascii_count_def)
  have chars: "map (ascii_char ?t2) [0..<length us] = map ascii_unit us"
  proof (rule nth_equalityI)
    fix k assume "k < length (map (ascii_char ?t2) [0..<length us])"
    then have k: "k < length us" by simp
    have "?t2 ! (2 * k + 3) = concat (map le16 us) ! Suc (2 * k)"
      "?t2 ! (2 * k + 2) = concat (map le16 us) ! (2 * k)"
      using k by (simp_all add: unit_string_def nth_append numeral_3_eq_3 numeral_2_eq_2)
    then show "map (ascii_char ?t2) [0..<length us] ! k = map ascii_unit us ! k"
      using k units_nth [OF k] high_byte [of "us ! k"] by (simp add: ascii_char_def ascii_unit_def)
  qed simp
  have q1: "libusb_get_string_descriptor dev 0 0 tbuf 255 (string_script us)
      = Inr (4, ?t1, [(?s, good_env 255)])"
    using request_answered [of tbuf "[4, 3, 0x09, 0x04]"] us(4) by (simp add: string_script_def)
  have q2: "libusb_get_string_descriptor dev i (of_le16 (?t1 ! 2) (?t1 ! 3)) ?t1 255 [(?s, good_env 255)]
      = Inr (int ?n, ?t2, [])"
    using request_answered [of ?t1 ?s dev i _ "[]"] us(4) ls by simp
  have "?t2 ! 1 = DT_STRING" by (simp add: unit_string_def)
  moreover have "unat (?t2 ! 0) < 255" "1 \<le> len" using b0 us by simp_all
  ultimately show ?thesis
    using q1 q2 b0 ascii_store [OF t2 _ _ us(3), of "unat (?t2 ! 0)"] count chars
    by (simp add: libusb_get_string_descriptor_ascii_def Let_def)
qed

text \<open>The bounds above need answers of fewer than 255 bytes: a descriptor that fills the local buffer
  has an odd length, and the high byte of its last unit is read behind the buffer.\<close>

lemma string_ascii_overread:
  assumes "length answer = 255" "answer ! 0 = 255" "answer ! 1 = DT_STRING"
    and "128 \<le> len" "len \<le> int (length dat)" "length tbuf = 255"
  shows "libusb_get_string_descriptor_ascii dev i dat len tbuf
      [([4, 3, 0x09, 0x04], good_env 255), (answer, good_env 255)] = Inl OutOfBounds"
proof -
  let ?t1 = "[4, 3, 0x09, 0x04] @ drop (length [4, 3, 0x09, 0x04 :: u8]) tbuf"
  have q1: "libusb_get_string_descriptor dev 0 0 tbuf 255
      [([4, 3, 0x09, 0x04], good_env 255), (answer, good_env 255)] = Inr (4, ?t1, [(answer, good_env 255)])"
    using request_answered [of tbuf "[4, 3, 0x09, 0x04]"] assms(6) by simp
  have q2: "libusb_get_string_descriptor dev i (of_le16 (?t1 ! 2) (?t1 ! 3)) ?t1 255 [(answer, good_env 255)]
      = Inr (255, answer, [])"
    using request_answered [of ?t1 answer dev i _ "[]"] assms(1,6) by simp
  have "ascii_loop answer 255 len (2 * di + 2) di dat' = Inl OutOfBounds"
    if "di \<le> 126" "len \<le> int (length dat')" for di dat'
    using that
  proof (induction "126 - di" arbitrary: di dat')
    case 0
    then have "di = 126" by simp
    then show ?case
      using assms(1,4) by (subst ascii_loop.simps) (simp add: rd_def)
  next
    case (Suc k)
    then have less: "di < 126" by simp
    have step: "ascii_loop answer 255 len (2 * di + 2) di dat'
        = ascii_loop answer 255 len (2 * Suc di + 2) (Suc di) (dat'[di := ascii_char answer di])"
      using less assms(1,4) Suc.prems
      by (subst ascii_loop.simps) (auto simp: rd_def wr_def ascii_char_def numeral_3_eq_3)
    show ?case unfolding step using Suc less by (intro Suc.hyps(1)) auto
  qed
  from this [of 0 dat] have "ascii_loop answer 255 len 2 0 dat = Inl OutOfBounds"
    using assms(5) by (simp add: numeral_2_eq_2)
  then show ?thesis using q1 q2 assms(2,3)
    by (simp add: libusb_get_string_descriptor_ascii_def Let_def)
qed

text \<open>The four characters of a product name, one of them outside ASCII.\<close>

definition zero_buffer :: "u8 list" where
  "zero_buffer = replicate 255 0"

lemma length_zero_buffer [simp]: "length zero_buffer = 255"
  by (simp add: zero_buffer_def)

theorem string_ascii_units_witness:
  "libusb_get_string_descriptor_ascii 0 2 [1, 2, 3, 4, 5, 6] 6 zero_buffer
     (string_script [0x7a, 0x61, 0x20ac, 0x62])
   = Inr (4, [0x7a, 0x61, 0x3f, 0x62, 0, 6])"
proof -
  have "map ascii_unit [0x7a, 0x61, 0x20ac, 0x62] = [0x7a, 0x61, 0x3f, 0x62]"
    by (simp add: ascii_unit_def)
  with string_ascii_units [of "[0x7a, 0x61, 0x20ac, 0x62]" 6 "[1, 2, 3, 4, 5, 6]" zero_buffer 0 2]
  show ?thesis by simp
qed

theorem string_ascii_in_bounds_witness:
  "case libusb_get_string_descriptor_ascii 0 2 [1, 2, 3] 3 zero_buffer (string_script [0x7a, 0x61, 0x62]) of
     Inl f \<Rightarrow> f = Blocked | Inr (r, dat') \<Rightarrow> length dat' = 3 \<and> r < 3"
proof -
  have "list_all (\<lambda>(answer, env). length answer < 255) (string_script [0x7a, 0x61, 0x62])"
    by (simp add: string_script_def unit_string_def le16_def)
  from string_ascii_in_bounds [of 3 "[1, 2, 3]" zero_buffer, OF _ _ _ this, of 0 2]
  show ?thesis by (auto simp: eval_nat_numeral split: sum.splits)
qed

end
