(* ===== verification/Client.thy ===== *)
theory Client
  imports Session Devices Keycode
begin

text \<open>
  The program around the session (\<open>zadb.c\<close>, and \<open>usb_init\<close> of \<open>usb_libusb.c\<close>): the trace mask,
  starting up, the thread that watches for the device, and waiting for it. What the other threads
  do while this one sleeps is an explicit list of steps, one entry for each sleep; a loop that
  sleeps past the end of the list is \<open>Inl Blocked\<close>. The state has a clock, which tells when the sleeps of
  the watch thread are over.
\<close>

section \<open>The trace mask\<close>

definition TRACE_ADB :: nat where "TRACE_ADB = 0"
definition TRACE_PACKETS :: nat where "TRACE_PACKETS = 1"
definition TRACE_TRANSPORT :: nat where "TRACE_TRANSPORT = 2"
definition TRACE_USB :: nat where "TRACE_USB = 3"
definition TRACE_KEY :: nat where "TRACE_KEY = 4"

lemmas trace_defs = TRACE_ADB_def TRACE_PACKETS_def TRACE_TRANSPORT_def TRACE_USB_def TRACE_KEY_def

definition tags :: "(string \<times> nat) list" where
  "tags = [(''1'', 0), (''all'', 0), (''adb'', TRACE_ADB), (''packets'', TRACE_PACKETS),
     (''usb'', TRACE_USB), (''transport'', TRACE_TRANSPORT), (''key'', TRACE_KEY)]"

definition separators :: string where
  "separators = '' ,:;''"

text \<open>The loop over the list of tags, one tag at a time: a tag with flag 0 sets the whole mask and
  returns; an unknown tag is skipped.\<close>

function trace_loop :: "string \<Rightarrow> u32 \<Rightarrow> u32" where
  "trace_loop p m =
     (if p = [] then m
      else let tg = takeWhile (\<lambda>c. c \<notin> set separators) p;
               q = drop (length tg) p;
               p' = (if q = [] then q else tl q)
           in case map_of tags tg of
                None \<Rightarrow> trace_loop p' m
              | Some flag \<Rightarrow>
                  if flag = 0 then -1 else trace_loop p' (m OR push_bit flag 1))"
  by pat_completeness auto
termination
proof (relation "measure (\<lambda>(p, m). length p)", goal_cases)
  case (2 p m tg q p')
  then show ?case by (cases p) (auto simp: Let_def split: if_splits)
next
  case (3 p m tg q p' flag)
  then show ?case by (cases p) (auto simp: Let_def split: if_splits)
qed simp

declare trace_loop.simps [simp del]

definition adb_trace_init :: "string option \<Rightarrow> u32 \<Rightarrow> u32" where
  "adb_trace_init env m = (case env of None \<Rightarrow> m | Some p \<Rightarrow> trace_loop p m)"

section \<open>State\<close>

text \<open>
  The program's state: the session's world, the flag \<open>device_found\<close>, what has been printed, the
  keyboard's queue, the time in milliseconds, and the watch thread, if it has been created: where it is
  in its loop, its local \<open>current_state\<close>, and the time until which it sleeps.
\<close>

datatype watch_pc = Top | Sending | Connecting

record client =
  wld :: world
  device_found :: int
  out :: string
  kbd :: keys
  time_ms :: nat
  watch :: "(watch_pc \<times> int \<times> nat) option"

definition on_world :: "(world \<Rightarrow> fault + world) \<Rightarrow> client \<Rightarrow> fault + client" where
  "on_world f c = bindF (f (wld c)) (\<lambda>w. Inr (c\<lparr>wld := w\<rparr>))"

definition message :: "string \<Rightarrow> client \<Rightarrow> client" where
  "message txt c = c\<lparr>out := out c @ txt\<rparr>"

definition newline :: string where "newline = [CHR 0x0A]"

definition MESSAGE_DEVICE_INITIALIZING :: string where
  "MESSAGE_DEVICE_INITIALIZING = ''finding and initializing device...'' @ newline"
definition MESSAGE_DEVICE_NOT_FOUND :: string where
  "MESSAGE_DEVICE_NOT_FOUND = ''device not found'' @ newline"
definition MESSAGE_DEVICE_CONNECTED :: string where
  "MESSAGE_DEVICE_CONNECTED = ''device connected'' @ newline"
definition MESSAGE_DEVICE_DISCONNECTED :: string where
  "MESSAGE_DEVICE_DISCONNECTED = ''device disconnected'' @ newline"

section \<open>The watch thread\<close>

text \<open>One step of \<open>device_watch_thread\<close>, from the end of a sleep to the next one: \<open>send_connect\<close> ends with a
  second of sleep, two more follow before the device counts as found, and each turn of the loop ends
  with another second. A thread that sleeps makes no step.\<close>

definition watch_step :: "client \<Rightarrow> fault + client" where
  "watch_step c =
     (case watch c of
        None \<Rightarrow> Inr c
      | Some (pc, cs, wake) \<Rightarrow>
          if time_ms c < wake then Inr c
          else (case pc of
            Sending \<Rightarrow> Inr (c\<lparr>watch := Some (Connecting, cs, time_ms c + 2000)\<rparr>)
          | Connecting \<Rightarrow> Inr (message MESSAGE_DEVICE_CONNECTED
              (c\<lparr>device_found := 1, watch := Some (Top, 1, time_ms c + 1000)\<rparr>))
          | Top \<Rightarrow>
              if transport (wld c) \<noteq> None \<and> cs = 0
              then bindF (on_world (send_connect (transport (wld c))) c) (\<lambda>c1.
                Inr (c1\<lparr>watch := Some (Sending, cs, time_ms c + 1000)\<rparr>))
              else if transport (wld c) = None \<and> cs \<noteq> 0
              then Inr (message MESSAGE_DEVICE_DISCONNECTED
                (c\<lparr>device_found := 0, watch := Some (Top, 0, time_ms c + 1000)\<rparr>))
              else Inr (c\<lparr>watch := Some (Top, cs, time_ms c + 1000)\<rparr>)))"

definition create_device_watch_thread :: "client \<Rightarrow> fault + client" where
  "create_device_watch_thread c =
     (if thread_ok (wld c) then Inr (c\<lparr>watch := Some (Top, 0, time_ms c)\<rparr>) else Inl (Exit (-1)))"

section \<open>Starting up and waiting\<close>

text \<open>What \<open>usb_init\<close> finds: the result of \<open>libusb_init\<close>, and the answers of the first scan.\<close>

record usb_script =
  us_rc :: int
  us_vendors :: vendor_state
  us_count :: int
  us_devices :: "dev_script list"

definition EX_IOERR :: int where "EX_IOERR = 74"

definition usb_init :: "usb_script \<Rightarrow> client \<Rightarrow> fault + client" where
  "usb_init us c =
     (if us_rc us \<noteq> rc LIBUSB_SUCCESS then Inl (Exit EX_IOERR)
      else bindF (on_world (scan_usb_devices (us_vendors us) (us_count us) (us_devices us)) c) (\<lambda>c1.
        if thread_ok (wld c1) then Inr c1 else Inl (Exit EX_IOERR)))"

type_synonym others = "(client \<Rightarrow> fault + client) list"

text \<open>The waiting loop: \<open>wait\<close> seconds are left, -1 meaning without end; \<open>None\<close> when time is up.\<close>

fun wait_loop :: "int \<Rightarrow> others \<Rightarrow> client \<Rightarrow> fault + int option \<times> others \<times> client" where
  "wait_loop wait_seconds [] c = (if wait_seconds = 0 then Inr (None, [], c) else Inl Blocked)"
| "wait_loop wait_seconds (f # fs) c =
     (if wait_seconds = 0 then Inr (None, f # fs, c)
      else bindF (f c) (\<lambda>c1.
        if device_found c1 \<noteq> 0 then Inr (Some (device_found c1), fs, c1)
        else wait_loop (if wait_seconds = -1 then -1 else wait_seconds - 1) fs c1))"

definition init_and_wait_device ::
    "int \<Rightarrow> bool \<Rightarrow> usb_script \<Rightarrow> others \<Rightarrow> client \<Rightarrow> fault + int \<times> others \<times> client" where
  "init_and_wait_device wait_seconds first_time us fs c =
     bindF (if first_time then usb_init us (message MESSAGE_DEVICE_INITIALIZING c)
            else Inr (message MESSAGE_DEVICE_INITIALIZING c)) (\<lambda>c1.
     bindF (create_device_watch_thread (c1\<lparr>device_found := 0\<rparr>)) (\<lambda>c2.
     bindF (wait_loop (if wait_seconds \<le> 0 then -1 else wait_seconds) fs c2) (\<lambda>(r, fs', c3).
       case r of
         Some d \<Rightarrow> Inr (d, fs', c3)
       | None \<Rightarrow> Inr (device_found c3, fs', message MESSAGE_DEVICE_NOT_FOUND c3))))"

section \<open>The trace mask against a list of tags\<close>

text \<open>The fields of a text, by recursion on its characters, and the mask a list of tags asks for.\<close>

fun tag_fields :: "string \<Rightarrow> string list" where
  "tag_fields [] = [[]]"
| "tag_fields (c # cs) = (if c \<in> set separators then [] # tag_fields cs
     else (case tag_fields cs of [] \<Rightarrow> [[c]] | f # fs \<Rightarrow> (c # f) # fs))"

definition tag_bit :: "string \<Rightarrow> u32" where
  "tag_bit tg = (case map_of tags tg of None \<Rightarrow> 0 | Some flag \<Rightarrow> push_bit flag 1)"

definition requested :: "string list \<Rightarrow> u32 \<Rightarrow> u32" where
  "requested tgs m =
     (if list_ex (\<lambda>tg. map_of tags tg = Some 0) tgs then -1 else fold (\<lambda>tg m. m OR tag_bit tg) tgs m)"

lemma tag_fields_split:
  "tag_fields p = takeWhile (\<lambda>c. c \<notin> set separators) p #
     (case dropWhile (\<lambda>c. c \<notin> set separators) p of [] \<Rightarrow> [] | _ # p' \<Rightarrow> tag_fields p')"
  by (induction p) (auto split: list.splits)

lemma requested_Cons:
  "requested (tg # tgs) m = (case map_of tags tg of
      None \<Rightarrow> requested tgs m
    | Some flag \<Rightarrow> if flag = 0 then -1 else requested tgs (m OR push_bit flag 1))"
  by (auto simp: requested_def tag_bit_def split: option.splits)

lemma requested_blank: "requested [[]] m = m"
  by (simp add: requested_def tag_bit_def tags_def)

lemma trace_loop_requested: "trace_loop p m = requested (tag_fields p) m"
proof (induction p m rule: trace_loop.induct)
  case (1 p m)
  let ?P = "\<lambda>c. c \<notin> set separators"
  show ?case
  proof (cases "p = []")
    case True
    then show ?thesis by (subst trace_loop.simps) (simp add: requested_blank)
  next
    case False
    define q where "q = dropWhile ?P p"
    have q: "drop (length (takeWhile ?P p)) p = q" by (simp add: dropWhile_eq_drop q_def)
    define r where "r = (case q of [] \<Rightarrow> [[]] | _ # p' \<Rightarrow> tag_fields p')"
    let ?p' = "if q = [] then q else tl q" and ?tg = "takeWhile ?P p"
    have r: "requested r m' = requested (case q of [] \<Rightarrow> [] | _ # p' \<Rightarrow> tag_fields p') m'" for m'
      using requested_blank [of m'] by (cases q) (simp_all add: r_def requested_def)
    have tail: "tag_fields ?p' = r" by (cases q) (simp_all add: r_def)
    have step: "trace_loop p m = (case map_of tags ?tg of
        None \<Rightarrow> trace_loop ?p' m
      | Some flag \<Rightarrow> if flag = 0 then -1 else trace_loop ?p' (m OR push_bit flag 1))"
      using False by (subst trace_loop.simps) (simp only: q Let_def if_False)
    have "trace_loop p m = requested (?tg # r) m"
    proof (cases "map_of tags ?tg")
      case None
      then show ?thesis using 1(1) [OF False refl refl refl, unfolded q, OF None]
        by (simp only: step requested_Cons option.case tail)
    next
      case (Some flag)
      then show ?thesis using 1(2) [OF False refl refl refl, unfolded q, OF Some]
        by (cases "flag = 0") (simp_all only: step requested_Cons option.case tail if_True if_False simp_thms)
    qed
    also have "\<dots> = requested (?tg # (case q of [] \<Rightarrow> [] | _ # p' \<Rightarrow> tag_fields p')) m"
      by (simp only: requested_Cons r)
    also have "\<dots> = requested (tag_fields p) m" by (simp only: tag_fields_split [of p] q_def)
    finally show ?thesis .
  qed
qed

text \<open>C21: the trace mask of a list of tags. For every value of \<open>ADB_TRACE\<close>, the scan with
  \<open>strpbrk\<close> and the early return gives the mask that the separated list of tags asks for: all bits
  if \<open>1\<close>, \<open>all\<close> or \<open>adb\<close> is among the tags, else the bits of the known tags; unknown and empty tags
  are ignored.\<close>

theorem trace_mask_of_tags:
  "adb_trace_init (Some p) m = requested (tag_fields p) m
   \<and> (list_ex (\<lambda>tg. tg = ''1'' \<or> tg = ''all'' \<or> tg = ''adb'') (tag_fields p)
        \<longleftrightarrow> list_ex (\<lambda>tg. map_of tags tg = Some 0) (tag_fields p))"
proof -
  have "map_of tags tg = Some 0 \<longleftrightarrow> tg = ''1'' \<or> tg = ''all'' \<or> tg = ''adb''" for tg
    by (auto simp: tags_def trace_defs)
  then show ?thesis by (simp add: adb_trace_init_def trace_loop_requested)
qed

section \<open>Waiting for a device\<close>

text \<open>The watch thread while the main thread sleeps for a second: it is given the processor after the
  delays of a list, and makes a step if its own sleep is over.\<close>

fun watch_during :: "nat list \<Rightarrow> client \<Rightarrow> fault + client" where
  "watch_during [] c = Inr c"
| "watch_during (d # ds) c = bindF (watch_step (c\<lparr>time_ms := time_ms c + d\<rparr>)) (watch_during ds)"

definition watch_second :: "nat list \<Rightarrow> client \<Rightarrow> fault + client" where
  "watch_second ds c =
     bindF (watch_during ds c) (\<lambda>c'. Inr (c'\<lparr>time_ms := max (time_ms c') (time_ms c + 1000)\<rparr>))"

lemma send_connect_transport:
  assumes "send_connect tp w = Inr w'"
  shows "transport w' = transport w"
  using assms
  by (auto simp: send_connect_def emit_def get_apacket_def send_packet_def put_apacket_def remote_write_def Let_def
      elim!: bindF_InrE split: if_splits option.splits transport_ops.splits)

text \<open>Where the watch thread is on its way, counted from the start of the program \<open>c0\<close>: the message is sent in
  the first second, the next step follows by the third, and the device is found between the third and
  the sixth.\<close>

definition sending :: "client \<Rightarrow> world \<Rightarrow> client \<Rightarrow> bool" where
  "sending c0 w c \<longleftrightarrow> wld c = w \<and> device_found c = 0 \<and> out c = out c0
     \<and> (\<exists>k. watch c = Some (Sending, 0, k) \<and> time_ms c0 + 1000 \<le> k \<and> k \<le> time_ms c0 + 2000)"

definition connecting :: "client \<Rightarrow> world \<Rightarrow> client \<Rightarrow> bool" where
  "connecting c0 w c \<longleftrightarrow> wld c = w \<and> device_found c = 0 \<and> out c = out c0
     \<and> (\<exists>k. watch c = Some (Connecting, 0, k) \<and> time_ms c0 + 3000 \<le> k \<and> k \<le> time_ms c0 + 5000)"

definition connected :: "client \<Rightarrow> world \<Rightarrow> client \<Rightarrow> bool" where
  "connected c0 w c \<longleftrightarrow> wld c = w \<and> device_found c = 1 \<and> out c = out c0 @ MESSAGE_DEVICE_CONNECTED
     \<and> (\<exists>k. watch c = Some (Top, 1, k)) \<and> time_ms c0 + 3000 \<le> time_ms c"

lemmas stage_defs = sending_def connecting_def connected_def

lemma stages_later:
  "time_ms c \<le> t \<Longrightarrow> sending c0 w (c\<lparr>time_ms := t\<rparr>) = sending c0 w c
     \<and> connecting c0 w (c\<lparr>time_ms := t\<rparr>) = connecting c0 w c \<and> (connected c0 w c \<longrightarrow> connected c0 w (c\<lparr>time_ms := t\<rparr>))"
  by (auto simp: stage_defs)

lemma watch_step_stages:
  assumes "transport w \<noteq> None"
  shows "sending c0 w c \<Longrightarrow> time_ms c \<le> time_ms c0 + 3000 \<Longrightarrow> \<exists>c'. watch_step c = Inr c' \<and> time_ms c' = time_ms c
      \<and> (connecting c0 w c' \<or> sending c0 w c' \<and> time_ms c < time_ms c0 + 2000)"
    and "connecting c0 w c \<Longrightarrow> \<exists>c'. watch_step c = Inr c' \<and> time_ms c' = time_ms c
      \<and> (connected c0 w c' \<or> connecting c0 w c' \<and> time_ms c < time_ms c0 + 5000)"
    and "connected c0 w c \<Longrightarrow> \<exists>c'. watch_step c = Inr c' \<and> time_ms c' = time_ms c \<and> connected c0 w c'"
  using assms by (auto simp: stage_defs watch_step_def message_def)

text \<open>These stages are kept however often the thread runs.\<close>

lemma watch_during_connected:
  "transport w \<noteq> None \<Longrightarrow> connected c0 w c \<Longrightarrow> \<exists>c'. watch_during ds c = Inr c' \<and> connected c0 w c'
     \<and> time_ms c' = time_ms c + sum_list ds"
proof (induction ds arbitrary: c)
  case (Cons d ds)
  let ?c = "c\<lparr>time_ms := time_ms c + d\<rparr>"
  have "connected c0 w ?c" using Cons.prems(2) stages_later [of c "time_ms c + d" c0 w] by simp
  with watch_step_stages(3) [OF Cons.prems(1)] obtain c' where "watch_step ?c = Inr c'" "time_ms c' = time_ms c + d"
    "connected c0 w c'" by fastforce
  with Cons.IH [OF Cons.prems(1), of c'] show ?case by auto
qed simp

lemma watch_during_connecting:
  "transport w \<noteq> None \<Longrightarrow> connecting c0 w c \<or> connected c0 w c \<Longrightarrow> \<exists>c'. watch_during ds c = Inr c'
     \<and> (connected c0 w c' \<or> connecting c0 w c' \<and> (ds = [] \<or> time_ms c < time_ms c0 + 5000))
     \<and> time_ms c' = time_ms c + sum_list ds"
proof (induction ds arbitrary: c)
  case (Cons d ds)
  let ?c = "c\<lparr>time_ms := time_ms c + d\<rparr>"
  have "connecting c0 w ?c \<or> connected c0 w ?c" using Cons.prems(2) stages_later [of c "time_ms c + d" c0 w] by auto
  with watch_step_stages(2,3) [OF Cons.prems(1), of c0 ?c] obtain c' where c': "watch_step ?c = Inr c'"
    "time_ms c' = time_ms c + d" "connected c0 w c' \<or> connecting c0 w c' \<and> time_ms c + d < time_ms c0 + 5000"
    by fastforce
  then have "connecting c0 w c' \<or> connected c0 w c'" by blast
  from Cons.IH [OF Cons.prems(1) this] c' watch_during_connected [OF Cons.prems(1), of c0 c' ds] show ?case by fastforce
qed auto

lemma watch_during_sending:
  "transport w \<noteq> None \<Longrightarrow> sending c0 w c \<or> connecting c0 w c \<or> connected c0 w c
     \<Longrightarrow> time_ms c + sum_list ds \<le> time_ms c0 + 3000 \<Longrightarrow> \<exists>c'. watch_during ds c = Inr c'
     \<and> (connecting c0 w c' \<or> connected c0 w c' \<or> sending c0 w c' \<and> (ds = [] \<or> time_ms c < time_ms c0 + 2000))
     \<and> time_ms c' = time_ms c + sum_list ds"
proof (induction ds arbitrary: c)
  case (Cons d ds)
  let ?c = "c\<lparr>time_ms := time_ms c + d\<rparr>"
  show ?case
  proof (cases "sending c0 w c")
    case True
    then have "sending c0 w ?c" using stages_later [of c "time_ms c + d" c0 w] by simp
    with watch_step_stages(1) [OF Cons.prems(1), of c0 ?c] Cons.prems(3) obtain c' where c': "watch_step ?c = Inr c'"
      "time_ms c' = time_ms c + d" "connecting c0 w c' \<or> sending c0 w c' \<and> time_ms c + d < time_ms c0 + 2000"
      by fastforce
    then have "sending c0 w c' \<or> connecting c0 w c' \<or> connected c0 w c'" by blast
    from Cons.IH [OF Cons.prems(1) this] c' Cons.prems(3) watch_during_connecting [OF Cons.prems(1), of c0 c' ds]
    show ?thesis by fastforce
  next
    case False
    with watch_during_connecting [OF Cons.prems(1), of c0 c "d # ds"] Cons.prems(2) show ?thesis by blast
  qed
qed auto

text \<open>A second of the main thread, in which the watch thread is given the processor at least once.\<close>

definition timely :: "nat list \<Rightarrow> bool" where
  "timely ds \<longleftrightarrow> ds \<noteq> [] \<and> sum_list ds \<le> 1000"

lemma watch_second_eq:
  "watch_during ds c = Inr c' \<Longrightarrow> time_ms c' = time_ms c + sum_list ds \<Longrightarrow> timely ds
     \<Longrightarrow> watch_second ds c = Inr (c'\<lparr>time_ms := time_ms c + 1000\<rparr>) \<and> time_ms c' \<le> time_ms c + 1000"
  by (simp add: watch_second_def timely_def max_def)

lemma watch_second_connecting:
  assumes "transport w \<noteq> None" "timely ds" "connecting c0 w c \<or> connected c0 w c"
  shows "\<exists>c'. watch_second ds c = Inr c' \<and> time_ms c' = time_ms c + 1000
    \<and> (connected c0 w c' \<or> connecting c0 w c' \<and> time_ms c < time_ms c0 + 5000)"
proof -
  from watch_during_connecting [OF assms(1,3), of ds] assms(2) obtain c' where c': "watch_during ds c = Inr c'"
    "time_ms c' = time_ms c + sum_list ds" "connected c0 w c' \<or> connecting c0 w c' \<and> time_ms c < time_ms c0 + 5000"
    by (auto simp: timely_def)
  note e = watch_second_eq [OF c'(1,2) assms(2)]
  then show ?thesis using c'(3) stages_later [of c' "time_ms c + 1000" c0 w] by auto
qed

lemma watch_second_sending:
  assumes "transport w \<noteq> None" "timely ds" "sending c0 w c \<or> connecting c0 w c \<or> connected c0 w c"
    and "time_ms c + 1000 \<le> time_ms c0 + 3000"
  shows "\<exists>c'. watch_second ds c = Inr c' \<and> time_ms c' = time_ms c + 1000
    \<and> (connecting c0 w c' \<or> connected c0 w c' \<or> sending c0 w c' \<and> time_ms c < time_ms c0 + 2000)"
proof -
  have "time_ms c + sum_list ds \<le> time_ms c0 + 3000" using assms(2,4) by (simp add: timely_def)
  from watch_during_sending [OF assms(1,3) this] assms(2) obtain c' where c': "watch_during ds c = Inr c'"
    "time_ms c' = time_ms c + sum_list ds"
    "connecting c0 w c' \<or> connected c0 w c' \<or> sending c0 w c' \<and> time_ms c < time_ms c0 + 2000"
    by (auto simp: timely_def)
  note e = watch_second_eq [OF c'(1,2) assms(2)]
  then show ?thesis using c'(3) stages_later [of c' "time_ms c + 1000" c0 w] by auto
qed

lemma watch_second_start:
  assumes "transport w \<noteq> None" "timely ds" "watch c = Some (Top, 0, time_ms c)" "device_found c = 0"
    and "transport (wld c) = Some t" "send_connect (Some t) (wld c) = Inr w"
  shows "\<exists>c'. watch_second ds c = Inr c' \<and> time_ms c' = time_ms c + 1000
    \<and> (sending c w c' \<or> connecting c w c' \<or> connected c w c')"
proof -
  obtain d ds' where ds: "ds = d # ds'" "d + sum_list ds' \<le> 1000" using assms(2) by (cases ds) (auto simp: timely_def)
  let ?c1 = "c\<lparr>wld := w, time_ms := time_ms c + d, watch := Some (Sending, 0, time_ms c + d + 1000)\<rparr>"
  have step: "watch_step (c\<lparr>time_ms := time_ms c + d\<rparr>) = Inr ?c1"
    using assms(3,5,6) by (simp add: watch_step_def on_world_def)
  have "sending c w ?c1 \<or> connecting c w ?c1 \<or> connected c w ?c1" using assms(4) ds(2) by (simp add: sending_def)
  moreover have "time_ms ?c1 + sum_list ds' \<le> time_ms c + 3000" using ds(2) by simp
  ultimately obtain c' where c': "watch_during ds' ?c1 = Inr c'" "time_ms c' = time_ms c + d + sum_list ds'"
    "sending c w c' \<or> connecting c w c' \<or> connected c w c'"
    using watch_during_sending [OF assms(1), of c ?c1 ds'] by (simp only: client.select_convs client.update_convs) fastforce
  have "watch_during ds c = Inr c'" using step c'(1) by (simp add: ds(1))
  from watch_second_eq [OF this _ assms(2)] c'(2) ds
  have "watch_second ds c = Inr (c'\<lparr>time_ms := time_ms c + 1000\<rparr>)" "time_ms c' \<le> time_ms c + 1000" by simp_all
  then show ?thesis using c'(3) stages_later [of c' "time_ms c + 1000" c w] by auto
qed

text \<open>The first six seconds: the device is not found before the third and found by the sixth.\<close>

lemma six_seconds:
  assumes w: "transport w \<noteq> None" and ds: "list_all timely [d1, d2, d3, d4, d5, d6]"
    and c: "watch c = Some (Top, 0, time_ms c)" "device_found c = 0"
      "transport (wld c) = Some t" "send_connect (Some t) (wld c) = Inr w"
  obtains c1 c2 c3 c4 c5 c6 where
    "watch_second d1 c = Inr c1" "watch_second d2 c1 = Inr c2" "watch_second d3 c2 = Inr c3"
    "watch_second d4 c3 = Inr c4" "watch_second d5 c4 = Inr c5" "watch_second d6 c5 = Inr c6"
    "device_found c1 = 0" "device_found c2 = 0" "out c1 = out c" "out c2 = out c" "connecting c w c3 \<or> connected c w c3"
    "connecting c w c4 \<or> connected c w c4" "connecting c w c5 \<or> connected c w c5" "connected c w c6"
proof -
  from ds have d: "timely d1" "timely d2" "timely d3" "timely d4" "timely d5" "timely d6" by simp_all
  obtain c1 where c1: "watch_second d1 c = Inr c1" "time_ms c1 = time_ms c + 1000"
    "sending c w c1 \<or> connecting c w c1 \<or> connected c w c1" using watch_second_start [OF w d(1) c] by blast
  obtain c2 where c2: "watch_second d2 c1 = Inr c2" "time_ms c2 = time_ms c + 2000"
    "connecting c w c2 \<or> connected c w c2 \<or> sending c w c2"
    using watch_second_sending [OF w d(2) c1(3)] c1(2) by auto
  have "sending c w c2 \<or> connecting c w c2 \<or> connected c w c2" using c2(3) by blast
  from watch_second_sending [OF w d(3) this] c2(2) obtain c3 where c3: "watch_second d3 c2 = Inr c3"
    "time_ms c3 = time_ms c + 3000" "connecting c w c3 \<or> connected c w c3" by auto
  obtain c4 where c4: "watch_second d4 c3 = Inr c4" "time_ms c4 = time_ms c + 4000"
    "connecting c w c4 \<or> connected c w c4" using watch_second_connecting [OF w d(4) c3(3)] c3(2) by auto
  obtain c5 where c5: "watch_second d5 c4 = Inr c5" "time_ms c5 = time_ms c + 5000"
    "connecting c w c5 \<or> connected c w c5" using watch_second_connecting [OF w d(5) c4(3)] c4(2) by auto
  obtain c6 where c6: "watch_second d6 c5 = Inr c6" "connected c w c6"
    using watch_second_connecting [OF w d(6) c5(3)] c5(2) by auto
  have "device_found c1 = 0" "device_found c2 = 0" "out c1 = out c" "out c2 = out c"
    using c1(2,3) c2(2,3) by (auto simp: stage_defs)
  then show thesis using that c1(1) c2(1) c3(1,3) c4(1,3) c5(1,3) c6 by blast
qed

lemma wait_six:
  assumes s: "watch_second d1 c = Inr s1" "watch_second d2 s1 = Inr s2" "watch_second d3 s2 = Inr s3"
      "watch_second d4 s3 = Inr s4" "watch_second d5 s4 = Inr s5" "watch_second d6 s5 = Inr s6"
    and early: "device_found s1 = 0" "device_found s2 = 0"
    and stage: "connecting c w s3 \<or> connected c w s3" "connecting c w s4 \<or> connected c w s4"
      "connecting c w s5 \<or> connected c w s5" "connected c w s6"
    and m: "m = -1 \<or> 6 \<le> m"
    and dss: "dss = d1 # d2 # d3 # d4 # d5 # d6 # dss'"
  shows "\<exists>j\<in>{3..6}. \<exists>c'. wait_loop m (map watch_second dss) c = Inr (Some 1, drop j (map watch_second dss), c')
    \<and> connected c w c'"
proof -
  let ?run = "wait_loop m (map watch_second dss) c"
  have not_yet: "connecting c w x \<Longrightarrow> device_found x = 0" and found: "connected c w x \<Longrightarrow> device_found x = 1" for x
    by (simp_all add: stage_defs)
  have waits: "?run = (if device_found s3 \<noteq> 0 then Inr (Some (device_found s3), map watch_second (d4 # d5 # d6 # dss'), s3)
      else if device_found s4 \<noteq> 0 then Inr (Some (device_found s4), map watch_second (d5 # d6 # dss'), s4)
      else if device_found s5 \<noteq> 0 then Inr (Some (device_found s5), map watch_second (d6 # dss'), s5)
      else Inr (Some (device_found s6), map watch_second dss', s6))"
    using m s early found [OF stage(4)] by (cases "m = -1") (simp_all add: dss)
  consider "connected c w s3" | "connecting c w s3" "connected c w s4"
    | "connecting c w s3" "connecting c w s4" "connected c w s5"
    | "connecting c w s3" "connecting c w s4" "connecting c w s5" using stage by blast
  then show ?thesis
  proof cases
    case 1
    then show ?thesis using found [OF 1] unfolding waits by (intro bexI [of _ 3] exI [of _ s3]) (simp_all add: dss)
  next
    case 2
    then show ?thesis using not_yet [OF 2(1)] found [OF 2(2)] unfolding waits
      by (intro bexI [of _ 4] exI [of _ s4]) (simp_all add: dss)
  next
    case 3
    then show ?thesis using not_yet [OF 3(1)] not_yet [OF 3(2)] found [OF 3(3)] unfolding waits
      by (intro bexI [of _ 5] exI [of _ s5]) (simp_all add: dss)
  next
    case 4
    then show ?thesis using not_yet [OF 4(1)] not_yet [OF 4(2)] not_yet [OF 4(3)] found [OF stage(4)] stage(4)
      unfolding waits by (intro bexI [of _ 6] exI [of _ s6]) (simp_all add: dss)
  qed
qed

text \<open>What starting up leaves before the watch thread is created.\<close>

definition started :: "bool \<Rightarrow> usb_script \<Rightarrow> client \<Rightarrow> fault + client" where
  "started first_time us c =
     (if first_time then usb_init us (message MESSAGE_DEVICE_INITIALIZING c)
      else Inr (message MESSAGE_DEVICE_INITIALIZING c))"

lemma init_and_wait_started:
  assumes "started first us c = Inr c1" and "thread_ok (wld c1)"
  shows "init_and_wait_device n first us fs c =
    bindF (wait_loop (if n \<le> 0 then -1 else n) fs (c1\<lparr>device_found := 0, watch := Some (Top, 0, time_ms c1)\<rparr>))
      (\<lambda>(r, fs', c3). case r of
         Some d \<Rightarrow> Inr (d, fs', c3)
       | None \<Rightarrow> Inr (device_found c3, fs', message MESSAGE_DEVICE_NOT_FOUND c3))"
  using assms by (simp add: init_and_wait_device_def started_def create_device_watch_thread_def)

text \<open>C17: a connected device is found in time. If a transport is registered when the program has started
  up and the connection message can be sent, then under every schedule that gives the watch thread the
  processor at least once in each second of the wait, the wait returns 1 between the third and the sixth
  second, with the connection message sent and the connection reported, whether the wait is bounded (by
  six seconds at least) or not. A wait of one or two seconds always ends without the device, since the
  watch thread sleeps for three seconds before it counts as found.\<close>

theorem device_found_in_time:
  assumes start: "started first us c = Inr c1" "thread_ok (wld c1)" "transport (wld c1) = Some t"
    and sent: "send_connect (Some t) (wld c1) = Inr w"
    and fair: "6 \<le> length dss" "list_all timely dss"
  shows "(n \<le> 0 \<or> 6 \<le> n \<longrightarrow> (\<exists>j\<in>{3..6}. \<exists>c'. init_and_wait_device n first us (map watch_second dss) c
        = Inr (1, drop j (map watch_second dss), c')
      \<and> wld c' = w \<and> device_found c' = 1 \<and> out c' = out c1 @ MESSAGE_DEVICE_CONNECTED))
    \<and> (n \<in> {1, 2} \<longrightarrow> (\<exists>c'. init_and_wait_device n first us (map watch_second dss) c
        = Inr (0, drop (nat n) (map watch_second dss), c') \<and> device_found c' = 0
      \<and> out c' = out c1 @ MESSAGE_DEVICE_NOT_FOUND))"
proof -
  let ?c = "c1\<lparr>device_found := 0, watch := Some (Top, 0, time_ms c1)\<rparr>"
  obtain d1 d2 d3 d4 d5 d6 dss' where dss: "dss = d1 # d2 # d3 # d4 # d5 # d6 # dss'"
    using fair(1) by (auto simp: numeral_eq_Suc Suc_le_length_iff)
  have w: "transport w \<noteq> None" using send_connect_transport [OF sent] start(3) by simp
  have ds: "list_all timely [d1, d2, d3, d4, d5, d6]" using fair(2) by (simp add: dss)
  have c: "watch ?c = Some (Top, 0, time_ms ?c)" "device_found ?c = 0" "transport (wld ?c) = Some t"
    "send_connect (Some t) (wld ?c) = Inr w" using start(3) sent by simp_all
  obtain s1 s2 s3 s4 s5 s6 where s: "watch_second d1 ?c = Inr s1" "watch_second d2 s1 = Inr s2"
    "watch_second d3 s2 = Inr s3" "watch_second d4 s3 = Inr s4" "watch_second d5 s4 = Inr s5"
    "watch_second d6 s5 = Inr s6" and early: "device_found s1 = 0" "device_found s2 = 0" "out s1 = out ?c" "out s2 = out ?c"
    and stage: "connecting ?c w s3 \<or> connected ?c w s3" "connecting ?c w s4 \<or> connected ?c w s4"
      "connecting ?c w s5 \<or> connected ?c w s5" "connected ?c w s6"
    by (rule six_seconds [OF w ds c])
  have found: "connected ?c w x \<Longrightarrow> device_found x = 1 \<and> wld x = w \<and> out x = out c1 @ MESSAGE_DEVICE_CONNECTED"
    for x by (simp add: stage_defs)
  have "\<exists>j\<in>{3..6}. \<exists>c'. wait_loop m (map watch_second dss) ?c = Inr (Some 1, drop j (map watch_second dss), c')
      \<and> connected ?c w c'" if m: "m = -1 \<or> 6 \<le> m" for m
    by (rule wait_six [OF s early(1,2) stage m dss])
  from this [of "if n \<le> 0 then -1 else n"] have first: "n \<le> 0 \<or> 6 \<le> n \<Longrightarrow> \<exists>j\<in>{3..6}. \<exists>c'.
      init_and_wait_device n first us (map watch_second dss) c = Inr (1, drop j (map watch_second dss), c') \<and> connected ?c w c'"
    unfolding init_and_wait_started [OF start(1,2)] by fastforce
  have second: "\<exists>c'. init_and_wait_device n first us (map watch_second dss) c
        = Inr (0, drop (nat n) (map watch_second dss), c') \<and> device_found c' = 0
      \<and> out c' = out c1 @ MESSAGE_DEVICE_NOT_FOUND" if "n \<in> {1, 2}"
    unfolding init_and_wait_started [OF start(1,2)] using that s(1,2) early by (auto simp: dss message_def)
  show ?thesis using first second found by blast
qed

text \<open>Waiting in vain. As long as nothing sets \<open>device_found\<close>, a bounded wait gives up after as
  many seconds as it was given, reports that no device was found and returns 0, and a wait of 0 or
  fewer seconds never ends, however long one looks.\<close>

theorem waiting_in_vain:
  assumes start: "started first us c = Inr c1" "thread_ok (wld c1)"
    and idle: "\<And>f d. f \<in> set fs \<Longrightarrow> device_found d = 0 \<Longrightarrow> \<exists>d'. f d = Inr d' \<and> device_found d' = 0"
  shows "(0 < n \<and> n \<le> int (length fs) \<longrightarrow> (\<exists>c'. init_and_wait_device n first us fs c
        = Inr (0, drop (nat n) fs, message MESSAGE_DEVICE_NOT_FOUND c')))
    \<and> (n \<le> 0 \<longrightarrow> init_and_wait_device n first us fs c = Inl Blocked)"
proof -
  have bounded: "\<exists>d'. wait_loop (int k) gs d = Inr (None, drop k gs, d') \<and> device_found d' = 0"
    if "k \<le> length gs" "set gs \<subseteq> set fs" "device_found d = 0" for k gs d
    using that
  proof (induction gs arbitrary: k d)
    case (Cons g gs)
    show ?case
    proof (cases k)
      case (Suc m)
      from Cons.prems(2,3) obtain d1 where d1: "g d = Inr d1" "device_found d1 = 0"
        using idle [of g d] by auto
      with Cons.IH [of m d1] Cons.prems(1,2) show ?thesis by (auto simp: Suc)
    qed (use Cons.prems in simp)
  qed simp
  have unbounded: "wait_loop (-1) gs d = Inl Blocked"
    if "set gs \<subseteq> set fs" "device_found d = 0" for gs d
    using that
  proof (induction gs arbitrary: d)
    case (Cons g gs)
    from Cons.prems obtain d1 where "g d = Inr d1" "device_found d1 = 0"
      using idle [of g d] by auto
    with Cons show ?case by simp
  qed simp
  let ?c = "c1\<lparr>device_found := 0, watch := Some (Top, 0, time_ms c1)\<rparr>"
  show ?thesis
  proof (intro conjI impI)
    assume n: "0 < n \<and> n \<le> int (length fs)"
    then obtain d' where "wait_loop (int (nat n)) fs ?c = Inr (None, drop (nat n) fs, d')" "device_found d' = 0"
      using bounded [of "nat n" fs ?c] by (auto simp: nat_le_iff)
    with n init_and_wait_started [OF start] show "\<exists>c'. init_and_wait_device n first us fs c
        = Inr (0, drop (nat n) fs, message MESSAGE_DEVICE_NOT_FOUND c')" by auto
  next
    assume "n \<le> 0"
    with unbounded [of fs ?c] init_and_wait_started [OF start]
    show "init_and_wait_device n first us fs c = Inl Blocked" by simp
  qed
qed

section \<open>Witnesses\<close>

definition connected_world :: world where
  "connected_world = (linked_world sample_dev)\<lparr>devs := (\<lambda>_. sample_dev\<lparr>envs := [good_env 24, good_env 11]\<rparr>)\<rparr>"

definition no_keys :: keys where
  "no_keys = \<lparr>kheap = Map.empty, kbrk = 0, k_malloc_ok = True, keylist = None, klast = None\<rparr>"

definition idle_client :: "world \<Rightarrow> client" where
  "idle_client w = \<lparr>wld = w, device_found = 7, out = [], kbd = no_keys, time_ms = 0, watch = None\<rparr>"

lemma send_connect_runs: "\<exists>w. send_connect (Some 6) connected_world = Inr w"
proof -
  have u: "usable connected_world 6 5 sample_handle"
    using usable_linked [of sample_dev] by (simp add: usable_def connected_world_def)
  have dl: "unat (data_length (msg (connect_packet (blank connected_world)))) = 11"
    by (simp add: connect_packet_def text_payload_def snprintf_s_def MAX_PAYLOAD_def)
  have "malloc_ok connected_world" by (simp add: connected_world_def linked_world_def sample_world_def)
  moreover have "envs (devs connected_world 5) = good_env 24 # good_env 11 # []"
    by (simp add: connected_world_def)
  ultimately show ?thesis
    using emit_runs [OF u, of connect_packet 24 11 "[]"] dl
    by (simp add: send_connect_def sample_handle_def MAX_PAYLOAD_def)
qed

definition some_script :: usb_script where
  "some_script = \<lparr>us_rc = 0, us_vendors = builtin_vendors, us_count = 0, us_devices = []\<rparr>"

theorem device_found_in_time_witness:
  "(\<exists>j\<in>{3..6}. \<exists>c'. init_and_wait_device 10 True some_script (map watch_second (replicate 7 [200, 300]))
       (idle_client connected_world) = Inr (1, drop j (map watch_second (replicate 7 [200, 300])), c')
     \<and> out c' = MESSAGE_DEVICE_INITIALIZING @ MESSAGE_DEVICE_CONNECTED)
   \<and> (\<exists>c'. init_and_wait_device 2 True some_script (map watch_second (replicate 7 [200, 300]))
       (idle_client connected_world) = Inr (0, drop 2 (map watch_second (replicate 7 [200, 300])), c')
     \<and> device_found c' = 0)"
proof -
  obtain w where w: "send_connect (Some 6) connected_world = Inr w" using send_connect_runs by blast
  let ?c = "idle_client connected_world" and ?c1 = "idle_client connected_world\<lparr>out := MESSAGE_DEVICE_INITIALIZING\<rparr>"
  have "scan_usb_devices builtin_vendors 0 [] connected_world = Inr connected_world"
    by (simp add: scan_usb_devices_def)
  moreover have ok: "thread_ok connected_world" "transport connected_world = Some 6"
    by (simp_all add: connected_world_def linked_world_def sample_world_def)
  ultimately have s: "started True some_script ?c = Inr ?c1"
    by (simp add: started_def usb_init_def some_script_def on_world_def message_def idle_client_def)
  have c1: "thread_ok (wld ?c1)" "transport (wld ?c1) = Some 6" "send_connect (Some 6) (wld ?c1) = Inr w"
    using ok w by (simp_all add: idle_client_def)
  have f: "6 \<le> length (replicate 7 [200, 300 :: nat])" "list_all timely (replicate 7 [200, 300])"
    by (simp_all add: timely_def list_all_iff)
  show ?thesis
    using device_found_in_time [OF s c1 f, of 10] device_found_in_time [OF s c1 f, of 2] by fastforce
qed

theorem waiting_in_vain_witness:
  "(\<exists>c'. init_and_wait_device 2 False some_script [Inr, Inr, Inr] (idle_client sample_world)
       = Inr (0, [Inr], message MESSAGE_DEVICE_NOT_FOUND c'))
   \<and> init_and_wait_device 0 False some_script [Inr, Inr, Inr] (idle_client sample_world) = Inl Blocked"
proof -
  have s: "started False some_script (idle_client sample_world)
      = Inr (message MESSAGE_DEVICE_INITIALIZING (idle_client sample_world))"
    by (simp add: started_def)
  have t: "thread_ok (wld (message MESSAGE_DEVICE_INITIALIZING (idle_client sample_world)))"
    by (simp add: message_def idle_client_def sample_world_def)
  show ?thesis
    using waiting_in_vain [OF s t, of "[Inr, Inr, Inr]" 2] waiting_in_vain [OF s t, of "[Inr, Inr, Inr]" 0]
    by auto
qed

end
