(* ===== verification/Commandline.thy ===== *)
theory Commandline
  imports Client
begin

text \<open>
  The commands of the client (\<open>commandline.c\<close>): building the text of a remote command in a buffer of
  4096 bytes, showing what the device sends back, the interactive shell with its escape sequence,
  the keyboard and \<open>logcat\<close>. \<open>stdout\<close> and \<open>stderr\<close> are one text, \<open>out\<close>. Pointers and ints have four
  bytes, as on the program's target; \<open>block_bytes\<close> tells how many bytes a block of \<open>malloc\<close> really has.
\<close>

section \<open>Texts\<close>

definition BUF_SIZE :: nat where "BUF_SIZE = 4096"

definition version_text :: string where
  "version_text = ''Android Debug Bridge for Zaurus version '' @ dec_string 1 @ ''.'' @ dec_string 0 @
     ''.'' @ dec_string 26 @ newline"

definition version :: "client \<Rightarrow> client" where
  "version c = message version_text c"

definition help_text :: string where
  "help_text = newline @
     ''device commands:'' @ newline @
     ''  zadb shell                    - run remote shell interactively'' @ newline @
     ''  zadb shell <command>          - run remote shell command'' @ newline @ newline @
     ''  zadb keyboard                          - Do as a devices keyboard'' @ newline @
     ''  zadb logcat [ <filter-spec> ] - View device log'' @ newline @ newline @
     ''  zadb help                     - show this help message'' @ newline @
     ''  zadb version                  - show version num'' @ newline @ newline"

definition show_help :: "client \<Rightarrow> client" where
  "show_help c = message help_text (version c)"

definition usage :: "client \<Rightarrow> int \<times> client" where
  "usage c = (1, show_help c)"

text \<open>\<open>strcat\<close> and \<open>strncat\<close> onto the string in a buffer of \<open>cap\<close> bytes.\<close>

definition strcat_buf :: "nat \<Rightarrow> string \<Rightarrow> string \<Rightarrow> fault + string" where
  "strcat_buf cap buf s = (if length buf + length s < cap then Inr (buf @ s) else Inl OutOfBounds)"

definition strncat_buf :: "nat \<Rightarrow> string \<Rightarrow> string \<Rightarrow> nat \<Rightarrow> fault + string" where
  "strncat_buf cap buf s n = strcat_buf cap buf (take n s)"

section \<open>Quoting\<close>

definition quoted_char :: "char \<Rightarrow> bool" where
  "quoted_char c \<longleftrightarrow> c = CHR '' '' \<or> c = CHR 0x22 \<or> c = CHR 0x5C \<or> c = CHR ''('' \<or> c = CHR '')''"

fun alloc_len :: "string \<Rightarrow> nat" where
  "alloc_len [] = 0"
| "alloc_len (c # cs) = (if quoted_char c then 2 else 1) + alloc_len cs"

definition put_c :: "char list \<Rightarrow> nat \<Rightarrow> char \<Rightarrow> fault + char list" where
  "put_c blk dest c = (if dest < length blk then Inr (blk[dest := c]) else Inl OutOfBounds)"

fun quote_loop :: "string \<Rightarrow> char list \<Rightarrow> nat \<Rightarrow> fault + char list \<times> nat" where
  "quote_loop [] blk dest = Inr (blk, dest)"
| "quote_loop (c # cs) blk dest =
     bindF (if quoted_char c then bindF (put_c blk dest (CHR 0x5C)) (\<lambda>blk'. Inr (blk', dest + 1))
            else Inr (blk, dest)) (\<lambda>(blk1, dest1).
     bindF (put_c blk1 dest1 c) (\<lambda>blk2. quote_loop cs blk2 (dest1 + 1)))"

text \<open>The whole block that \<open>dupAndQuote\<close> returns; \<open>fill\<close> is what fresh memory holds.\<close>

definition dupAndQuote :: "bool \<Rightarrow> char \<Rightarrow> string \<Rightarrow> fault + char list" where
  "dupAndQuote ok fill s =
     (if \<not> ok then Inl NullDeref
      else bindF (quote_loop s (replicate (alloc_len s + 1) fill) 0) (\<lambda>(blk, dest). put_c blk dest nul))"

section \<open>Showing what the device sends\<close>

text \<open>The payload as a string: \<open>strncpy\<close> into the buffer and the terminator behind it.\<close>

definition dump_text :: "apacket \<Rightarrow> fault + string" where
  "dump_text pk =
     (let n = unat (data_length (msg pk))
      in if BUF_SIZE \<le> n then Inl OutOfBounds
         else Inr (cstr (bytes_str (map (data pk) [0..<n]))))"

fun read_and_dump :: "others \<Rightarrow> client \<Rightarrow> fault + others \<times> client" where
  "read_and_dump [] c = Inl Blocked"
| "read_and_dump (f # fs) c =
     bindF (f c) (\<lambda>c1.
     bindF (shift_received_packet (wld c1)) (\<lambda>(p, w).
       let c2 = c1\<lparr>wld := w\<rparr>
       in case p of
            None \<Rightarrow> read_and_dump fs c2
          | Some a \<Rightarrow> bindF (deref (heap w) (Some a)) (\<lambda>(_, pk).
              let cmd = command (msg pk)
              in if cmd = A_OKAY then read_and_dump fs c2
                 else if cmd = A_CLSE then Inr (fs, message (''closed'' @ newline) c2)
                 else if cmd = A_WRTE
                 then bindF (dump_text pk) (\<lambda>txt. read_and_dump fs (message txt c2))
                 else read_and_dump fs c2)))"

section \<open>Reading the keyboard\<close>

text \<open>
  The scan of one chunk for the escape sequence: the state is 1 after a line end, 2 after a tilde
  that follows it. \<open>True\<close> says that Ctrl-D closes the stream; the sequence leaves the program.
\<close>

fun scan_chunk :: "string \<Rightarrow> int \<Rightarrow> fault + bool \<times> int" where
  "scan_chunk [] st = Inr (False, st)"
| "scan_chunk (c # cs) st =
     (if c = CHR 0x0A then scan_chunk cs 1
      else if c = CHR 0x0D then scan_chunk cs 1
      else if c = CHR ''~'' then scan_chunk cs (if st = 1 then st + 1 else st)
      else if c = CHR ''.'' then (if st = 2 then Inl (Exit 0) else scan_chunk cs st)
      else if c = CHR 0x04 then Inr (True, st)
      else scan_chunk cs 0)"

text \<open>What \<open>read\<close> answers: an error, interrupted or not, or up to 1000 characters.\<close>

datatype read_result = ReadError bool | ReadChars string

text \<open>The thread, over the function \<open>fn\<close> it was given and the closing of the stream.\<close>

fun stdin_read_thread ::
    "(string \<Rightarrow> 's \<Rightarrow> fault + 's) \<Rightarrow> ('s \<Rightarrow> fault + 's) \<Rightarrow> read_result list \<Rightarrow> int \<Rightarrow> 's \<Rightarrow> fault + 's" where
  "stdin_read_thread fn close [] st s = Inl Blocked"
| "stdin_read_thread fn close (ReadError eintr # rs) st s =
     (if eintr then stdin_read_thread fn close rs st s else Inr s)"
| "stdin_read_thread fn close (ReadChars cs # rs) st s =
     (if cs = [] then Inr s
      else bindF (scan_chunk cs st) (\<lambda>(closed, st').
        if closed then close s
        else bindF (fn cs s) (stdin_read_thread fn close rs st')))"

definition close_stream :: "client \<Rightarrow> fault + client" where
  "close_stream c =
     bindF (on_world (send_close (transport (wld c))) c) (\<lambda>c1.
       Inr (message (newline @ ''* disconnect *'' @ newline) c1))"

definition write_to_device :: "string \<Rightarrow> client \<Rightarrow> fault + client" where
  "write_to_device buf c =
     (if length buf > 0 then on_world (send_write (transport (wld c)) (cstr buf)) c else Inr c)"

definition send_keyboard_queue :: "string \<Rightarrow> client \<Rightarrow> fault + client" where
  "send_keyboard_queue buf c =
     bindF (add_keylist (length buf) buf (kbd c)) (\<lambda>k. Inr (c\<lparr>kbd := k\<rparr>))"

section \<open>Commands\<close>

text \<open>The block for the two arguments of the thread: allocated with two bytes, written with eight.\<close>

definition store_fds :: "(nat \<Rightarrow> nat) \<Rightarrow> fault + unit" where
  "store_fds block_bytes = (if block_bytes 2 < 8 then Inl OutOfBounds else Inr ())"

definition interactive_shell :: "(nat \<Rightarrow> nat) \<Rightarrow> others \<Rightarrow> client \<Rightarrow> fault + int \<times> others \<times> client" where
  "interactive_shell block_bytes fs c =
     bindF (on_world (send_open (transport (wld c)) ''shell: '') c) (\<lambda>c1.
     bindF (store_fds block_bytes) (\<lambda>_.
     bindF (read_and_dump fs c1) (\<lambda>(fs', c2). Inr (0, fs', c2))))"

text \<open>\<open>ret\<close> is never assigned: its value is \<open>garbage\<close>, what the local variable holds.\<close>

definition send_shellcommand :: "string \<Rightarrow> int \<Rightarrow> others \<Rightarrow> client \<Rightarrow> fault + int \<times> others \<times> client" where
  "send_shellcommand buf garbage fs c =
     bindF (on_world (send_open (transport (wld c)) buf) c) (\<lambda>c1.
     bindF (read_and_dump fs c1) (\<lambda>(fs', c2).
     bindF (on_world (send_close (transport (wld c2))) c2) (\<lambda>c3. Inr (garbage, fs', c3))))"

text \<open>The arguments of \<open>logcat\<close> are appended one by one, each behind a space. The quoted texts are
  freed after use.\<close>

fun logcat_args :: "char \<Rightarrow> string list \<Rightarrow> string \<Rightarrow> fault + string" where
  "logcat_args fill [] buf = Inr buf"
| "logcat_args fill (a # as) buf =
     bindF (dupAndQuote True fill a) (\<lambda>q.
     bindF (strncat_buf BUF_SIZE buf '' '' (BUF_SIZE - 1)) (\<lambda>buf1.
     bindF (strncat_buf BUF_SIZE buf1 (cstr q) (BUF_SIZE - 1)) (logcat_args fill as)))"

definition logcat_text :: "char \<Rightarrow> string option \<Rightarrow> string list \<Rightarrow> fault + string" where
  "logcat_text fill log_tags args =
     bindF (dupAndQuote True fill (case log_tags of None \<Rightarrow> [] | Some t \<Rightarrow> t)) (\<lambda>q.
       logcat_args fill args
         (snprintf_s BUF_SIZE (''shell:export ANDROID_LOG_TAGS='' @ [CHR 0x22] @ cstr q @ [CHR 0x22] @
            '' ; exec logcat'')))"

text \<open>What a run of the program depends on besides its arguments.\<close>

record setting =
  us :: usb_script
  block_size :: "nat \<Rightarrow> nat"
  mem_fill :: char
  ret_garbage :: int
  env_log_tags :: "string option"

definition logcat :: "setting \<Rightarrow> string list \<Rightarrow> others \<Rightarrow> client \<Rightarrow> fault + int \<times> others \<times> client" where
  "logcat e argv fs c =
     bindF (init_and_wait_device 10 True (us e) fs c) (\<lambda>(found, fs1, c1).
       if found = 0 then Inr (1, fs1, c1)
       else bindF (logcat_text (mem_fill e) (env_log_tags e) (tl argv)) (\<lambda>buf.
            bindF (send_shellcommand buf (ret_garbage e) fs1 c1) (\<lambda>(_, fs2, c2). Inr (0, fs2, c2))))"

text \<open>The loop of \<open>keyboard\<close> never ends by itself.\<close>

fun keyboard_loop :: "others \<Rightarrow> client \<Rightarrow> fault + int \<times> others \<times> client" where
  "keyboard_loop [] c = Inl Blocked"
| "keyboard_loop (f # fs) c =
     bindF (f c) (\<lambda>c1. bindF (send_command (kbd c1) (wld c1)) (\<lambda>(k, w).
       keyboard_loop fs (c1\<lparr>kbd := k, wld := w\<rparr>)))"

definition keyboard :: "setting \<Rightarrow> others \<Rightarrow> client \<Rightarrow> fault + int \<times> others \<times> client" where
  "keyboard e fs c =
     bindF (init_and_wait_device 10 True (us e) fs c) (\<lambda>(found, fs1, c1).
       if found = 0 then Inr (1, fs1, c1)
       else bindF (on_world (send_open (transport (wld c1)) ''shell: '') c1) (\<lambda>c2.
            bindF (store_fds (block_size e)) (\<lambda>_. keyboard_loop fs1 c2)))"

text \<open>The arguments of a remote command: those that are empty or hold a space go into quotation marks.\<close>

fun shell_args :: "string list \<Rightarrow> string \<Rightarrow> fault + string" where
  "shell_args [] buf = Inr buf"
| "shell_args (a # as) buf =
     bindF (strcat_buf BUF_SIZE buf '' '') (\<lambda>b1.
       let quote = a = [] \<or> CHR '' '' \<in> set a
       in bindF (if quote then strcat_buf BUF_SIZE b1 [CHR 0x22] else Inr b1) (\<lambda>b2.
          bindF (strcat_buf BUF_SIZE b2 a) (\<lambda>b3.
          bindF (if quote then strcat_buf BUF_SIZE b3 [CHR 0x22] else Inr b3) (shell_args as))))"

definition shell_text :: "string list \<Rightarrow> fault + string" where
  "shell_text argv = shell_args (drop 2 argv) (snprintf_s BUF_SIZE (''shell:'' @ argv ! 1))"

definition escape_seq :: "string \<Rightarrow> string" where
  "escape_seq s = CHR 0x1b # CHR ''['' # s @ ''m''"

text \<open>\<open>shell\<close>, or \<open>hell\<close> in colours: \<open>usb_cleanup\<close> shuts libusb down and changes nothing here.\<close>

definition shell :: "setting \<Rightarrow> string list \<Rightarrow> others \<Rightarrow> client \<Rightarrow> fault + int \<times> others \<times> client" where
  "shell e argv fs c =
     bindF (init_and_wait_device 10 True (us e) fs c) (\<lambda>(found, fs1, c1).
       if found = 0 then Inr (1, fs1, c1)
       else
         let h = argv ! 0 ! 0 = CHR ''h'';
             start = (\<lambda>c. if h then message (escape_seq ''41;33'') c else c);
             stop = (\<lambda>c. if h then message (escape_seq ''0'') c else c)
         in if length argv < 2
            then bindF (interactive_shell (block_size e) fs1 (start c1)) (\<lambda>(r, fs2, c2). Inr (r, fs2, stop c2))
            else bindF (shell_text argv) (\<lambda>buf.
                 bindF (send_shellcommand buf (ret_garbage e) fs1 (start c1)) (\<lambda>(_, fs2, c2).
                   Inr (0, fs2, stop c2))))"

definition adb_commandline ::
    "setting \<Rightarrow> string list \<Rightarrow> others \<Rightarrow> client \<Rightarrow> fault + int \<times> others \<times> client" where
  "adb_commandline e argv fs c =
     (if argv = [] then Inr (0, fs, show_help c)
      else if argv ! 0 = ''help'' \<or> argv ! 0 = ''/?'' then Inr (0, fs, show_help c)
      else if argv ! 0 = ''version'' then Inr (0, fs, version c)
      else if argv ! 0 = ''shell'' \<or> argv ! 0 = ''hell'' then shell e argv fs c
      else if argv ! 0 = ''keyboard'' then keyboard e fs c
      else if argv ! 0 = ''logcat'' \<or> argv ! 0 = ''lolcat'' then logcat e argv fs c
      else Inr (case usage c of (r, c') \<Rightarrow> (r, fs, c')))"

text \<open>The exit status of the program is 0 whatever the command returned.\<close>

definition main_program ::
    "setting \<Rightarrow> string list \<Rightarrow> others \<Rightarrow> client \<Rightarrow> fault + int \<times> others \<times> client" where
  "main_program e argv fs c =
     bindF (adb_commandline e (tl argv) fs c) (\<lambda>(_, fs', c'). Inr (0, fs', c'))"

section \<open>Quoting is exact\<close>

definition quote :: "string \<Rightarrow> string" where
  "quote s = concat (map (\<lambda>c. if quoted_char c then [CHR 0x5C, c] else [c]) s)"

fun unquote :: "string \<Rightarrow> string" where
  "unquote [] = []"
| "unquote (c # cs) =
     (if c = CHR 0x5C then (case cs of [] \<Rightarrow> [] | d # ds \<Rightarrow> d # unquote ds) else c # unquote cs)"

lemma length_quote: "length (quote s) = alloc_len s"
  by (induction s) (simp_all add: quote_def)

lemma put_c_at: "put_c (front @ x # rest) (length front) c = Inr ((front @ [c]) @ rest)"
  by (simp add: put_c_def)

lemma quote_loop_run:
  "alloc_len s < length rest \<Longrightarrow>
     quote_loop s (front @ rest) (length front)
       = Inr (front @ quote s @ drop (alloc_len s) rest, length front + alloc_len s)"
proof (induction s arbitrary: front rest)
  case (Cons c s)
  show ?case
  proof (cases "quoted_char c")
    case False
    with Cons.prems obtain x xs where rest: "rest = x # xs" by (cases rest) auto
    with Cons.IH [of xs "front @ [c]"] Cons.prems False put_c_at [of front x xs c] show ?thesis
      by (simp add: quote_def)
  next
    case True
    with Cons.prems obtain x y xs where rest: "rest = x # y # xs"
      by (cases rest; cases "tl rest") auto
    have "put_c (front @ CHR 0x5C # y # xs) (Suc (length front)) c = Inr (front @ [CHR 0x5C, c] @ xs)"
      using put_c_at [of "front @ [CHR 0x5C]" y xs c] by simp
    with Cons.IH [of xs "front @ [CHR 0x5C, c]"] Cons.prems True put_c_at [of front x "y # xs" "CHR 0x5C"]
    show ?thesis by (simp add: quote_def rest)
  qed
qed (simp add: quote_def)

lemma dupAndQuote_run: "dupAndQuote True fill s = Inr (quote s @ [nul])"
  using quote_loop_run [of s "replicate (alloc_len s + 1) fill" "[]"] put_c_at [of "quote s" fill "[]" nul]
  by (simp add: dupAndQuote_def length_quote replicate_append_same [symmetric])

text \<open>C20: quoting fits its block exactly and loses nothing. For every string, the length computed by
  the first loop of \<open>dupAndQuote\<close> is what the second loop writes, so that the copy and its terminator
  fill the allocated block without overrunning it, and removing the backslashes gives back the
  string.\<close>

theorem quote_roundtrip:
  "dupAndQuote True fill s = Inr (quote s @ [nul]) \<and> unquote (quote s) = s"
proof -
  have "unquote (quote s) = s"
    by (induction s) (auto simp: quote_def quoted_char_def)
  then show ?thesis by (simp add: dupAndQuote_run)
qed

section \<open>The text of a remote command\<close>

definition shell_arg :: "string \<Rightarrow> string" where
  "shell_arg a = CHR '' '' # (if a = [] \<or> CHR '' '' \<in> set a then [CHR 0x22] @ a @ [CHR 0x22] else a)"

lemma shell_args_run:
  "length buf < BUF_SIZE \<Longrightarrow> shell_args as buf =
     (if length buf + length (concat (map shell_arg as)) < BUF_SIZE
      then Inr (buf @ concat (map shell_arg as)) else Inl OutOfBounds)"
proof (induction as arbitrary: buf)
  case (Cons a as)
  let ?b = "buf @ shell_arg a"
  have step: "shell_args (a # as) buf =
      (if length ?b < BUF_SIZE then shell_args as ?b else Inl OutOfBounds)"
    by (auto simp: strcat_buf_def shell_arg_def Let_def)
  show ?case unfolding step using Cons.IH [of ?b] by auto
qed simp

text \<open>The command line becomes the remote command, or overruns its buffer. The arguments of
  \<open>zadb shell\<close> are joined by spaces, those that are empty or hold a space in quotation marks, if
  the whole text is shorter than the buffer of 4096 bytes; a longer text overruns the buffer,
  unless there is only one argument, which is cut.\<close>

theorem shell_text_joined:
  "shell_text (cmd # a # args) =
     (let txt = ''shell:'' @ a @ concat (map shell_arg args)
      in if args = [] then Inr (take (BUF_SIZE - 1) txt)
         else if length txt < BUF_SIZE then Inr txt else Inl OutOfBounds)"
proof -
  let ?first = "''shell:'' @ a"
  let ?b = "take (BUF_SIZE - 1) ?first"
  have lb: "length ?b < BUF_SIZE" by (simp add: BUF_SIZE_def)
  have run: "shell_text (cmd # a # args) = shell_args args ?b"
    by (simp add: shell_text_def snprintf_s_def numeral_2_eq_2)
  show ?thesis
  proof (cases "length ?first < BUF_SIZE")
    case True
    then have "?b = ?first" by simp
    then show ?thesis unfolding run using True shell_args_run [OF lb, of args]
      by (auto simp: Let_def)
  next
    case False
    then have "length ?b = BUF_SIZE - 1" by simp
    then have "args \<noteq> [] \<Longrightarrow> shell_args args ?b = Inl OutOfBounds"
      using shell_args_run [OF lb, of args] by (cases args) (auto simp: shell_arg_def)
    with False run show ?thesis by (auto simp: Let_def)
  qed
qed

section \<open>The escape sequence\<close>

definition line_end :: "char \<Rightarrow> bool" where
  "line_end c \<longleftrightarrow> c = CHR 0x0A \<or> c = CHR 0x0D"

text \<open>A text that ends in a line end and dots, or in these and tildes; a text that contains the escape
  sequence: a line end, any dots, tildes, and a dot.\<close>

definition after_line :: "string \<Rightarrow> bool" where
  "after_line s \<longleftrightarrow> (\<exists>p nl i. s = p @ nl # replicate i (CHR ''.'') \<and> line_end nl)"

definition after_tilde :: "string \<Rightarrow> bool" where
  "after_tilde s \<longleftrightarrow> (\<exists>p j. s = p @ replicate (Suc j) (CHR ''~'') \<and> after_line p)"

definition escaped :: "string \<Rightarrow> bool" where
  "escaped s \<longleftrightarrow> (\<exists>p r. s = p @ CHR ''.'' # r \<and> after_tilde p)"

lemma not_after_Nil: "\<not> after_line []" "\<not> after_tilde []" "\<not> escaped []"
  by (auto simp: after_line_def after_tilde_def escaped_def)

lemma after_line_snoc: "after_line (s @ [c]) \<longleftrightarrow> line_end c \<or> c = CHR ''.'' \<and> after_line s"
proof
  assume "after_line (s @ [c])"
  then obtain p nl i where s: "s @ [c] = p @ nl # replicate i (CHR ''.'')" "line_end nl"
    by (auto simp: after_line_def)
  show "line_end c \<or> c = CHR ''.'' \<and> after_line s"
  proof (cases i)
    case (Suc k)
    then have "s @ [c] = (p @ nl # replicate k (CHR ''.'')) @ [CHR ''.'']"
      using s(1) by (simp add: replicate_append_same)
    with s(2) show ?thesis by (auto simp: after_line_def)
  qed (use s in simp)
next
  assume "line_end c \<or> c = CHR ''.'' \<and> after_line s"
  then show "after_line (s @ [c])"
  proof
    assume "line_end c"
    then show ?thesis unfolding after_line_def by (intro exI [of _ s] exI [of _ c] exI [of _ 0]) simp
  next
    assume "c = CHR ''.'' \<and> after_line s"
    then obtain p nl i where "s @ [c] = p @ nl # replicate (Suc i) (CHR ''.'')" "line_end nl"
      by (auto simp: after_line_def replicate_append_same)
    then show ?thesis unfolding after_line_def by blast
  qed
qed

lemma after_tilde_snoc: "after_tilde (s @ [c]) \<longleftrightarrow> c = CHR ''~'' \<and> (after_line s \<or> after_tilde s)"
proof
  assume "after_tilde (s @ [c])"
  then obtain p j where s: "s @ [c] = (p @ replicate j (CHR ''~'')) @ [CHR ''~'']" "after_line p"
    by (auto simp: after_tilde_def replicate_append_same)
  then show "c = CHR ''~'' \<and> (after_line s \<or> after_tilde s)"
    by (cases j) (auto simp: after_tilde_def)
next
  assume c: "c = CHR ''~'' \<and> (after_line s \<or> after_tilde s)"
  then obtain p j where "s = p @ replicate j (CHR ''~'')" "after_line p"
    using after_tilde_def by (metis append_Nil2 replicate_0)
  with c have "s @ [c] = p @ replicate (Suc j) (CHR ''~'')" by (simp add: replicate_append_same)
  with \<open>after_line p\<close> show "after_tilde (s @ [c])" unfolding after_tilde_def by blast
qed

lemma escaped_append: "escaped s \<Longrightarrow> escaped (s @ t)"
  unfolding escaped_def by (metis append.assoc append_Cons)

lemma escaped_snoc: "escaped (s @ [c]) \<longleftrightarrow> escaped s \<or> c = CHR ''.'' \<and> after_tilde s"
proof
  assume "escaped (s @ [c])"
  then obtain p r where s: "s @ [c] = p @ CHR ''.'' # r" "after_tilde p" by (auto simp: escaped_def)
  then show "escaped s \<or> c = CHR ''.'' \<and> after_tilde s"
    by (cases r rule: rev_cases) (auto simp: escaped_def)
next
  assume "escaped s \<or> c = CHR ''.'' \<and> after_tilde s"
  then show "escaped (s @ [c])"
    using escaped_append [of s "[c]"] by (auto simp: escaped_def)
qed

lemma scan_append:
  "scan_chunk (s @ t) st =
     bindF (scan_chunk s st) (\<lambda>(closed, st'). if closed then Inr (True, st') else scan_chunk t st')"
  by (induction s st rule: scan_chunk.induct) auto

text \<open>The state of the automaton in terms of the text read so far.\<close>

lemma scan_escaped:
  "CHR 0x04 \<notin> set s \<Longrightarrow> scan_chunk s 0 =
     (if escaped s then Inl (Exit 0)
      else Inr (False, if after_line s then 1 else if after_tilde s then 2 else 0))"
proof (induction s rule: rev_induct)
  case (snoc c s)
  have "\<not> (after_line s \<and> after_tilde s)"
    by (cases s rule: rev_cases) (auto simp: after_line_snoc after_tilde_snoc not_after_Nil line_end_def)
  with snoc show ?case
    by (auto simp: scan_append after_line_snoc after_tilde_snoc escaped_snoc line_end_def)
qed (simp add: not_after_Nil)

text \<open>Running a function over the chunks.\<close>

fun run_chunks :: "(string \<Rightarrow> 's \<Rightarrow> fault + 's) \<Rightarrow> string list \<Rightarrow> 's \<Rightarrow> fault + 's" where
  "run_chunks fn [] s = Inr s"
| "run_chunks fn (cs # css) s = bindF (fn cs s) (run_chunks fn css)"

lemma stdin_thread_run:
  assumes fn: "\<And>cs s. \<exists>s'. fn cs s = Inr s'"
  shows "list_all (\<lambda>cs. cs \<noteq> [] \<and> CHR 0x04 \<notin> set cs) css \<Longrightarrow> CHR 0x04 \<notin> set before \<Longrightarrow> \<not> escaped before \<Longrightarrow>
     scan_chunk before 0 = Inr (False, st) \<Longrightarrow>
     stdin_read_thread fn close (map ReadChars css @ [ReadChars []]) st s =
       (if escaped (before @ concat css) then Inl (Exit 0) else run_chunks fn css s)"
proof (induction css arbitrary: before st s)
  case (Cons cs css)
  have cs: "cs \<noteq> []" "CHR 0x04 \<notin> set (before @ cs)" using Cons.prems by simp_all
  have scan: "scan_chunk cs st = scan_chunk (before @ cs) 0"
    using Cons.prems(4) by (simp add: scan_append)
  show ?case
  proof (cases "escaped (before @ cs)")
    case True
    with cs scan scan_escaped [OF cs(2)] escaped_append [OF True, of "concat css"] show ?thesis by simp
  next
    case False
    from scan_escaped [OF cs(2)] False obtain st' where st': "scan_chunk (before @ cs) 0 = Inr (False, st')"
      by simp
    obtain s' where "fn cs s = Inr s'" using fn by blast
    with Cons.IH [OF _ cs(2) False st', of s'] Cons.prems(1) cs scan st' show ?thesis by simp
  qed
qed simp

text \<open>C19: the escape sequence of the shell. Whatever pieces the typed text arrives in, as long as it
  holds no Ctrl-D and the pieces can be passed on, the program is left exactly if the text contains
  a line end, any number of dots, at least one tilde, and a dot; otherwise every piece is passed on,
  once and in order, until the end of the input.\<close>

theorem escape_sequence:
  assumes "\<And>cs s. \<exists>s'. fn cs s = Inr s'" and "list_all (\<lambda>cs. cs \<noteq> [] \<and> CHR 0x04 \<notin> set cs) css"
  shows "stdin_read_thread fn close (map ReadChars css @ [ReadChars []]) 0 s =
    (if escaped (concat css) then Inl (Exit 0) else run_chunks fn css s)"
  using stdin_thread_run [OF assms(1) assms(2), of "[]" 0] by (simp add: not_after_Nil)

theorem escape_sequence_witness:
  "stdin_read_thread (\<lambda>cs s. Inr (s @ [cs])) Inr
     (map ReadChars [''ls'', newline @ ''.~'', ''~.'', ''x''] @ [ReadChars []]) 0 [] = Inl (Exit 0)
   \<and> stdin_read_thread (\<lambda>cs s. Inr (s @ [cs])) Inr
     (map ReadChars [''a'' @ newline, ''~x.''] @ [ReadChars []]) 0 [] = Inr [''a'' @ newline, ''~x.'']"
proof -
  have e: "escaped (concat [''ls'', newline @ ''.~'', ''~.'', ''x''])"
    unfolding escaped_def after_tilde_def after_line_def
    by (intro exI [of _ "''ls'' @ newline @ ''.~~''"] exI [of _ "''x''"] conjI exI [of _ "''ls'' @ newline @ ''.''"]
        exI [of _ 1] exI [of _ "''ls''"] exI [of _ "CHR 0x0A"])
      (simp_all add: newline_def line_end_def)
  have "scan_chunk (concat [''a'' @ newline, ''~x.'']) 0 = Inr (False, 0)"
    by (simp add: newline_def)
  then have n: "\<not> escaped (concat [''a'' @ newline, ''~x.''])"
    using scan_escaped [of "concat [''a'' @ newline, ''~x.'']"] by (auto simp: newline_def split: if_splits)
  let ?fn = "\<lambda>cs s. Inr (s @ [cs]) :: fault + string list"
  from escape_sequence [of ?fn "[''ls'', newline @ ''.~'', ''~.'', ''x'']" Inr "[]"] e
    escape_sequence [of ?fn "[''a'' @ newline, ''~x.'']" Inr "[]"] n
  show ?thesis by (simp add: newline_def)
qed

section \<open>Showing the output of a command\<close>

text \<open>What is shown of a packet, and the packets that can be shown.\<close>

definition shown :: "apacket \<Rightarrow> string" where
  "shown pk = (if command (msg pk) = A_WRTE
     then cstr (bytes_str (map (data pk) [0..<unat (data_length (msg pk))])) else [])"

definition showable :: "apacket \<Rightarrow> bool" where
  "showable pk \<longleftrightarrow> command (msg pk) \<noteq> A_CLSE
     \<and> (command (msg pk) = A_WRTE \<longrightarrow> unat (data_length (msg pk)) < BUF_SIZE)"

lemma read_and_dump_step:
  assumes "shift_received_packet (wld c) = Inr (Some p, w)" "heap w p = Some pk" "showable pk"
  shows "read_and_dump (Inr # fs) c = read_and_dump fs (c\<lparr>wld := w, out := out c @ shown pk\<rparr>)"
proof -
  have "c\<lparr>wld := w\<rparr> = c\<lparr>wld := w, out := out c\<rparr>" by (cases c) simp
  moreover have "A_OKAY \<noteq> A_WRTE" by (simp add: command_defs)
  ultimately show ?thesis using assms
    by (auto simp: Let_def shown_def showable_def dump_text_def message_def)
qed

lemma read_and_dump_run:
  "received_rep (wld c) (ps @ a # qs) \<Longrightarrow> list_all (\<lambda>p. \<exists>pk. heap (wld c) p = Some pk \<and> showable pk) ps \<Longrightarrow>
     heap (wld c) a = Some pka \<Longrightarrow> command (msg pka) = A_CLSE \<Longrightarrow>
     \<exists>c'. read_and_dump (replicate (Suc (length ps)) Inr @ fs) c = Inr (fs, c')
       \<and> out c' = out c @ concat (map (\<lambda>p. shown (the (heap (wld c) p))) ps) @ ''closed'' @ newline
       \<and> received_rep (wld c') qs \<and> heap (wld c') = heap (wld c)"
proof (induction ps arbitrary: c)
  case Nil
  from shift_received_Cons [of "wld c" a qs] Nil.prems(1) obtain w where
    "shift_received_packet (wld c) = Inr (Some a, w)" "received_rep w qs" "heap w = heap (wld c)" by auto
  with Nil.prems(3,4) show ?case by (simp add: Let_def message_def command_defs)
next
  case (Cons p ps)
  from shift_received_Cons [of "wld c" p "ps @ a # qs"] Cons.prems(1) obtain w where
    w: "shift_received_packet (wld c) = Inr (Some p, w)" "received_rep w (ps @ a # qs)"
      "heap w = heap (wld c)" by auto
  from Cons.prems(2) obtain pk where pk: "heap (wld c) p = Some pk" "showable pk" by auto
  let ?c = "c\<lparr>wld := w, out := out c @ shown pk\<rparr>"
  have step: "read_and_dump (replicate (Suc (length (p # ps))) Inr @ fs) c
      = read_and_dump (replicate (Suc (length ps)) Inr @ fs) ?c"
    using read_and_dump_step [OF w(1) _ pk(2), of "replicate (Suc (length ps)) Inr @ fs"] w(3) pk(1)
    by (simp only: length_Cons replicate_Suc append_Cons)
  have "list_all (\<lambda>p. \<exists>pk. heap (wld ?c) p = Some pk \<and> showable pk) ps"
    using Cons.prems(2) w(3) by simp
  from Cons.IH [of ?c, OF _ this] w Cons.prems(3,4) obtain c' where
    "read_and_dump (replicate (Suc (length ps)) Inr @ fs) ?c = Inr (fs, c')"
    "out c' = out ?c @ concat (map (\<lambda>p. shown (the (heap (wld ?c) p))) ps) @ ''closed'' @ newline"
    "received_rep (wld c') qs" "heap (wld c') = heap (wld ?c)" by auto
  then show ?case unfolding step using w(3) pk by (intro exI [of _ c']) auto
qed

text \<open>What the user sees of a command. When the packets \<open>ps\<close> and then the closing of the stream
  are in the queue, the payloads of the data packets among \<open>ps\<close> are shown in order, each up to its
  first zero byte, then the closing is reported, and the rest of the queue stays as it is. None of
  the packets taken from the queue is freed.\<close>

theorem read_and_dump_shows:
  assumes "received_rep (wld c) (ps @ a # qs)"
    and "list_all (\<lambda>p. \<exists>pk. heap (wld c) p = Some pk \<and> showable pk) ps"
    and "heap (wld c) a = Some pka" "command (msg pka) = A_CLSE"
  shows "\<exists>c'. read_and_dump (replicate (Suc (length ps)) Inr @ fs) c = Inr (fs, c')
    \<and> out c' = out c @ concat (map (\<lambda>p. shown (the (heap (wld c) p))) ps) @ ''closed'' @ newline
    \<and> received_rep (wld c') qs \<and> dom (heap (wld c')) = dom (heap (wld c))"
  using read_and_dump_run [OF assms, of fs] by auto

text \<open>A full payload overruns the buffer of \<open>read_and_dump\<close>. A data packet whose header the
  client accepts may carry 4096 bytes; showing it stores the terminator behind the buffer. Accepted
  packets of any smaller length are shown within it.\<close>

theorem full_payload_overruns:
  assumes "received_rep (wld c) (a # qs)" "heap (wld c) a = Some pk"
    and "command (msg pk) = A_WRTE" "check_header pk = 0"
  shows "(unat (data_length (msg pk)) = MAX_PAYLOAD \<longrightarrow> read_and_dump (Inr # fs) c = Inl OutOfBounds)
    \<and> (unat (data_length (msg pk)) \<noteq> MAX_PAYLOAD \<longrightarrow> dump_text pk = Inr (shown pk))"
proof -
  from shift_received_Cons [OF assms(1)] obtain w where
    "shift_received_packet (wld c) = Inr (Some a, w)" "heap w = heap (wld c)" by auto
  moreover have "unat (data_length (msg pk)) \<le> MAX_PAYLOAD"
    using assms(4) by (auto simp: check_header_def split: if_splits)
  ultimately show ?thesis using assms(2,3)
    by (auto simp: Let_def dump_text_def shown_def BUF_SIZE_def MAX_PAYLOAD_def command_defs)
qed

text \<open>A queue with a data packet and the closing of the stream behind it.\<close>

definition shell_output :: client where
  "shell_output = idle_client (sample_world\<lparr>
     heap := [0 \<mapsto> sample_packet\<lparr>nxt := Some 1, data := (\<lambda>i. of_nat i + 65)\<rparr>,
              1 \<mapsto> sample_packet\<lparr>msg := zero_message\<lparr>command := A_CLSE\<rparr>\<rparr>],
     received := Some 0, last_r := Some 1\<rparr>)"

lemma received_shell_output: "received_rep (wld shell_output) [0, 1]"
  by (simp add: received_rep_def fifo_rep_def shell_output_def idle_client_def nexts_def sample_packet_def)

theorem read_and_dump_shows_witness:
  "\<exists>c'. read_and_dump [Inr, Inr, Inr] shell_output = Inr ([Inr], c')
     \<and> out c' = ''ABC'' @ ''closed'' @ newline \<and> received (wld c') = None"
proof -
  let ?pk = "sample_packet\<lparr>nxt := Some 1, data := (\<lambda>i. of_nat i + 65)\<rparr>"
  have h: "heap (wld shell_output) 0 = Some ?pk"
    "heap (wld shell_output) 1 = Some (sample_packet\<lparr>msg := zero_message\<lparr>command := A_CLSE\<rparr>\<rparr>)"
    by (simp_all add: shell_output_def idle_client_def)
  have "showable ?pk" by (simp add: showable_def sample_packet_def command_defs BUF_SIZE_def)
  moreover have s: "shown ?pk = ''ABC''"
    by code_simp
  moreover have "received_rep (wld shell_output) ([0] @ 1 # [])" using received_shell_output by simp
  ultimately show ?thesis
    using read_and_dump_shows [of shell_output "[0]" 1 "[]" _ "[Inr]"] h
      received_rep_empty [of _ "[]"]
    by (fastforce simp: shell_output_def idle_client_def)
qed

theorem full_payload_overruns_witness:
  "read_and_dump [Inr] (shell_output\<lparr>wld := (wld shell_output)\<lparr>
       heap := [0 \<mapsto> sample_packet\<lparr>msg := zero_message\<lparr>command := A_WRTE, data_length := 4096,
                 magic := NOT A_WRTE\<rparr>\<rparr>], received := Some 0, last_r := Some 0\<rparr>\<rparr>) = Inl OutOfBounds"
proof -
  let ?pk = "sample_packet\<lparr>msg := zero_message\<lparr>command := A_WRTE, data_length := 4096, magic := NOT A_WRTE\<rparr>\<rparr>"
  let ?c = "shell_output\<lparr>wld := (wld shell_output)\<lparr>heap := [0 \<mapsto> ?pk], received := Some 0, last_r := Some 0\<rparr>\<rparr>"
  have "received_rep (wld ?c) [0]"
    by (simp add: received_rep_def fifo_rep_def nexts_def sample_packet_def)
  moreover have "heap (wld ?c) 0 = Some ?pk" by simp
  moreover have "check_header ?pk = 0" by (simp add: check_header_0_iff MAX_PAYLOAD_def)
  ultimately show ?thesis using full_payload_overruns [of ?c 0 "[]" ?pk "[]"]
    by (simp add: MAX_PAYLOAD_def)
qed

end
