(* ===== verification/Transfers.thy ===== *)
theory Transfers
  imports SyncIo DList
begin

text \<open>
  The bookkeeping of transfers in libusb (\<open>io.c\<close>): deadlines, the list of transfers in flight sorted
  by them, timeouts, completion and the cancelling of everything when a device goes away. The list
  is kept as the sequence of its elements; that the linked list of \<open>libusbi.h\<close> implements such
  sequences is shown in \<open>DList\<close>. The kernel side is a parameter: what the backend and the clock
  answer. Callbacks are recorded, not run.
\<close>

section \<open>Time\<close>

record timespec =
  ts_sec :: int
  ts_nsec :: int

record timeval =
  tv_sec :: int
  tv_usec :: int

definition timerisset :: "timeval \<Rightarrow> bool" where
  "timerisset tv \<longleftrightarrow> tv_sec tv \<noteq> 0 \<or> tv_usec tv \<noteq> 0"

definition timerclear :: timeval where
  "timerclear = \<lparr>tv_sec = 0, tv_usec = 0\<rparr>"

text \<open>\<open>later a b\<close> is \<open>timercmp(a, b, >)\<close>.\<close>

definition later :: "timeval \<Rightarrow> timeval \<Rightarrow> bool" where
  "later a b \<longleftrightarrow> tv_sec a > tv_sec b \<or> tv_sec a = tv_sec b \<and> tv_usec a > tv_usec b"

definition timersub :: "timeval \<Rightarrow> timeval \<Rightarrow> timeval" where
  "timersub a b =
     (let s = tv_sec a - tv_sec b; u = tv_usec a - tv_usec b
      in if u < 0 then \<lparr>tv_sec = s - 1, tv_usec = u + 1000000\<rparr> else \<lparr>tv_sec = s, tv_usec = u\<rparr>)"

definition timeval_of :: "timespec \<Rightarrow> timeval" where
  "timeval_of ts = \<lparr>tv_sec = ts_sec ts, tv_usec = ts_nsec ts div 1000\<rparr>"

section \<open>State\<close>

record itransfer =
  deadline :: timeval
  timed_out :: bool
  i_transferred :: int
  user :: libusb_transfer

text \<open>
  The context: the transfers in flight, all transfers by address, whether timer descriptors are
  compiled in, whether this context has one, what it is armed for, whether setting it works, the
  transfers the backend has been asked to cancel, the callbacks made, with the status and the length
  they report, the descriptors to poll and whether their lock is held.
\<close>

record usb_context =
  flying :: "addr list"
  itransfers :: "addr \<rightharpoonup> itransfer"
  timerfd_built :: bool
  using_timerfd :: bool
  timer_ok :: bool
  armed :: "timeval option"
  cancelled :: "addr list"
  callbacks :: "(addr \<times> transfer_status \<times> int) list"
  pollfds :: "(int \<times> int) list"
  pollfds_locked :: bool

section \<open>Deadlines\<close>

text \<open>The clock answers a code and a time; a transfer without timeout keeps the deadline it has.\<close>

definition calculate_timeout :: "int \<times> timespec \<Rightarrow> itransfer \<Rightarrow> int \<times> itransfer" where
  "calculate_timeout clock it =
     (let timeout = uint (xtimeout (user it))
      in if timeout = 0 then (0, it)
         else case clock of (r, now) \<Rightarrow>
           if r < 0 then (r, it)
           else
             let sec = ts_sec now + timeout div 1000;
                 nsec = ts_nsec now + (timeout mod 1000) * 1000000;
                 ts = (if nsec > 1000000000 then \<lparr>ts_sec = sec + 1, ts_nsec = nsec - 1000000000\<rparr>
                       else \<lparr>ts_sec = sec, ts_nsec = nsec\<rparr>)
             in (0, it\<lparr>deadline := timeval_of ts\<rparr>))"

section \<open>The list of transfers in flight\<close>

text \<open>The place in the list: before the first transfer without deadline or with a later one. The
  result says whether that is the head of the list.\<close>

fun place :: "(addr \<rightharpoonup> itransfer) \<Rightarrow> addr \<Rightarrow> timeval \<Rightarrow> addr list \<Rightarrow> int \<Rightarrow> fault + addr list \<times> int" where
  "place its t tv [] is_first = Inr ([t], 0)"
| "place its t tv (cur # rest) is_first =
     (case its cur of
        None \<Rightarrow> Inl UseAfterFree
      | Some c \<Rightarrow>
          if \<not> timerisset (deadline c) \<or> later (deadline c) tv then Inr (t # cur # rest, is_first)
          else bindF (place its t tv rest 0) (\<lambda>(l, r). Inr (cur # l, r)))"

definition add_to_flying_list :: "addr \<Rightarrow> itransfer \<Rightarrow> usb_context \<Rightarrow> fault + int \<times> usb_context" where
  "add_to_flying_list t it ctx =
     (if flying ctx = []
      then Inr (if timerisset (deadline it) then 1 else 0, ctx\<lparr>flying := [t]\<rparr>)
      else if \<not> timerisset (deadline it) then Inr (0, ctx\<lparr>flying := flying ctx @ [t]\<rparr>)
      else bindF (place (itransfers ctx) t (deadline it) (flying ctx) 1) (\<lambda>(l, r).
             Inr (r, ctx\<lparr>flying := l\<rparr>)))"

section \<open>Submitting and cancelling\<close>

text \<open>\<open>sub_rc\<close> is what the backend answers to the submission.\<close>

definition libusb_submit_transfer ::
    "int \<times> timespec \<Rightarrow> int \<Rightarrow> addr \<Rightarrow> usb_context \<Rightarrow> fault + int \<times> usb_context" where
  "libusb_submit_transfer clock sub_rc t ctx =
     bindF (deref (itransfers ctx) (Some t)) (\<lambda>(_, it).
       case calculate_timeout clock (it\<lparr>i_transferred := 0, timed_out := False\<rparr>) of (r, it1) \<Rightarrow>
         let ctx1 = ctx\<lparr>itransfers := (itransfers ctx)(t \<mapsto> it1)\<rparr>
         in if r < 0 then Inr (rc LIBUSB_ERROR_OTHER, ctx1)
            else bindF (add_to_flying_list t it1 ctx1) (\<lambda>(is_first, ctx2).
              if sub_rc \<noteq> 0 then Inr (sub_rc, ctx2\<lparr>flying := remove1 t (flying ctx2)\<rparr>)
              else if timerfd_built ctx2 \<and> is_first \<noteq> 0 \<and> using_timerfd ctx2
              then if timer_ok ctx2 then Inr (0, ctx2\<lparr>armed := Some (deadline it1)\<rparr>)
                   else Inr (rc LIBUSB_ERROR_OTHER, ctx2)
              else Inr (0, ctx2)))"

definition libusb_cancel_transfer :: "int \<Rightarrow> addr \<Rightarrow> usb_context \<Rightarrow> fault + int \<times> usb_context" where
  "libusb_cancel_transfer cancel_rc t ctx =
     bindF (deref (itransfers ctx) (Some t)) (\<lambda>_.
       Inr (cancel_rc, ctx\<lparr>cancelled := cancelled ctx @ [t]\<rparr>))"

text \<open>Setting the timer fails on a context without one, whose descriptor is -1.\<close>

definition settime_ok :: "usb_context \<Rightarrow> bool" where
  "settime_ok ctx \<longleftrightarrow> using_timerfd ctx \<and> timer_ok ctx"

definition disarm_timerfd :: "usb_context \<Rightarrow> int \<times> usb_context" where
  "disarm_timerfd ctx =
     (if \<not> timerfd_built ctx then (0, ctx)
      else if settime_ok ctx then (0, ctx\<lparr>armed := None\<rparr>)
      else (rc LIBUSB_ERROR_OTHER, ctx))"

fun arm_loop :: "addr list \<Rightarrow> usb_context \<Rightarrow> fault + int \<times> usb_context" where
  "arm_loop [] ctx = Inr (0, ctx)"
| "arm_loop (t # ts) ctx =
     bindF (deref (itransfers ctx) (Some t)) (\<lambda>(_, it).
       if \<not> timerisset (deadline it) then Inr (0, ctx)
       else if \<not> timed_out it
       then if settime_ok ctx then Inr (1, ctx\<lparr>armed := Some (deadline it)\<rparr>)
            else Inr (rc LIBUSB_ERROR_OTHER, ctx)
       else arm_loop ts ctx)"

definition arm_timerfd_for_next_timeout :: "usb_context \<Rightarrow> fault + int \<times> usb_context" where
  "arm_timerfd_for_next_timeout ctx =
     (if timerfd_built ctx then arm_loop (flying ctx) ctx else Inr (0, ctx))"

section \<open>Completion\<close>

text \<open>The status reported: a short transfer is an error if the transfer asks for that.\<close>

definition reported_status :: "itransfer \<Rightarrow> transfer_status \<Rightarrow> transfer_status" where
  "reported_status it st =
     (let u = user it;
          rqlen = length_x u - (if xtype u = TRANSFER_TYPE_CONTROL then CONTROL_SETUP_SIZE else 0)
      in if st = TRANSFER_COMPLETED \<and> xflags u AND TRANSFER_SHORT_NOT_OK \<noteq> 0 \<and> rqlen \<noteq> i_transferred it
         then TRANSFER_ERROR else st)"

definition complete_user :: "addr \<Rightarrow> itransfer \<Rightarrow> transfer_status \<Rightarrow> usb_context \<Rightarrow> usb_context" where
  "complete_user t it st ctx =
     (let u = (user it)\<lparr>status := reported_status it st, actual_length := i_transferred it\<rparr>
      in ctx\<lparr>itransfers := (itransfers ctx)(t :=
               if xflags u AND TRANSFER_FREE_TRANSFER \<noteq> 0 then None else Some (it\<lparr>user := u\<rparr>)),
             callbacks := callbacks ctx @ [(t, status u, actual_length u)]\<rparr>)"

definition usbi_handle_transfer_completion ::
    "addr \<Rightarrow> transfer_status \<Rightarrow> usb_context \<Rightarrow> fault + int \<times> usb_context" where
  "usbi_handle_transfer_completion t st ctx =
     bindF (deref (itransfers ctx) (Some t)) (\<lambda>(_, it).
     bindF (arm_timerfd_for_next_timeout (ctx\<lparr>flying := remove1 t (flying ctx)\<rparr>)) (\<lambda>(r, ctx1).
       if r < 0 then Inr (r, ctx1)
       else case (if r = 0 then disarm_timerfd ctx1 else (0, ctx1)) of (r2, ctx2) \<Rightarrow>
         if r2 < 0 then Inr (r2, ctx2) else Inr (0, complete_user t it st ctx2)))"

definition usbi_handle_transfer_cancellation :: "addr \<Rightarrow> usb_context \<Rightarrow> fault + int \<times> usb_context" where
  "usbi_handle_transfer_cancellation t ctx =
     bindF (deref (itransfers ctx) (Some t)) (\<lambda>(_, it).
       usbi_handle_transfer_completion t
         (if timed_out it then TRANSFER_TIMED_OUT else TRANSFER_CANCELLED) ctx)"

section \<open>Timeouts\<close>

definition handle_timeout :: "int \<Rightarrow> addr \<Rightarrow> usb_context \<Rightarrow> fault + usb_context" where
  "handle_timeout cancel_rc t ctx =
     bindF (deref (itransfers ctx) (Some t)) (\<lambda>(_, it).
     bindF (libusb_cancel_transfer cancel_rc t
              (ctx\<lparr>itransfers := (itransfers ctx)(t \<mapsto> it\<lparr>timed_out := True\<rparr>)\<rparr>)) (\<lambda>(r, ctx').
       Inr ctx'))"

fun expire_loop :: "int \<Rightarrow> timeval \<Rightarrow> addr list \<Rightarrow> usb_context \<Rightarrow> fault + usb_context" where
  "expire_loop cancel_rc now [] ctx = Inr ctx"
| "expire_loop cancel_rc now (t # ts) ctx =
     bindF (deref (itransfers ctx) (Some t)) (\<lambda>(_, it).
       if \<not> timerisset (deadline it) then Inr ctx
       else if timed_out it then expire_loop cancel_rc now ts ctx
       else if later (deadline it) now then Inr ctx
       else bindF (handle_timeout cancel_rc t ctx) (expire_loop cancel_rc now ts))"

definition handle_timeouts ::
    "int \<Rightarrow> int \<times> timespec \<Rightarrow> usb_context \<Rightarrow> fault + int \<times> usb_context" where
  "handle_timeouts cancel_rc clock ctx =
     (if flying ctx = [] then Inr (0, ctx)
      else case clock of (r, now) \<Rightarrow>
        if r < 0 then Inr (r, ctx)
        else bindF (expire_loop cancel_rc (timeval_of now) (flying ctx) ctx) (\<lambda>ctx'. Inr (0, ctx')))"

definition handle_timerfd_trigger ::
    "int \<Rightarrow> int \<times> timespec \<Rightarrow> usb_context \<Rightarrow> fault + int \<times> usb_context" where
  "handle_timerfd_trigger cancel_rc clock ctx =
     (case disarm_timerfd ctx of (r, ctx1) \<Rightarrow>
        if r < 0 then Inr (r, ctx1)
        else bindF (handle_timeouts cancel_rc clock ctx1) (\<lambda>(r, ctx2).
          if r < 0 then Inr (r, ctx2) else arm_timerfd_for_next_timeout ctx2))"

text \<open>The next deadline that has not been handled, relative to the clock: the code and the time.\<close>

fun next_unhandled :: "addr list \<Rightarrow> usb_context \<Rightarrow> fault + itransfer option" where
  "next_unhandled [] ctx = Inr None"
| "next_unhandled (t # ts) ctx =
     bindF (deref (itransfers ctx) (Some t)) (\<lambda>(_, it).
       if \<not> timed_out it then Inr (Some it) else next_unhandled ts ctx)"

definition libusb_get_next_timeout ::
    "int \<times> timespec \<Rightarrow> usb_context \<Rightarrow> fault + int \<times> timeval option" where
  "libusb_get_next_timeout clock ctx =
     (if using_timerfd ctx then Inr (0, None)
      else if flying ctx = [] then Inr (0, None)
      else bindF (next_unhandled (flying ctx) ctx) (\<lambda>found. case found of
          None \<Rightarrow> Inr (0, None)
        | Some it \<Rightarrow>
            if \<not> timerisset (deadline it) then Inr (0, None)
            else case clock of (r, now) \<Rightarrow>
              if r < 0 then Inr (rc LIBUSB_ERROR_OTHER, None)
              else if \<not> later (deadline it) (timeval_of now) then Inr (1, Some timerclear)
              else Inr (1, Some (timersub (deadline it) (timeval_of now)))))"

text \<open>The timeout for one wait: 1 if a deadline has passed, else 0 and the smaller of the next deadline
  and the caller's timeout. A failing clock counts as a timeout whose time is whatever the local
  variable \<open>timeout\<close> holds, \<open>stack\<close>.\<close>

definition get_next_timeout ::
    "int \<times> timespec \<Rightarrow> timeval \<Rightarrow> timeval \<Rightarrow> usb_context \<Rightarrow> fault + int \<times> timeval" where
  "get_next_timeout clock stack tv ctx =
     bindF (libusb_get_next_timeout clock ctx) (\<lambda>(r, out).
       if r \<noteq> 0
       then let timeout = (case out of None \<Rightarrow> stack | Some t \<Rightarrow> t)
            in if \<not> timerisset timeout then Inr (1, tv)
               else Inr (0, if later tv timeout then timeout else tv)
       else Inr (0, tv))"

section \<open>Disconnection\<close>

definition flying_of :: "addr \<Rightarrow> usb_context \<Rightarrow> addr \<Rightarrow> bool" where
  "flying_of h ctx t \<longleftrightarrow> (case itransfers ctx t of None \<Rightarrow> False | Some it \<Rightarrow> dev_handle (user it) = h)"

lemma armed_same [simp, intro]: "\<exists>a. ctx = ctx\<lparr>armed := a\<rparr>"
  by (rule exI [of _ "armed ctx"]) simp

lemma arm_loop_flying: "arm_loop ts ctx = Inr (r, ctx') \<Longrightarrow> \<exists>a. ctx' = ctx\<lparr>armed := a\<rparr>"
proof (induction ts ctx rule: arm_loop.induct)
  case (1 ctx)
  then show ?case by auto
next
  case (2 t ts ctx)
  from "2.prems" obtain it where it: "deref (itransfers ctx) (Some t) = Inr (t, it)"
    by (auto simp: deref_eq_Inr elim!: bindF_InrE)
  with 2 show ?case by (auto split: if_splits)
qed

lemma arm_flying: "arm_timerfd_for_next_timeout ctx = Inr (r, ctx') \<Longrightarrow> \<exists>a. ctx' = ctx\<lparr>armed := a\<rparr>"
  using arm_loop_flying [of "flying ctx" ctx r ctx']
  by (auto simp: arm_timerfd_for_next_timeout_def split: if_splits)

lemma disarm_flying: "disarm_timerfd ctx = (r, ctx') \<Longrightarrow> \<exists>a. ctx' = ctx\<lparr>armed := a\<rparr>"
  by (auto simp: disarm_timerfd_def split: if_splits)

lemma completion_effect:
  assumes "usbi_handle_transfer_completion t st ctx = Inr (r, ctx')"
  obtains it a where "itransfers ctx t = Some it"
    and "ctx' = ctx\<lparr>flying := remove1 t (flying ctx), armed := a\<rparr>
       \<or> r = 0 \<and> ctx' = complete_user t it st (ctx\<lparr>flying := remove1 t (flying ctx), armed := a\<rparr>)"
proof -
  let ?ctx = "ctx\<lparr>flying := remove1 t (flying ctx)\<rparr>"
  from assms obtain it r1 ctx1 where it: "itransfers ctx t = Some it"
    and arm: "arm_timerfd_for_next_timeout ?ctx = Inr (r1, ctx1)"
    by (auto simp: usbi_handle_transfer_completion_def deref_eq_Inr elim!: bindF_InrE)
  obtain r2 ctx2 where dis: "(if r1 = 0 then disarm_timerfd ctx1 else (0, ctx1)) = (r2, ctx2)"
    by fastforce
  from arm_flying [OF arm] obtain a1 where c1: "ctx1 = ?ctx\<lparr>armed := a1\<rparr>" by blast
  have "\<exists>a. ctx2 = ctx1\<lparr>armed := a\<rparr>"
    using dis disarm_flying [of ctx1 r2 ctx2] by (cases "r1 = 0") auto
  then obtain a2 where c2: "ctx2 = ctx1\<lparr>armed := a2\<rparr>" by blast
  have "ctx' = ctx1 \<or> ctx' = ctx2 \<or> r = 0 \<and> ctx' = complete_user t it st ctx2"
    using assms it arm dis by (auto simp: usbi_handle_transfer_completion_def split: if_splits)
  with that [OF it, of a1] that [OF it, of a2] show thesis by (auto simp: c1 c2)
qed

lemma completion_flying:
  "usbi_handle_transfer_completion t st ctx = Inr (r, ctx') \<Longrightarrow> flying ctx' = remove1 t (flying ctx)"
  by (erule completion_effect) (auto simp: complete_user_def Let_def)

text \<open>What a disconnection does to the transfers in flight: the first transfer of the handle is completed
  until there is none. This is a specification, which knows nothing of the backend; the loop of the code,
  \<open>usbi_handle_disconnect\<close>, also lets the backend clear each transfer, and is in \<open>Events\<close>.\<close>

function disconnect_loop :: "addr \<Rightarrow> usb_context \<Rightarrow> fault + usb_context" where
  "disconnect_loop h ctx =
     (if list_ex (\<lambda>t. itransfers ctx t = None) (takeWhile (\<lambda>t. \<not> flying_of h ctx t) (flying ctx))
      then Inl UseAfterFree
      else case find (flying_of h ctx) (flying ctx) of
          None \<Rightarrow> Inr ctx
        | Some t \<Rightarrow> bindF (usbi_handle_transfer_completion t TRANSFER_NO_DEVICE ctx) (\<lambda>(r, ctx').
            disconnect_loop h ctx'))"
  by pat_completeness auto
termination
proof (relation "measure (\<lambda>(h, ctx). length (flying ctx))", goal_cases)
  case (2 h ctx t res r ctx')
  then have "t \<in> set (flying ctx)" by (auto simp: find_Some_iff)
  moreover have "flying ctx' = remove1 t (flying ctx)" using 2 by (auto dest: completion_flying)
  moreover have "0 < length (flying ctx)" using calculation(1) by (rule length_pos_if_in_set)
  ultimately show ?case by (simp add: length_remove1)
qed simp

declare disconnect_loop.simps [simp del]


section \<open>The list stays sorted\<close>

text \<open>Which transfer may stand before which: those without deadline come last.\<close>

definition before :: "(addr \<rightharpoonup> itransfer) \<Rightarrow> addr \<Rightarrow> addr \<Rightarrow> bool" where
  "before its a b \<longleftrightarrow> (let da = deadline (the (its a)); db = deadline (the (its b))
     in \<not> timerisset db \<or> timerisset da \<and> \<not> later da db)"

definition ordered :: "usb_context \<Rightarrow> bool" where
  "ordered ctx \<longleftrightarrow> distinct (flying ctx) \<and> set (flying ctx) \<subseteq> dom (itransfers ctx)
     \<and> sorted_wrt (before (itransfers ctx)) (flying ctx)"

lemma later_trans: "later a b \<Longrightarrow> \<not> later c b \<Longrightarrow> later a c"
  by (auto simp: later_def)

lemma before_trans: "before its a b \<Longrightarrow> before its b c \<Longrightarrow> before its a c"
  by (auto simp: before_def Let_def later_def)

lemma before_refl: "before its a a"
  by (simp add: before_def Let_def later_def)

lemma place_sorted:
  "sorted_wrt (before its) xs \<Longrightarrow> set xs \<subseteq> dom its \<Longrightarrow> its t = Some it \<Longrightarrow> timerisset (deadline it) \<Longrightarrow>
     \<exists>ys zs r. place its t (deadline it) xs f = Inr (ys @ t # zs, r) \<and> xs = ys @ zs
       \<and> sorted_wrt (before its) (ys @ t # zs)"
proof (induction xs arbitrary: f)
  case Nil
  then show ?case by simp
next
  case (Cons c rest)
  from Cons.prems obtain ci where ci: "its c = Some ci" by auto
  show ?case
  proof (cases "\<not> timerisset (deadline ci) \<or> later (deadline ci) (deadline it)")
    case True
    then have tc: "before its t c" using Cons.prems(3,4) ci
      by (auto simp: before_def later_def)
    have "sorted_wrt (before its) (t # c # rest)"
      using Cons.prems(1) tc before_trans [OF tc] by auto
    moreover have "place its t (deadline it) (c # rest) f = Inr (t # c # rest, f)"
      using True ci by simp
    ultimately show ?thesis
      by (intro exI [of _ "[]"] exI [of _ "c # rest"] exI [of _ f]) simp
  next
    case False
    then have ct: "before its c t" using Cons.prems(3,4) ci by (auto simp: before_def)
    from Cons.IH [of 0] Cons.prems obtain ys zs r where IH:
      "place its t (deadline it) rest 0 = Inr (ys @ t # zs, r)" "rest = ys @ zs"
      "sorted_wrt (before its) (ys @ t # zs)" by auto
    have "sorted_wrt (before its) ((c # ys) @ t # zs)" using IH Cons.prems(1) ct by auto
    then show ?thesis using IH False ci
      by (intro exI [of _ "c # ys"] exI [of _ zs] exI [of _ r]) simp
  qed
qed

lemma before_other:
  "a \<noteq> t \<Longrightarrow> b \<noteq> t \<Longrightarrow> before (its(t \<mapsto> it)) a b = before its a b"
  by (simp add: before_def)

lemma sorted_other:
  "t \<notin> set xs \<Longrightarrow> sorted_wrt (before (its(t \<mapsto> it))) xs = sorted_wrt (before its) xs"
  by (induction xs) (auto simp: before_def)

lemma add_to_flying_sorted:
  assumes "ordered ctx" "t \<notin> set (flying ctx)" "itransfers ctx t = Some it"
  shows "\<exists>ys zs r. add_to_flying_list t it ctx = Inr (r, ctx\<lparr>flying := ys @ t # zs\<rparr>)
    \<and> flying ctx = ys @ zs \<and> ordered (ctx\<lparr>flying := ys @ t # zs\<rparr>)"
proof -
  have "\<exists>ys zs r. add_to_flying_list t it ctx = Inr (r, ctx\<lparr>flying := ys @ t # zs\<rparr>)
    \<and> flying ctx = ys @ zs \<and> sorted_wrt (before (itransfers ctx)) (ys @ t # zs)"
  proof (cases "flying ctx = []")
    case True
    then show ?thesis
      by (intro exI [of _ "[]"] exI [of _ "if timerisset (deadline it) then 1 else 0"])
        (simp add: add_to_flying_list_def)
  next
    case ne: False
    show ?thesis
    proof (cases "timerisset (deadline it)")
      case False
      then have "sorted_wrt (before (itransfers ctx)) (flying ctx @ [t])"
        using assms by (auto simp: ordered_def sorted_wrt_append before_def)
      then show ?thesis using ne False
        by (intro exI [of _ "flying ctx"] exI [of _ "[]"] exI [of _ 0]) (simp add: add_to_flying_list_def)
    next
      case True
      from place_sorted [of "itransfers ctx" "flying ctx" t it 1] assms True obtain ys zs r where
        p: "place (itransfers ctx) t (deadline it) (flying ctx) 1 = Inr (ys @ t # zs, r)"
        and fl: "flying ctx = ys @ zs" "sorted_wrt (before (itransfers ctx)) (ys @ t # zs)"
        by (auto simp: ordered_def)
      have "add_to_flying_list t it ctx = Inr (r, ctx\<lparr>flying := ys @ t # zs\<rparr>)"
        using ne True p by (simp add: add_to_flying_list_def)
      with fl show ?thesis by blast
    qed
  qed
  then show ?thesis using assms by (fastforce simp: ordered_def)
qed

text \<open>C22: submitting keeps the transfers in flight sorted. A transfer that is not in flight is
  inserted so that the list stays sorted by deadline, those without deadline last, and the order of
  the others does not change; if the clock or the backend refuses, the list is as before, and after
  a return value of 0 the transfer is in the list.\<close>

theorem submit_keeps_order:
  assumes "ordered ctx" "itransfers ctx t = Some it" "t \<notin> set (flying ctx)"
  shows "\<exists>r ctx' ys zs. libusb_submit_transfer clock sub_rc t ctx = Inr (r, ctx') \<and> ordered ctx'
    \<and> flying ctx = ys @ zs \<and> (flying ctx' = flying ctx \<or> flying ctx' = ys @ t # zs)
    \<and> (r = 0 \<longrightarrow> t \<in> set (flying ctx')) \<and> (sub_rc \<noteq> 0 \<longrightarrow> flying ctx' = flying ctx)"
proof -
  let ?it = "it\<lparr>i_transferred := 0, timed_out := False\<rparr>"
  obtain r1 it1 where c: "calculate_timeout clock ?it = (r1, it1)" by fastforce
  let ?ctx1 = "ctx\<lparr>itransfers := (itransfers ctx)(t \<mapsto> it1)\<rparr>"
  have o1: "ordered ?ctx1" using assms by (auto simp: ordered_def sorted_other)
  show ?thesis
  proof (cases "r1 < 0")
    case True
    then have "libusb_submit_transfer clock sub_rc t ctx = Inr (rc LIBUSB_ERROR_OTHER, ?ctx1)"
      using assms(2) c by (simp add: libusb_submit_transfer_def)
    then show ?thesis using o1
      by (intro exI [of _ "rc LIBUSB_ERROR_OTHER"] exI [of _ ?ctx1] exI [of _ "[]"] exI [of _ "flying ctx"]) simp
  next
    case False
    from add_to_flying_sorted [OF o1, of t it1] assms(3) obtain ys zs f where
      add: "add_to_flying_list t it1 ?ctx1 = Inr (f, ?ctx1\<lparr>flying := ys @ t # zs\<rparr>)"
      and fl: "flying ctx = ys @ zs" and o2: "ordered (?ctx1\<lparr>flying := ys @ t # zs\<rparr>)" by auto
    let ?ctx2 = "?ctx1\<lparr>flying := ys @ t # zs\<rparr>"
    have rem: "remove1 t (ys @ t # zs) = ys @ zs" using assms(3) fl by (simp add: remove1_append)
    show ?thesis
    proof (cases "sub_rc = 0")
      case True
      have "ordered (?ctx2\<lparr>armed := a\<rparr>)" for a using o2 by (simp add: ordered_def)
      then show ?thesis using True False assms(2) c add fl o2
        by (auto simp: libusb_submit_transfer_def)
    next
      case sub: False
      have "ordered (?ctx2\<lparr>flying := ys @ zs\<rparr>)" using o1 fl by (simp add: ordered_def)
      then show ?thesis using sub False assms(2) c add fl rem
        by (auto simp: libusb_submit_transfer_def)
    qed
  qed
qed

section \<open>Timeouts are handled exactly\<close>

definition expired :: "timeval \<Rightarrow> itransfer \<Rightarrow> bool" where
  "expired now it \<longleftrightarrow> timerisset (deadline it) \<and> \<not> later (deadline it) now"

text \<open>Behind a transfer that has not expired there is none that has.\<close>

lemma before_expired: "before its a b \<Longrightarrow> expired now (the (its b)) \<Longrightarrow> expired now (the (its a))"
  by (auto simp: before_def expired_def Let_def later_def)

lemma expire_loop_run:
  "sorted_wrt (before (itransfers ctx)) ts \<Longrightarrow> distinct ts \<Longrightarrow> set ts \<subseteq> dom (itransfers ctx) \<Longrightarrow>
     \<exists>ctx'. expire_loop cancel_rc now ts ctx = Inr ctx'
       \<and> itransfers ctx' = (\<lambda>t. if t \<in> set ts \<and> expired now (the (itransfers ctx t))
            then Some ((the (itransfers ctx t))\<lparr>timed_out := True\<rparr>) else itransfers ctx t)
       \<and> cancelled ctx' = cancelled ctx @ filter (\<lambda>t. expired now (the (itransfers ctx t))
            \<and> \<not> timed_out (the (itransfers ctx t))) ts
       \<and> flying ctx' = flying ctx"
proof (induction ts arbitrary: ctx)
  case (Cons t ts)
  let ?its = "itransfers ctx"
  from Cons.prems(3) obtain it where it: "?its t = Some it" by auto
  have none: ?case if "\<not> expired now it" "expire_loop cancel_rc now (t # ts) ctx = Inr ctx"
  proof -
    have "\<not> expired now (the (?its x))" if "x \<in> set (t # ts)" for x
      using that Cons.prems(1) before_expired [of ?its t x now] \<open>\<not> expired now it\<close> it by auto
    then show ?thesis using that(2) by (auto simp: fun_eq_iff)
  qed
  consider "\<not> timerisset (deadline it)" | "timerisset (deadline it)" "timed_out it"
    | "timerisset (deadline it)" "\<not> timed_out it" "later (deadline it) now"
    | "\<not> timed_out it" "expired now it"
    by (auto simp: expired_def)
  then show ?case
  proof cases
    case 1
    then show ?thesis using it by (intro none) (simp_all add: expired_def)
  next
    case 2
    have "?its t = Some (it\<lparr>timed_out := True\<rparr>)" using it 2 by (cases it) simp
    with Cons.IH [of ctx] Cons.prems it 2 show ?thesis by (auto simp: fun_eq_iff)
  next
    case 3
    then show ?thesis using it by (intro none) (simp_all add: expired_def)
  next
    case 4
    let ?c = "ctx\<lparr>itransfers := ?its(t \<mapsto> it\<lparr>timed_out := True\<rparr>), cancelled := cancelled ctx @ [t]\<rparr>"
    have t: "t \<notin> set ts" using Cons.prems(2) by simp
    have "sorted_wrt (before (itransfers ?c)) ts" using Cons.prems(1) t by (simp add: sorted_other)
    moreover have "distinct ts" "set ts \<subseteq> dom (itransfers ?c)" using Cons.prems by auto
    ultimately obtain ctx' where c':
      "expire_loop cancel_rc now ts ?c = Inr ctx'"
      "itransfers ctx' = (\<lambda>x. if x \<in> set ts \<and> expired now (the (itransfers ?c x))
          then Some ((the (itransfers ?c x))\<lparr>timed_out := True\<rparr>) else itransfers ?c x)"
      "cancelled ctx' = cancelled ?c @ filter (\<lambda>x. expired now (the (itransfers ?c x))
          \<and> \<not> timed_out (the (itransfers ?c x))) ts"
      "flying ctx' = flying ?c" using Cons.IH [of ?c] by blast
    have same: "filter (\<lambda>x. expired now (the (itransfers ?c x)) \<and> \<not> timed_out (the (itransfers ?c x))) ts
        = filter (\<lambda>x. expired now (the (?its x)) \<and> \<not> timed_out (the (?its x))) ts"
      using t by (intro filter_cong) auto
    have "expire_loop cancel_rc now (t # ts) ctx = Inr ctx'"
      using it 4 c'(1) by (simp add: expired_def handle_timeout_def libusb_cancel_transfer_def)
    moreover have "itransfers ctx' = (\<lambda>x. if x \<in> set (t # ts) \<and> expired now (the (?its x))
          then Some ((the (?its x))\<lparr>timed_out := True\<rparr>) else ?its x)"
      using c'(2) t 4 it by (auto simp: fun_eq_iff)
    ultimately show ?thesis using c'(3,4) same it 4 by auto
  qed
qed simp

text \<open>C23: exactly the expired transfers time out. On a sorted list, handling the timeouts at a time
  \<open>now\<close> marks and cancels those transfers in flight whose deadline has passed and that were not
  marked before, each once and in the order of the list, and leaves all others as they are; nothing
  is removed from the list yet.\<close>

theorem timeouts_exact:
  assumes "ordered ctx" "0 \<le> r" "flying ctx \<noteq> []"
  shows "\<exists>ctx'. handle_timeouts cancel_rc (r, now) ctx = Inr (0, ctx')
    \<and> itransfers ctx' = (\<lambda>t. if t \<in> set (flying ctx) \<and> expired (timeval_of now) (the (itransfers ctx t))
         then Some ((the (itransfers ctx t))\<lparr>timed_out := True\<rparr>) else itransfers ctx t)
    \<and> cancelled ctx' = cancelled ctx @ filter (\<lambda>t. expired (timeval_of now) (the (itransfers ctx t))
         \<and> \<not> timed_out (the (itransfers ctx t))) (flying ctx)
    \<and> flying ctx' = flying ctx"
  using expire_loop_run [of ctx "flying ctx" cancel_rc "timeval_of now"] assms
  by (auto simp: ordered_def handle_timeouts_def)

section \<open>Disconnection completes everything\<close>

definition timer_broken :: "usb_context \<Rightarrow> bool" where
  "timer_broken ctx \<longleftrightarrow> timerfd_built ctx \<and> \<not> settime_ok ctx"

lemma arm_loop_run:
  "set ts \<subseteq> dom (itransfers ctx) \<Longrightarrow> \<exists>r a. arm_loop ts ctx = Inr (r, ctx\<lparr>armed := a\<rparr>)
     \<and> (settime_ok ctx \<longrightarrow> 0 \<le> r) \<and> (\<not> settime_ok ctx \<longrightarrow> r \<le> 0)"
proof (induction ts)
  case Nil
  show ?case by (intro exI [of _ 0] exI [of _ "armed ctx"]) simp
next
  case (Cons t ts)
  then obtain it where it: "itransfers ctx t = Some it" by auto
  have "ctx = ctx\<lparr>armed := armed ctx\<rparr>" by simp
  with Cons it show ?case by (auto simp del: armed_same)
qed


lemma disarm_run:
  "\<exists>r a. disarm_timerfd ctx = (r, ctx\<lparr>armed := a\<rparr>) \<and> (r < 0 \<longleftrightarrow> timer_broken ctx)"
  by (auto simp: disarm_timerfd_def timer_broken_def intro!: armed_same)

text \<open>A completion removes the transfer; the user is told unless timer descriptors are compiled in and
  this context's cannot be set.\<close>

lemma completion_run:
  assumes "itransfers ctx t = Some it" "set (flying ctx) \<subseteq> dom (itransfers ctx)"
  shows "\<exists>r a. usbi_handle_transfer_completion t st ctx
    = Inr (r, (if timer_broken ctx then \<lambda>c. c else complete_user t it st)
        (ctx\<lparr>flying := remove1 t (flying ctx), armed := a\<rparr>))"
proof -
  let ?c = "ctx\<lparr>flying := remove1 t (flying ctx)\<rparr>"
  have sub: "set (flying ?c) \<subseteq> dom (itransfers ?c)" using assms(2) set_remove1_subset by fastforce
  show ?thesis
  proof (cases "timerfd_built ctx")
    case False
    then show ?thesis using assms(1)
      by (intro exI [of _ 0] exI [of _ "armed ctx"])
        (simp add: usbi_handle_transfer_completion_def arm_timerfd_for_next_timeout_def
          disarm_timerfd_def timer_broken_def)
  next
    case True
    from arm_loop_run [OF sub] obtain r a where
      arm: "arm_loop (flying ?c) ?c = Inr (r, ?c\<lparr>armed := a\<rparr>)"
      and r: "settime_ok ctx \<longrightarrow> 0 \<le> r" "\<not> settime_ok ctx \<longrightarrow> r \<le> 0"
      by (auto simp: settime_ok_def)
    from disarm_run [of "?c\<lparr>armed := a\<rparr>"] obtain r2 a2 where
      dis: "disarm_timerfd (?c\<lparr>armed := a\<rparr>) = (r2, ?c\<lparr>armed := a2\<rparr>)" "r2 < 0 \<longleftrightarrow> timer_broken ctx"
      by (auto simp: timer_broken_def settime_ok_def)
    show ?thesis
    proof (cases "r = 0")
      case True
      then show ?thesis using assms(1) arm dis \<open>timerfd_built ctx\<close>
        by (auto simp: usbi_handle_transfer_completion_def arm_timerfd_for_next_timeout_def
          complete_user_def Let_def)
    next
      case False
      then have "r < 0 \<longleftrightarrow> timer_broken ctx" using r \<open>timerfd_built ctx\<close> by (auto simp: timer_broken_def)
      then show ?thesis using False assms(1) arm \<open>timerfd_built ctx\<close>
        by (auto simp: usbi_handle_transfer_completion_def arm_timerfd_for_next_timeout_def
          complete_user_def Let_def)
    qed
  qed
qed

lemma sorted_upd: "t \<notin> set xs \<Longrightarrow> sorted_wrt (before (its(t := x))) xs = sorted_wrt (before its) xs"
  by (induction xs) (auto simp: before_def)

lemma completion_ordered:
  assumes "ordered ctx" "itransfers ctx t = Some it" "t \<in> set (flying ctx)"
  shows "\<exists>r ctx'. usbi_handle_transfer_completion t st ctx = Inr (r, ctx') \<and> ordered ctx'
    \<and> flying ctx' = remove1 t (flying ctx) \<and> timer_broken ctx' = timer_broken ctx
    \<and> (\<forall>x. x \<noteq> t \<longrightarrow> itransfers ctx' x = itransfers ctx x)
    \<and> callbacks ctx' = callbacks ctx
        @ (if timer_broken ctx then [] else [(t, reported_status it st, i_transferred it)])"
proof -
  let ?c = "\<lambda>a. ctx\<lparr>flying := remove1 t (flying ctx), armed := a\<rparr>"
  have d: "distinct (flying ctx)" "set (flying ctx) \<subseteq> dom (itransfers ctx)"
    "sorted_wrt (before (itransfers ctx)) (flying ctx)" using assms(1) by (auto simp: ordered_def)
  have s: "sorted_wrt (before (itransfers ctx)) (remove1 t (flying ctx))"
    using d(3) by (simp add: d(1) distinct_remove1_removeAll removeAll_filter_not_eq sorted_wrt_filter)
  have t: "t \<notin> set (remove1 t (flying ctx))" using d(1) by simp
  have o: "ordered (?c a)" "ordered (complete_user t it st (?c a))" for a
    using d s t by (auto simp: ordered_def complete_user_def Let_def sorted_upd)
  from completion_run [OF assms(2) d(2), of st] obtain r a where
    "usbi_handle_transfer_completion t st ctx
      = Inr (r, (if timer_broken ctx then \<lambda>c. c else complete_user t it st) (?c a))" by blast
  then show ?thesis using o [of a]
    by (cases "timer_broken ctx") (auto simp: complete_user_def Let_def timer_broken_def settime_ok_def)
qed

lemma find_SomeD:
  "find P xs = Some t \<Longrightarrow> \<exists>ys zs. xs = ys @ t # zs \<and> P t \<and> (\<forall>y\<in>set ys. \<not> P y)"
proof (induction xs)
  case (Cons x xs)
  show ?case
  proof (cases "P x")
    case True
    with Cons.prems show ?thesis by force
  next
    case False
    with Cons obtain ys zs where "xs = ys @ t # zs" "P t" "\<forall>y\<in>set ys. \<not> P y" by auto
    with False show ?thesis by (intro exI [of _ "x # ys"] exI [of _ zs]) simp
  qed
qed simp

lemma disconnect_loop_run:
  "ordered ctx \<Longrightarrow> \<exists>ctx'. disconnect_loop h ctx = Inr ctx' \<and> ordered ctx'
     \<and> flying ctx' = filter (\<lambda>t. \<not> flying_of h ctx t) (flying ctx)
     \<and> callbacks ctx' = callbacks ctx @ (if timer_broken ctx then []
         else map (\<lambda>t. (t, TRANSFER_NO_DEVICE, i_transferred (the (itransfers ctx t))))
           (filter (flying_of h ctx) (flying ctx)))"
proof (induction "length (flying ctx)" arbitrary: ctx rule: less_induct)
  case less
  have ok: "list_ex (\<lambda>t. itransfers ctx t = None) (takeWhile (\<lambda>t. \<not> flying_of h ctx t) (flying ctx)) = False"
    using less.prems by (auto simp: ordered_def list_ex_iff dest: set_takeWhileD)
  show ?case
  proof (cases "find (flying_of h ctx) (flying ctx)")
    case None
    then have "\<forall>t\<in>set (flying ctx). \<not> flying_of h ctx t" by (simp add: find_None_iff)
    then have "filter (\<lambda>t. \<not> flying_of h ctx t) (flying ctx) = flying ctx"
      "filter (flying_of h ctx) (flying ctx) = []" by simp_all
    then show ?thesis using None ok less.prems by (simp add: disconnect_loop.simps [of h ctx])
  next
    case (Some t)
    from find_SomeD [OF this] obtain ys zs where fl: "flying ctx = ys @ t # zs" and t: "flying_of h ctx t"
      and ys: "\<forall>y\<in>set ys. \<not> flying_of h ctx y"
      by blast
    from t obtain it where it: "itransfers ctx t = Some it" by (auto simp: flying_of_def split: option.splits)
    from completion_ordered [OF less.prems it, of TRANSFER_NO_DEVICE] fl obtain r ctx1 where
      c: "usbi_handle_transfer_completion t TRANSFER_NO_DEVICE ctx = Inr (r, ctx1)"
      and o1: "ordered ctx1" and f1: "flying ctx1 = remove1 t (flying ctx)"
      and b1: "timer_broken ctx1 = timer_broken ctx"
      and i1: "\<And>x. x \<noteq> t \<Longrightarrow> itransfers ctx1 x = itransfers ctx x"
      and cb: "callbacks ctx1 = callbacks ctx
        @ (if timer_broken ctx then [] else [(t, reported_status it TRANSFER_NO_DEVICE, i_transferred it)])"
      by auto
    have nt: "t \<notin> set ys" "t \<notin> set zs" using less.prems fl by (auto simp: ordered_def)
    have fl1: "flying ctx1 = ys @ zs" using f1 fl nt by (simp add: remove1_append)
    have same: "flying_of h ctx1 x = flying_of h ctx x" "itransfers ctx1 x = itransfers ctx x"
      if "x \<in> set (ys @ zs)" for x
    proof -
      have "x \<noteq> t" using that nt by auto
      then show "flying_of h ctx1 x = flying_of h ctx x" "itransfers ctx1 x = itransfers ctx x"
        by (simp_all add: flying_of_def i1)
    qed
    have filters: "filter (flying_of h ctx1) (ys @ zs) = filter (flying_of h ctx) (ys @ zs)"
      "filter (\<lambda>x. \<not> flying_of h ctx1 x) (ys @ zs) = filter (\<lambda>x. \<not> flying_of h ctx x) (ys @ zs)"
      by (rule filter_cong [OF refl], simp add: same(1))+
    have filt: "filter (flying_of h ctx) ys = []" using ys by simp
    have step: "disconnect_loop h ctx = disconnect_loop h ctx1"
      using Some ok c by (simp add: disconnect_loop.simps [of h ctx])
    have st: "reported_status it TRANSFER_NO_DEVICE = TRANSFER_NO_DEVICE" by (simp add: reported_status_def)
    from less.hyps [of ctx1] o1 fl fl1 obtain ctx' where IH: "disconnect_loop h ctx1 = Inr ctx'" "ordered ctx'"
      "flying ctx' = filter (\<lambda>x. \<not> flying_of h ctx1 x) (ys @ zs)"
      "callbacks ctx' = callbacks ctx1 @ (if timer_broken ctx then [] else map (\<lambda>x. (x, TRANSFER_NO_DEVICE,
          i_transferred (the (itransfers ctx1 x)))) (filter (flying_of h ctx1) (ys @ zs)))"
      by (auto simp: b1)
    have maps: "map (\<lambda>x. (x, TRANSFER_NO_DEVICE, i_transferred (the (itransfers ctx1 x)))) (filter (flying_of h ctx1) (ys @ zs))
        = map (\<lambda>x. (x, TRANSFER_NO_DEVICE, i_transferred (the (itransfers ctx x)))) (filter (flying_of h ctx) (ys @ zs))"
      unfolding filters using same(2) by (intro map_cong) auto
    show ?thesis using IH(1,2) IH(3) [unfolded filters] IH(4) [unfolded maps] step t it st cb fl filt
      by auto
  qed
qed

section \<open>A context with three transfers in flight\<close>

definition sample_transfer :: "addr \<Rightarrow> int \<Rightarrow> itransfer" where
  "sample_transfer h s = \<lparr>deadline = \<lparr>tv_sec = s, tv_usec = 0\<rparr>, timed_out = False, i_transferred = 4,
     user = zero_transfer\<lparr>dev_handle := h, xtimeout := 1500\<rparr>\<rparr>"

definition sample_context :: usb_context where
  "sample_context = \<lparr>flying = [1, 2, 3],
     itransfers = [1 \<mapsto> sample_transfer 7 5, 2 \<mapsto> sample_transfer 8 9, 3 \<mapsto> sample_transfer 7 0,
       4 \<mapsto> sample_transfer 7 0],
     timerfd_built = True, using_timerfd = True, timer_ok = True, armed = None, cancelled = [],
     callbacks = [], pollfds = [], pollfds_locked = False\<rparr>"

lemmas sample_defs = sample_context_def sample_transfer_def timerisset_def later_def before_def
  expired_def timer_broken_def settime_ok_def flying_of_def

lemma sample_ordered: "ordered sample_context"
  by (simp add: ordered_def sample_defs)

theorem submit_keeps_order_witness:
  "\<exists>r ctx' ys zs. libusb_submit_transfer (0, \<lparr>ts_sec = 6, ts_nsec = 600000000\<rparr>) 0 4 sample_context
      = Inr (r, ctx') \<and> ordered ctx' \<and> [1, 2, 3] = ys @ zs
    \<and> (flying ctx' = [1, 2, 3] \<or> flying ctx' = ys @ 4 # zs) \<and> (r = 0 \<longrightarrow> 4 \<in> set (flying ctx'))"
proof -
  have "flying sample_context = [1, 2, 3]" "4 \<notin> set (flying sample_context)"
    "itransfers sample_context 4 = Some (sample_transfer 7 0)" by (simp_all add: sample_context_def)
  with submit_keeps_order [OF sample_ordered, of 4 "sample_transfer 7 0"
      "(0, \<lparr>ts_sec = 6, ts_nsec = 600000000\<rparr>)" 0]
  show ?thesis by auto
qed

theorem timeouts_exact_witness:
  "\<exists>ctx'. handle_timeouts 0 (0, \<lparr>ts_sec = 6, ts_nsec = 0\<rparr>) sample_context = Inr (0, ctx')
     \<and> cancelled ctx' = [1] \<and> flying ctx' = [1, 2, 3]
     \<and> map (\<lambda>t. timed_out (the (itransfers ctx' t))) [1, 2, 3] = [True, False, False]"
proof -
  have ne: "flying sample_context \<noteq> []" by (simp add: sample_context_def)
  obtain ctx' where "handle_timeouts 0 (0, \<lparr>ts_sec = 6, ts_nsec = 0\<rparr>) sample_context = Inr (0, ctx')"
    "itransfers ctx' = (\<lambda>t. if t \<in> set (flying sample_context) \<and> expired (timeval_of \<lparr>ts_sec = 6, ts_nsec = 0\<rparr>)
          (the (itransfers sample_context t))
        then Some ((the (itransfers sample_context t))\<lparr>timed_out := True\<rparr>) else itransfers sample_context t)"
    "cancelled ctx' = cancelled sample_context @ filter (\<lambda>t. expired (timeval_of \<lparr>ts_sec = 6, ts_nsec = 0\<rparr>)
        (the (itransfers sample_context t)) \<and> \<not> timed_out (the (itransfers sample_context t))) (flying sample_context)"
    "flying ctx' = flying sample_context"
    using timeouts_exact [OF sample_ordered order_refl ne, of 0 "\<lparr>ts_sec = 6, ts_nsec = 0\<rparr>"] by blast
  then show ?thesis by (simp add: sample_defs timeval_of_def)
qed

section \<open>Corner cases of the deadlines\<close>

text \<open>A transfer that is submitted again without a timeout keeps the deadline of its last submission.\<close>

lemma stale_deadline:
  "xtimeout (user it) = 0 \<Longrightarrow> calculate_timeout clock it = (0, it)"
  by (simp add: calculate_timeout_def)

text \<open>A clock and a timeout that add up to a full second are not carried over: \<open>tv_usec\<close> becomes
  1000000, which is no valid time.\<close>

lemma full_second_not_carried:
  assumes "uint (xtimeout (user it)) = 500" "0 \<le> r"
  shows "calculate_timeout (r, \<lparr>ts_sec = s, ts_nsec = 500000000\<rparr>) it
    = (0, it\<lparr>deadline := \<lparr>tv_sec = s, tv_usec = 1000000\<rparr>\<rparr>)"
  using assms by (simp add: calculate_timeout_def timeval_of_def)

text \<open>When the timer cannot be set the submission is reported as failed, although the transfer has been
  submitted and is in flight.\<close>

lemma timer_failure_reported:
  "\<exists>ctx'. libusb_submit_transfer (0, \<lparr>ts_sec = 3, ts_nsec = 0\<rparr>) 0 4 (sample_context\<lparr>timer_ok := False\<rparr>)
     = Inr (rc LIBUSB_ERROR_OTHER, ctx') \<and> flying ctx' = [4, 1, 2, 3]"
  by (simp add: sample_defs libusb_submit_transfer_def calculate_timeout_def timeval_of_def
      add_to_flying_list_def zero_transfer_def)

end
