(* ===== verification/Usbfs.thy ===== *)
theory Usbfs
  imports Transfers "HOL-Library.Signed_Division"
begin

text \<open>
  The Linux backend of libusb (\<open>os/linux_usbfs.c\<close>): how a bulk or control transfer becomes requests to
  the kernel (URBs), and how the requests the kernel gives back are put together again. What the kernel
  answers to a request is a parameter. It writes the bytes of a request into the buffer when the
  request is reaped, and a request is known to it by its address, that is, the block it lies in and
  its place there; reaping a request whose block has been freed is a use after free.
\<close>

section \<open>Requests\<close>

definition MAX_BULK_BUFFER_LENGTH :: int where "MAX_BULK_BUFFER_LENGTH = 16384"
definition MAX_CTRL_BUFFER_LENGTH :: int where "MAX_CTRL_BUFFER_LENGTH = 4096"

definition URB_SHORT_NOT_OK :: u32 where "URB_SHORT_NOT_OK = 1"
definition URB_BULK_CONTINUATION :: u32 where "URB_BULK_CONTINUATION = 4"

definition URB_TYPE_INTERRUPT :: u8 where "URB_TYPE_INTERRUPT = 1"
definition URB_TYPE_CONTROL :: u8 where "URB_TYPE_CONTROL = 2"
definition URB_TYPE_BULK :: u8 where "URB_TYPE_BULK = 3"

text \<open>The errors a request may end with, as the kernel reports them in its status (negated).\<close>

definition EPIPE :: int where "EPIPE = 32"
definition ETIME :: int where "ETIME = 62"
definition EPROTO :: int where "EPROTO = 71"
definition EOVERFLOW :: int where "EOVERFLOW = 75"
definition EILSEQ :: int where "EILSEQ = 84"
definition EREMOTEIO :: int where "EREMOTEIO = 121"

lemmas errno_defs = EPIPE_def ETIME_def EPROTO_def EOVERFLOW_def EILSEQ_def EREMOTEIO_def

text \<open>A request; its buffer is an offset into the buffer of the transfer. The zeroed request is what
  \<open>memset\<close> leaves.\<close>

record usbfs_urb =
  u_type :: u8
  u_endpoint :: u8
  u_status :: int
  u_flags :: u32
  u_buffer :: nat
  buffer_length :: int
  u_actual :: int

definition zero_urb :: usbfs_urb where
  "zero_urb = \<lparr>u_type = 0, u_endpoint = 0, u_status = 0, u_flags = 0, u_buffer = 0,
     buffer_length = 0, u_actual = 0\<rparr>"

datatype reap_action = NORMAL | SUBMIT_FAILED | CANCELLED | COMPLETED_EARLY

text \<open>The private data of a transfer: its block of requests, by the number of the block.\<close>

record transfer_priv =
  urbs :: "(nat \<times> usbfs_urb list) option"
  reap_action :: reap_action
  num_urbs :: int
  num_retired :: int

text \<open>
  The state: the context of \<open>Transfers\<close>, the private data of each transfer, the number of the next
  block, the requests the kernel has, as transfer, block and place, and those it was asked to discard.
\<close>

record usbfs =
  uctx :: usb_context
  privs :: "addr \<rightharpoonup> transfer_priv"
  next_block :: nat
  pending :: "(addr \<times> nat \<times> nat) list"
  discards :: "(addr \<times> nat \<times> nat) list"

definition set_priv :: "addr \<Rightarrow> transfer_priv \<Rightarrow> usbfs \<Rightarrow> usbfs" where
  "set_priv t p s = s\<lparr>privs := (privs s)(t \<mapsto> p)\<rparr>"

text \<open>What the kernel answers to the submission of a request.\<close>

datatype submit_answer = Accepted | No_Device | Refused

fun submit_error :: "submit_answer \<Rightarrow> int" where
  "submit_error No_Device = rc LIBUSB_ERROR_NO_DEVICE"
| "submit_error _ = rc LIBUSB_ERROR_IO"

section \<open>Submission\<close>

text \<open>The number of requests a bulk transfer is split into, and the \<open>i\<close>-th of them. \<open>cont\<close> is
  \<open>supports_flag_bulk_continuation\<close>.\<close>

definition urbs_needed :: "int \<Rightarrow> int" where
  "urbs_needed len =
     (if len = 0 then 1
      else (len sdiv MAX_BULK_BUFFER_LENGTH) + (if len smod MAX_BULK_BUFFER_LENGTH > 0 then 1 else 0))"

definition bulk_urb :: "int \<Rightarrow> u8 \<Rightarrow> libusb_transfer \<Rightarrow> nat \<Rightarrow> usbfs_urb" where
  "bulk_urb cont ty u i =
     (let len = length_x u;
          is_out = (xendpoint u AND ENDPOINT_DIR_MASK = ENDPOINT_OUT);
          partial = (len smod MAX_BULK_BUFFER_LENGTH > 0)
      in zero_urb\<lparr>u_type := ty, u_endpoint := xendpoint u,
           u_buffer := i * nat MAX_BULK_BUFFER_LENGTH,
           u_flags := (if cont \<noteq> 0 \<and> \<not> is_out then URB_SHORT_NOT_OK else 0)
             OR (if i > 0 \<and> cont \<noteq> 0 then URB_BULK_CONTINUATION else 0),
           buffer_length := (if int i = urbs_needed len - 1 \<and> partial then len smod MAX_BULK_BUFFER_LENGTH
             else if len = 0 then 0 else MAX_BULK_BUFFER_LENGTH)\<rparr>)"

text \<open>The loop that submits the requests in order. If one is refused, the first ends the submission;
  behind another the ones before are discarded and the rest counts as retired, and the submission
  is reported as a success.\<close>

fun submit_loop ::
    "(nat \<Rightarrow> submit_answer) \<Rightarrow> (nat \<Rightarrow> usbfs_urb) \<Rightarrow> addr \<Rightarrow> nat \<Rightarrow> nat list \<Rightarrow> transfer_priv \<Rightarrow> usbfs
     \<Rightarrow> int \<times> usbfs" where
  "submit_loop answer mk t b [] p s = (0, set_priv t p s)"
| "submit_loop answer mk t b (i # is) p s =
     (let us = (case urbs p of None \<Rightarrow> [] | Some (_, us) \<Rightarrow> us);
          p1 = p\<lparr>urbs := Some (b, us[i := mk i])\<rparr>
      in if answer i = Accepted
         then submit_loop answer mk t b is p1 (s\<lparr>pending := pending s @ [(t, b, i)]\<rparr>)
         else if i = 0 then (submit_error (answer i), set_priv t (p1\<lparr>urbs := None\<rparr>) s)
         else (0, set_priv t (p1\<lparr>reap_action := SUBMIT_FAILED,
                                num_retired := num_retired p1 + (num_urbs p1 - int i)\<rparr>)
                   (s\<lparr>discards := discards s @ map (\<lambda>j. (t, b, j)) [0..<i]\<rparr>)))"

definition submit_bulk_transfer ::
    "int \<Rightarrow> bool \<Rightarrow> (nat \<Rightarrow> submit_answer) \<Rightarrow> addr \<Rightarrow> u8 \<Rightarrow> usbfs \<Rightarrow> fault + int \<times> usbfs" where
  "submit_bulk_transfer cont granted answer t ty s =
     bindF (deref (itransfers (uctx s)) (Some t)) (\<lambda>(_, it).
     bindF (deref (privs s) (Some t)) (\<lambda>(_, p).
       if urbs p \<noteq> None then Inr (rc LIBUSB_ERROR_BUSY, s)
       else let n = urbs_needed (length_x (user it))
            in if \<not> granted \<or> n < 0 then Inr (rc LIBUSB_ERROR_NO_MEM, s)
               else let b = next_block s
                    in Inr (submit_loop answer (bulk_urb cont ty (user it)) t b [0..<nat n]
                         (p\<lparr>urbs := Some (b, replicate (nat n) zero_urb), num_urbs := n, num_retired := 0,
                            reap_action := NORMAL\<rparr>)
                         (s\<lparr>next_block := Suc b\<rparr>))))"

definition submit_control_transfer ::
    "bool \<Rightarrow> submit_answer \<Rightarrow> addr \<Rightarrow> usbfs \<Rightarrow> fault + int \<times> usbfs" where
  "submit_control_transfer granted answer t s =
     bindF (deref (itransfers (uctx s)) (Some t)) (\<lambda>(_, it).
     bindF (deref (privs s) (Some t)) (\<lambda>(_, p).
       let u = user it
       in if urbs p \<noteq> None then Inr (rc LIBUSB_ERROR_BUSY, s)
          else if length_x u - CONTROL_SETUP_SIZE > MAX_CTRL_BUFFER_LENGTH
          then Inr (rc LIBUSB_ERROR_INVALID_PARAM, s)
          else if \<not> granted then Inr (rc LIBUSB_ERROR_NO_MEM, s)
          else let b = next_block s;
                   urb = zero_urb\<lparr>u_type := URB_TYPE_CONTROL, u_endpoint := xendpoint u,
                                  u_buffer := 0, buffer_length := length_x u\<rparr>;
                   p1 = p\<lparr>urbs := Some (b, [urb]), reap_action := NORMAL\<rparr>;
                   s1 = s\<lparr>next_block := Suc b\<rparr>
               in if answer = Accepted
                  then Inr (0, set_priv t p1 (s1\<lparr>pending := pending s1 @ [(t, b, 0)]\<rparr>))
                  else Inr (submit_error answer, set_priv t (p1\<lparr>urbs := None\<rparr>) s1)))"

section \<open>Cancelling\<close>

text \<open>A discard may be answered with \<open>EINVAL\<close>, if the request is already done, or another error:
  \<open>discard\<close> is the answer, and whether \<open>errno\<close> is \<open>EINVAL\<close>.\<close>

definition cancel_control_transfer :: "int \<times> bool \<Rightarrow> addr \<Rightarrow> usbfs \<Rightarrow> fault + int \<times> usbfs" where
  "cancel_control_transfer discard t s =
     bindF (deref (privs s) (Some t)) (\<lambda>(_, p). case urbs p of
         None \<Rightarrow> Inr (rc LIBUSB_ERROR_NOT_FOUND, s)
       | Some (b, us) \<Rightarrow>
           let s1 = set_priv t (p\<lparr>reap_action := CANCELLED\<rparr>) (s\<lparr>discards := discards s @ [(t, b, 0)]\<rparr>)
           in case discard of (r, einval) \<Rightarrow>
              if r \<noteq> 0 \<and> \<not> einval then Inr (rc LIBUSB_ERROR_OTHER, s1) else Inr (0, s1))"

definition cancel_bulk_transfer :: "addr \<Rightarrow> usbfs \<Rightarrow> fault + int \<times> usbfs" where
  "cancel_bulk_transfer t s =
     bindF (deref (privs s) (Some t)) (\<lambda>(_, p). case urbs p of
         None \<Rightarrow> Inr (rc LIBUSB_ERROR_NOT_FOUND, s)
       | Some (b, us) \<Rightarrow>
           Inr (0, set_priv t (p\<lparr>reap_action := CANCELLED\<rparr>)
                     (s\<lparr>discards := discards s @ map (\<lambda>i. (t, b, i)) [0..<nat (num_urbs p)]\<rparr>)))"


section \<open>Reaping\<close>

text \<open>What the kernel reports of a request: its status, the bytes it moved and, for input, the bytes
  themselves, which it writes into the buffer of the request.\<close>

record reaped =
  r_status :: int
  r_actual :: int
  r_data :: "u8 list"

text \<open>Writing bytes at an offset of a buffer, and moving bytes within it.\<close>

definition store_at :: "nat \<Rightarrow> u8 list \<Rightarrow> u8 list \<Rightarrow> fault + u8 list" where
  "store_at off bs buf =
     (if off + length bs \<le> length buf then Inr (take off buf @ bs @ drop (off + length bs) buf)
      else Inl OutOfBounds)"

definition memmove :: "nat \<Rightarrow> nat \<Rightarrow> nat \<Rightarrow> u8 list \<Rightarrow> fault + u8 list" where
  "memmove target source n buf =
     (if source + n \<le> length buf then store_at target (take n (drop source buf)) buf
      else Inl OutOfBounds)"

definition set_buffer :: "itransfer \<Rightarrow> u8 list \<Rightarrow> itransfer" where
  "set_buffer it buf = it\<lparr>user := (user it)\<lparr>buffer := buf\<rparr>\<rparr>"

definition put_itransfer :: "addr \<Rightarrow> itransfer \<Rightarrow> usbfs \<Rightarrow> usbfs" where
  "put_itransfer t it s = s\<lparr>uctx := (uctx s)\<lparr>itransfers := (itransfers (uctx s))(t \<mapsto> it)\<rparr>\<rparr>"

text \<open>The private data lies in the block of the transfer: it is gone when the transfer is freed.\<close>

definition lift_ctx :: "usbfs \<Rightarrow> fault + int \<times> usb_context \<Rightarrow> fault + int \<times> usbfs" where
  "lift_ctx s m = bindF m (\<lambda>(r, ctx).
     Inr (r, s\<lparr>uctx := ctx, privs := (\<lambda>t. if itransfers ctx t = None then None else privs s t)\<rparr>))"

text \<open>Surplus data of a transfer that is ending is moved up behind the data received before.\<close>

definition take_surplus :: "itransfer \<Rightarrow> usbfs_urb \<Rightarrow> fault + itransfer" where
  "take_surplus it u =
     (if u_actual u > 0
      then bindF (if int (u_buffer u) \<noteq> i_transferred it
                  then memmove (nat (i_transferred it)) (u_buffer u) (nat (u_actual u)) (buffer (user it))
                  else Inr (buffer (user it))) (\<lambda>buf.
             Inr ((set_buffer it buf)\<lparr>i_transferred := i_transferred it + u_actual u\<rparr>))
      else Inr it)"

text \<open>What a status means for a transfer that is not yet ending: \<open>None\<close> goes on.\<close>

definition status_of_urb :: "int \<Rightarrow> transfer_status option" where
  "status_of_urb st =
     (if st = 0 \<or> st = - EREMOTEIO then None
      else if st = - EPIPE then Some TRANSFER_STALL
      else if st = - EOVERFLOW then Some TRANSFER_OVERFLOW
      else Some TRANSFER_ERROR)"

definition complete_bulk :: "addr \<Rightarrow> transfer_status \<Rightarrow> transfer_priv \<Rightarrow> usbfs \<Rightarrow> fault + int \<times> usbfs" where
  "complete_bulk t st p s =
     lift_ctx (set_priv t (p\<lparr>urbs := None\<rparr>) s) (usbi_handle_transfer_completion t st (uctx s))"

definition reap_abnormal ::
    "addr \<Rightarrow> itransfer \<Rightarrow> usbfs_urb \<Rightarrow> transfer_priv \<Rightarrow> usbfs \<Rightarrow> fault + int \<times> usbfs" where
  "reap_abnormal t it u p s =
     bindF (take_surplus it u) (\<lambda>it1.
       let s1 = put_itransfer t it1 s
       in if num_retired p = num_urbs p
          then if reap_action p = CANCELLED
               then lift_ctx (set_priv t (p\<lparr>urbs := None\<rparr>) s1)
                      (usbi_handle_transfer_cancellation t (uctx s1))
               else complete_bulk t (if reap_action p = COMPLETED_EARLY then TRANSFER_COMPLETED
                                     else TRANSFER_ERROR) p s1
          else Inr (0, set_priv t p s1))"

definition reap_normal ::
    "addr \<Rightarrow> itransfer \<Rightarrow> nat \<Rightarrow> nat \<Rightarrow> usbfs_urb list \<Rightarrow> transfer_priv \<Rightarrow> usbfs \<Rightarrow> fault + int \<times> usbfs" where
  "reap_normal t it b i us p s =
     (let u = us ! i;
          it1 = (if u_status u = 0 \<or> u_status u = - EREMOTEIO \<or> u_status u = - EOVERFLOW \<and> u_actual u > 0
                 then it\<lparr>i_transferred := i_transferred it + u_actual u\<rparr> else it);
          s1 = put_itransfer t it1 s
      in case status_of_urb (u_status u) of
           Some st \<Rightarrow> complete_bulk t st p s1
         | None \<Rightarrow>
             if int i = num_urbs p - 1 then complete_bulk t TRANSFER_COMPLETED p s1
             else if u_actual u < buffer_length u
             then Inr (0, set_priv t (p\<lparr>reap_action := COMPLETED_EARLY\<rparr>)
                    (s1\<lparr>discards := discards s1 @ map (\<lambda>j. (t, b, j))
                       (filter (\<lambda>j. u_flags (us ! j) AND URB_BULK_CONTINUATION = 0)
                          [Suc i..<nat (num_urbs p)])\<rparr>))
             else Inr (0, set_priv t p s1))"

definition handle_bulk_completion ::
    "addr \<Rightarrow> nat \<Rightarrow> nat \<Rightarrow> usbfs_urb list \<Rightarrow> transfer_priv \<Rightarrow> usbfs \<Rightarrow> fault + int \<times> usbfs" where
  "handle_bulk_completion t b i us p s =
     bindF (deref (itransfers (uctx s)) (Some t)) (\<lambda>(_, it).
       let p1 = p\<lparr>num_retired := num_retired p + 1\<rparr>
       in if reap_action p \<noteq> NORMAL then reap_abnormal t it (us ! i) p1 s
          else reap_normal t it b i us p1 s)"

definition handle_control_completion ::
    "addr \<Rightarrow> usbfs_urb \<Rightarrow> transfer_priv \<Rightarrow> usbfs \<Rightarrow> fault + int \<times> usbfs" where
  "handle_control_completion t u p s =
     bindF (deref (itransfers (uctx s)) (Some t)) (\<lambda>(_, it).
       let it1 = (if u_status u = 0 then it\<lparr>i_transferred := i_transferred it + u_actual u\<rparr> else it);
           p1 = p\<lparr>urbs := None\<rparr>
       in if reap_action p = CANCELLED
          then let s1 = put_itransfer t it1 s
               in lift_ctx (set_priv t p1 s1) (usbi_handle_transfer_cancellation t (uctx s1))
          else let it2 = (if u_status u = 0 then it1\<lparr>i_transferred := u_actual u\<rparr> else it1);
                   st = (if u_status u = 0 then TRANSFER_COMPLETED
                         else if u_status u = - EPIPE then TRANSFER_STALL else TRANSFER_ERROR);
                   s1 = put_itransfer t it2 s
               in lift_ctx (set_priv t p1 s1) (usbi_handle_transfer_completion t st (uctx s1)))"

text \<open>The kernel gives a request back: it writes the status, the length and the data, wherever the
  request lies, and the transfer it belongs to is found through it.\<close>

definition reap_urb ::
    "addr \<times> nat \<times> nat \<Rightarrow> reaped \<Rightarrow> usbfs \<Rightarrow> fault + itransfer \<times> usbfs_urb list \<times> transfer_priv \<times> usbfs" where
  "reap_urb key a s = (case key of (t, b, i) \<Rightarrow>
     bindF (deref (privs s) (Some t)) (\<lambda>(_, p). case urbs p of
         None \<Rightarrow> Inl UseAfterFree
       | Some (b', us) \<Rightarrow>
           if b' \<noteq> b then Inl UseAfterFree
           else bindF (deref (itransfers (uctx s)) (Some t)) (\<lambda>(_, it).
             let us1 = us[i := (us ! i)\<lparr>u_status := r_status a, u_actual := r_actual a\<rparr>];
                 p1 = p\<lparr>urbs := Some (b, us1)\<rparr>
             in bindF (store_at (u_buffer (us ! i)) (r_data a) (buffer (user it))) (\<lambda>buf.
                  let it1 = set_buffer it buf
                  in Inr (it1, us1, p1, set_priv t p1 (put_itransfer t it1
                       (s\<lparr>pending := remove1 (t, b, i) (pending s)\<rparr>)))))))"


definition reap_bulk :: "addr \<times> nat \<times> nat \<Rightarrow> reaped \<Rightarrow> usbfs \<Rightarrow> fault + int \<times> usbfs" where
  "reap_bulk key a s = (case key of (t, b, i) \<Rightarrow>
     bindF (reap_urb key a s) (\<lambda>(it, us, p, s1). handle_bulk_completion t b i us p s1))"

section \<open>The requests cover the buffer\<close>

definition unit_length :: "int \<Rightarrow> nat \<Rightarrow> nat" where
  "unit_length len i = min 16384 (nat len - i * 16384)"

lemma sdiv_nonneg:
  "0 \<le> len \<Longrightarrow> len sdiv 16384 = len div 16384" "0 \<le> len \<Longrightarrow> len smod 16384 = len mod (16384 :: int)"
  by (cases "len = 0"; simp add: signed_divide_int_def smod_int_alt_def sgn_if)+

lemma urbs_needed_split:
  assumes "r < 16384"
  shows "urbs_needed (int (16384 * q + r)) = (if q = 0 \<and> r = 0 then 1 else int q + (if r > 0 then 1 else 0))"
    and "int (16384 * q + r) smod 16384 = int r"
proof -
  have d: "(16384 * q + r) div 16384 = q" "(16384 * q + r) mod 16384 = r" using assms by simp_all
  have "int (16384 * q + r) sdiv 16384 = int ((16384 * q + r) div 16384)"
    "int (16384 * q + r) smod 16384 = int ((16384 * q + r) mod 16384)"
    by (simp_all only: sdiv_nonneg of_nat_0_le_iff zdiv_int zmod_int of_nat_numeral)
  then have e: "int (16384 * q + r) sdiv 16384 = int q" "int (16384 * q + r) smod 16384 = int r"
    by (simp_all only: d)
  show "int (16384 * q + r) smod 16384 = int r" by (rule e)
  have "int (16384 * q + r) = 0 \<longleftrightarrow> q = 0 \<and> r = 0" by auto
  then show "urbs_needed (int (16384 * q + r)) = (if q = 0 \<and> r = 0 then 1 else int q + (if r > 0 then 1 else 0))"
    unfolding urbs_needed_def MAX_BULK_BUFFER_LENGTH_def e by simp
qed

lemma urbs_needed_pos [simp]: "0 < urbs_needed (int m)" "0 \<le> urbs_needed (int m)"
proof -
  have "m = 16384 * (m div 16384) + m mod 16384" "m mod 16384 < 16384" by simp_all
  then obtain q r where m: "m = 16384 * q + r" "r < 16384" by blast
  show "0 < urbs_needed (int m)" using urbs_needed_split(1) [OF m(2), of q, folded m(1)] by auto
  then show "0 \<le> urbs_needed (int m)" by simp
qed

lemma bulk_urb_unit:
  assumes len: "length_x u = int m" and i: "i < nat (urbs_needed (int m))"
  shows "buffer_length (bulk_urb cont ty u i) = int (unit_length (int m) i)"
    and "u_buffer (bulk_urb cont ty u i) = i * 16384"
proof -
  have "m = 16384 * (m div 16384) + m mod 16384" "m mod 16384 < 16384" by simp_all
  then obtain q r where m: "m = 16384 * q + r" "r < 16384" by blast
  note n = urbs_needed_split [OF m(2), of q, folded m(1)]
  show "buffer_length (bulk_urb cont ty u i) = int (unit_length (int m) i)"
    using i m(2) unfolding bulk_urb_def MAX_BULK_BUFFER_LENGTH_def len n unit_length_def Let_def
    by (auto simp: zero_urb_def m(1) split: if_splits)
  show "u_buffer (bulk_urb cont ty u i) = i * 16384"
    by (simp add: bulk_urb_def Let_def MAX_BULK_BUFFER_LENGTH_def)
qed

lemma submit_loop_accepted:
  assumes "urbs p = Some (b, us)" "length us = n" "k \<le> n"
  shows "submit_loop (\<lambda>_. Accepted) mk t b [k..<n] p s
    = (0, set_priv t (p\<lparr>urbs := Some (b, take k us @ map mk [k..<n])\<rparr>)
            (s\<lparr>pending := pending s @ map (\<lambda>i. (t, b, i)) [k..<n]\<rparr>))"
  using assms
proof (induction "n - k" arbitrary: k p us s)
  case 0
  then have "p\<lparr>urbs := Some (b, us)\<rparr> = p" by (cases p) simp
  then have "set_priv t (p\<lparr>urbs := Some (b, us)\<rparr>) s = set_priv t p s" by (simp only:)
  with 0 show ?case by simp
next
  case (Suc d)
  then have k: "k < n" by simp
  have tk: "take (Suc k) (us[k := mk k]) = take k us @ [mk k]"
    using k Suc.prems(2) by (simp add: take_Suc_conv_app_nth)
  let ?s = "s\<lparr>pending := pending s @ [(t, b, k)]\<rparr>"
  have "submit_loop (\<lambda>_. Accepted) mk t b [k..<n] p s
    = submit_loop (\<lambda>_. Accepted) mk t b [Suc k..<n] (p\<lparr>urbs := Some (b, us[k := mk k])\<rparr>) ?s"
    using k Suc.prems(1) by (simp add: upt_conv_Cons)
  also have "\<dots> = (0, set_priv t (p\<lparr>urbs := Some (b, us[k := mk k]),
       urbs := Some (b, take (Suc k) (us[k := mk k]) @ map mk [Suc k..<n])\<rparr>)
      (?s\<lparr>pending := pending ?s @ map (\<lambda>i. (t, b, i)) [Suc k..<n]\<rparr>))"
    using Suc.hyps(2) Suc.prems k by (intro Suc.hyps(1)) auto
  finally show ?case using k tk by (simp add: upt_conv_Cons)
qed

lemma submit_bulk_accepted:
  assumes "itransfers (uctx s) t = Some it" "privs s t = Some p" "urbs p = None"
    and "length_x (user it) = int m"
  shows "submit_bulk_transfer cont True (\<lambda>_. Accepted) t ty s
    = Inr (0, set_priv t (p\<lparr>num_urbs := urbs_needed (int m), num_retired := 0, reap_action := NORMAL,
                             urbs := Some (next_block s, map (bulk_urb cont ty (user it))
                               [0..<nat (urbs_needed (int m))])\<rparr>)
        (s\<lparr>next_block := Suc (next_block s),
           pending := pending s @ map (\<lambda>i. (t, next_block s, i)) [0..<nat (urbs_needed (int m))]\<rparr>))"
  using assms submit_loop_accepted [of "p\<lparr>urbs := Some (next_block s, replicate (nat (urbs_needed (int m))) zero_urb),
      num_urbs := urbs_needed (int m), num_retired := 0, reap_action := NORMAL\<rparr>" "next_block s"
      "replicate (nat (urbs_needed (int m))) zero_urb" "nat (urbs_needed (int m))" 0]
  by (simp add: submit_bulk_transfer_def Let_def urbs_needed_pos not_less)


section \<open>Reaping a transfer from end to end\<close>

text \<open>
  The requests of a transfer are reaped in their order. The first one that is not full ends the
  transfer early; until then each is reported as complete or short. What the ones behind it report
  is free: they may have moved some bytes as well.
\<close>

fun well_reaped :: "int \<Rightarrow> bool \<Rightarrow> nat \<Rightarrow> reaped list \<Rightarrow> bool" where
  "well_reaped len early i [] = True"
| "well_reaped len early i (c # cs) =
     (r_actual c = int (length (r_data c)) \<and> length (r_data c) \<le> unit_length len i
      \<and> (\<not> early \<longrightarrow> r_status c = 0 \<or> r_status c = - EREMOTEIO)
      \<and> well_reaped len (early \<or> length (r_data c) < unit_length len i) (Suc i) cs)"

fun reap_run :: "addr \<Rightarrow> nat \<Rightarrow> nat \<Rightarrow> reaped list \<Rightarrow> usbfs \<Rightarrow> fault + usbfs" where
  "reap_run t b i [] s = Inr s"
| "reap_run t b i (c # cs) s = bindF (reap_bulk (t, b, i) c s) (\<lambda>(r, s'). reap_run t b (Suc i) cs s')"

text \<open>A transfer with the given buffer and number of bytes received.\<close>

definition received_into :: "itransfer \<Rightarrow> u8 list \<Rightarrow> int \<Rightarrow> itransfer" where
  "received_into it buf n = it\<lparr>i_transferred := n, user := (user it)\<lparr>buffer := buf\<rparr>\<rparr>"

lemma received_into_simps [simp]:
  "set_buffer (received_into it buf n) buf' = received_into it buf' n"
  "(received_into it buf n)\<lparr>i_transferred := k\<rparr> = received_into it buf k"
  "i_transferred (received_into it buf n) = n"
  "user (received_into it buf n) = (user it)\<lparr>buffer := buf\<rparr>"
  by (simp_all add: received_into_def set_buffer_def)

definition filling ::
    "usb_context \<Rightarrow> addr \<Rightarrow> nat \<Rightarrow> itransfer \<Rightarrow> nat \<Rightarrow> bool \<Rightarrow> nat \<Rightarrow> u8 list \<Rightarrow> usbfs \<Rightarrow> bool" where
  "filling ctx t b it0 m early i dat s \<longleftrightarrow>
     (\<exists>buf p us. uctx s = ctx\<lparr>itransfers := (itransfers ctx)(t \<mapsto>
          received_into it0 buf (int (length dat)))\<rparr>
        \<and> m \<le> length buf \<and> take (length dat) buf = dat \<and> length dat \<le> i * 16384
        \<and> privs s t = Some p \<and> urbs p = Some (b, us) \<and> num_urbs p = urbs_needed (int m)
        \<and> length us = nat (urbs_needed (int m)) \<and> num_retired p = int i
        \<and> (\<forall>j<length us. u_buffer (us ! j) = j * 16384
             \<and> buffer_length (us ! j) = int (unit_length (int m) j))
        \<and> (if early then reap_action p = COMPLETED_EARLY
           else reap_action p = NORMAL \<and> length dat = i * 16384))"

lemma unit_bounds:
  "i < nat (urbs_needed (int m)) \<Longrightarrow> i * 16384 + unit_length (int m) i \<le> m"
  "Suc i < nat (urbs_needed (int m)) \<Longrightarrow> unit_length (int m) i = 16384"
proof -
  have "m = 16384 * (m div 16384) + m mod 16384" "m mod 16384 < 16384" by simp_all
  then obtain q r where m: "m = 16384 * q + r" "r < 16384" by blast
  note n = urbs_needed_split(1) [OF m(2), of q, folded m(1)]
  show "i < nat (urbs_needed (int m)) \<Longrightarrow> i * 16384 + unit_length (int m) i \<le> m"
    using m n by (auto simp: unit_length_def split: if_splits)
  show "Suc i < nat (urbs_needed (int m)) \<Longrightarrow> unit_length (int m) i = 16384"
    using m n by (auto simp: unit_length_def split: if_splits)
qed

lemma units_cover: "m \<le> nat (urbs_needed (int m)) * 16384"
proof -
  have "m = 16384 * (m div 16384) + m mod 16384" "m mod 16384 < 16384" by simp_all
  then obtain q r where m: "m = 16384 * q + r" "r < 16384" by blast
  show ?thesis using urbs_needed_split(1) [OF m(2), of q, folded m(1)] m by auto
qed

lemma store_at_ok: "off + length bs \<le> length buf \<Longrightarrow> store_at off bs buf = Inr (take off buf @ bs @ drop (off + length bs) buf)"
  by (simp add: store_at_def)

text \<open>Moving freshly written bytes up behind what is there.\<close>

lemma memmove_fresh:
  assumes "off + length bs \<le> length buf" "k \<le> off"
  shows "\<exists>buf'. memmove k off (length bs) (take off buf @ bs @ drop (off + length bs) buf) = Inr buf'
    \<and> length buf' = length buf \<and> take (k + length bs) buf' = take k buf @ bs"
proof -
  let ?buf = "take off buf @ bs @ drop (off + length bs) buf"
  have l: "length ?buf = length buf" using assms by simp
  have "take (length bs) (drop off ?buf) = bs" using assms by simp
  then have "memmove k off (length bs) ?buf = store_at k bs ?buf"
    using assms l by (simp add: memmove_def)
  also have "\<dots> = Inr (take k ?buf @ bs @ drop (k + length bs) ?buf)"
    using assms l by (intro store_at_ok) simp
  finally have "memmove k off (length bs) ?buf = Inr (take k ?buf @ bs @ drop (k + length bs) ?buf)" .
  moreover have "take k ?buf = take k buf" using assms by (simp add: min_def)
  ultimately show ?thesis using assms l by auto
qed

lemma nat_retired [simp]: "int i = urbs_needed (int m) - 1 \<longleftrightarrow> Suc i = nat (urbs_needed (int m))"
  "int i + 1 = urbs_needed (int m) \<longleftrightarrow> Suc i = nat (urbs_needed (int m))"
  using urbs_needed_pos [of m] by auto

text \<open>One request: the kernel's bytes are in the buffer, and behind the bytes received before.\<close>

lemma reap_urb_filling:
  assumes fill: "filling ctx t b it0 m early i dat s" and i: "i < nat (urbs_needed (int m))"
    and c: "r_actual c = int (length (r_data c))" "length (r_data c) \<le> unit_length (int m) i"
  shows "\<exists>buf p us it. reap_urb (t, b, i) c s = Inr (it, us, p, set_priv t p (put_itransfer t it
        (s\<lparr>pending := remove1 (t, b, i) (pending s)\<rparr>)))
    \<and> it = received_into it0 (take (i * 16384) buf @ r_data c @ drop (i * 16384 + length (r_data c)) buf)
           (int (length dat))
    \<and> i * 16384 + length (r_data c) \<le> length buf \<and> m \<le> length buf
    \<and> take (length dat) buf = dat \<and> length dat \<le> i * 16384
    \<and> uctx s = ctx\<lparr>itransfers := (itransfers ctx)(t \<mapsto> received_into it0 buf (int (length dat)))\<rparr>
    \<and> urbs p = Some (b, us) \<and> num_urbs p = urbs_needed (int m)
    \<and> length us = nat (urbs_needed (int m)) \<and> num_retired p = int i
    \<and> (\<forall>j<length us. u_buffer (us ! j) = j * 16384
         \<and> buffer_length (us ! j) = int (unit_length (int m) j))
    \<and> u_status (us ! i) = r_status c \<and> u_actual (us ! i) = r_actual c
    \<and> (if early then reap_action p = COMPLETED_EARLY
       else reap_action p = NORMAL \<and> length dat = i * 16384)"
proof -
  from fill obtain buf p us where
    f: "uctx s = ctx\<lparr>itransfers := (itransfers ctx)(t \<mapsto>
          received_into it0 buf (int (length dat)))\<rparr>"
      "m \<le> length buf" "take (length dat) buf = dat" "length dat \<le> i * 16384"
      "privs s t = Some p" "urbs p = Some (b, us)" "num_urbs p = urbs_needed (int m)"
      "length us = nat (urbs_needed (int m))" "num_retired p = int i"
      "\<forall>j<length us. u_buffer (us ! j) = j * 16384 \<and> buffer_length (us ! j) = int (unit_length (int m) j)"
      "if early then reap_action p = COMPLETED_EARLY else reap_action p = NORMAL \<and> length dat = i * 16384"
    unfolding filling_def by blast
  let ?us = "us[i := (us ! i)\<lparr>u_status := r_status c, u_actual := r_actual c\<rparr>]"
  let ?p = "p\<lparr>urbs := Some (b, ?us)\<rparr>"
  let ?buf = "take (i * 16384) buf @ r_data c @ drop (i * 16384 + length (r_data c)) buf"
  let ?it = "received_into it0 ?buf (int (length dat))"
  have len: "i * 16384 + length (r_data c) \<le> length buf" using unit_bounds(1) [OF i] c(2) f(2) by simp
  have "u_buffer (us ! i) = i * 16384" using f(8,10) i by simp
  then have "reap_urb (t, b, i) c s = Inr (?it, ?us, ?p, set_priv t ?p (put_itransfer t ?it
        (s\<lparr>pending := remove1 (t, b, i) (pending s)\<rparr>)))"
    using f(1,5,6) store_at_ok [OF len] by (simp add: reap_urb_def Let_def)
  moreover have "\<forall>j<length ?us. u_buffer (?us ! j) = j * 16384
      \<and> buffer_length (?us ! j) = int (unit_length (int m) j)"
  proof (intro allI impI)
    fix j assume "j < length ?us"
    then show "u_buffer (?us ! j) = j * 16384 \<and> buffer_length (?us ! j) = int (unit_length (int m) j)"
      using f(10) by (cases "j = i") simp_all
  qed
  ultimately show ?thesis using f len i
    by (intro exI [of _ buf] exI [of _ ?p] exI [of _ ?us] exI [of _ ?it]) simp
qed


lemma take_surplus_run:
  assumes "off + length bs \<le> length buf" "length dat \<le> off" "take (length dat) buf = dat"
    and "u_buffer u = off" "u_actual u = int (length bs)"
  shows "\<exists>buf'. take_surplus (received_into it0 (take off buf @ bs @ drop (off + length bs) buf)
        (int (length dat))) u = Inr (received_into it0 buf' (int (length (dat @ bs))))
      \<and> length buf' = length buf \<and> take (length (dat @ bs)) buf' = dat @ bs"
proof -
  let ?buf = "take off buf @ bs @ drop (off + length bs) buf"
  have l: "length ?buf = length buf" using assms(1) by simp
  have td: "take (length dat) ?buf = dat" using assms(1-3) by (simp add: min_def)
  consider "bs = []" | "bs \<noteq> []" "off = length dat" | "bs \<noteq> []" "off \<noteq> length dat" by blast
  then show ?thesis
  proof cases
    case 1
    then show ?thesis using assms td by (intro exI [of _ ?buf]) (simp add: take_surplus_def)
  next
    case 2
    then show ?thesis using assms l
      by (intro exI [of _ ?buf]) (simp add: take_surplus_def add.commute)
  next
    case 3
    from memmove_fresh [OF assms(1,2)] obtain buf' where b:
      "memmove (length dat) off (length bs) ?buf = Inr buf'" "length buf' = length buf"
      "take (length dat + length bs) buf' = dat @ bs" using assms(3) by auto
    then show ?thesis using 3 assms
      by (intro exI [of _ buf']) (simp add: take_surplus_def add.commute)
  qed
qed

lemma set_priv_simps [simp]:
  "uctx (set_priv t p s) = uctx s" "privs (set_priv t p s) = (privs s)(t \<mapsto> p)"
  "privs (put_itransfer t it s) = privs s"
  "uctx (put_itransfer t it s) = (uctx s)\<lparr>itransfers := (itransfers (uctx s))(t \<mapsto> it)\<rparr>"
  by (simp_all add: set_priv_def put_itransfer_def)

lemma fill_step:
  assumes fill: "filling ctx t b it0 m early i dat s" and i: "i < nat (urbs_needed (int m))"
    and c: "r_actual c = int (length (r_data c))" "length (r_data c) \<le> unit_length (int m) i"
    and clean: "early \<or> r_status c = 0 \<or> r_status c = - EREMOTEIO"
  obtains (more) s' where "Suc i < nat (urbs_needed (int m))" "reap_bulk (t, b, i) c s = Inr (0, s')"
      "filling ctx t b it0 m (early \<or> length (r_data c) < unit_length (int m) i) (Suc i) (dat @ r_data c) s'"
    | (last) p' s' buf where "Suc i = nat (urbs_needed (int m))"
      "reap_bulk (t, b, i) c s = complete_bulk t TRANSFER_COMPLETED p' s'"
      "uctx s' = ctx\<lparr>itransfers := (itransfers ctx)(t \<mapsto>
          received_into it0 buf (int (length (dat @ r_data c))))\<rparr>"
      "take (length (dat @ r_data c)) buf = dat @ r_data c" "privs s' t \<noteq> None"
proof -
  let ?off = "i * 16384" and ?new = "dat @ r_data c"
  from reap_urb_filling [OF fill i c] obtain buf p us it where
    r: "reap_urb (t, b, i) c s = Inr (it, us, p, set_priv t p (put_itransfer t it
        (s\<lparr>pending := remove1 (t, b, i) (pending s)\<rparr>)))"
    and it: "it = received_into it0 (take ?off buf @ r_data c @ drop (?off + length (r_data c)) buf)
           (int (length dat))"
    and buf: "?off + length (r_data c) \<le> length buf" "m \<le> length buf" "take (length dat) buf = dat"
      "length dat \<le> ?off"
    and ctx: "uctx s = ctx\<lparr>itransfers := (itransfers ctx)(t \<mapsto> received_into it0 buf (int (length dat)))\<rparr>"
    and p: "urbs p = Some (b, us)" "num_urbs p = urbs_needed (int m)" "num_retired p = int i"
    and us: "length us = nat (urbs_needed (int m))"
      "\<forall>j<length us. u_buffer (us ! j) = j * 16384 \<and> buffer_length (us ! j) = int (unit_length (int m) j)"
      "u_status (us ! i) = r_status c" "u_actual (us ! i) = r_actual c"
    and mode: "if early then reap_action p = COMPLETED_EARLY
       else reap_action p = NORMAL \<and> length dat = ?off" by blast
  let ?s = "set_priv t p (put_itransfer t it (s\<lparr>pending := remove1 (t, b, i) (pending s)\<rparr>))"
  let ?p = "p\<lparr>num_retired := int (Suc i)\<rparr>"
  have u: "u_buffer (us ! i) = ?off" "buffer_length (us ! i) = int (unit_length (int m) i)"
    using us(1,2) i by simp_all
  have run: "reap_bulk (t, b, i) c s = (if early then reap_abnormal t it (us ! i) ?p ?s
      else reap_normal t it b i us ?p ?s)"
    using mode p(3) ctx by (simp add: reap_bulk_def r handle_bulk_completion_def Let_def add.commute)
  have le: "length ?new \<le> Suc i * 16384"
    using c(2) buf(4) by (simp add: unit_length_def)
  show thesis
  proof (cases early)
    case True
    from take_surplus_run [OF buf(1,4,3) u(1)] us(4) c(1) obtain buf' where
      ts: "take_surplus it (us ! i) = Inr (received_into it0 buf' (int (length ?new)))"
      and b': "length buf' = length buf" "take (length ?new) buf' = ?new" by (auto simp: it)
    let ?it = "received_into it0 buf' (int (length ?new))"
    show thesis
    proof (cases "Suc i = nat (urbs_needed (int m))")
      case True
      have n: "int (Suc i) = urbs_needed (int m)" using True urbs_needed_pos(1) [of m] by simp
      have "reap_bulk (t, b, i) c s = complete_bulk t TRANSFER_COMPLETED ?p (put_itransfer t ?it ?s)"
        using run \<open>early\<close> mode p(2) by (simp add: reap_abnormal_def ts n Let_def del: of_nat_Suc)
      then show thesis using True b' ctx
        by (intro last [of ?p "put_itransfer t ?it ?s" buf']) simp_all
    next
      case False
      have n: "int (Suc i) \<noteq> urbs_needed (int m)" using False urbs_needed_pos(1) [of m] by auto
      have "reap_bulk (t, b, i) c s = Inr (0, set_priv t ?p (put_itransfer t ?it ?s))"
        using run \<open>early\<close> mode p(2) by (simp add: reap_abnormal_def ts n Let_def del: of_nat_Suc)
      moreover have "filling ctx t b it0 m True (Suc i) ?new (set_priv t ?p (put_itransfer t ?it ?s))"
        unfolding filling_def using b' ctx buf(2) p us le mode \<open>early\<close>
        by (intro exI [of _ buf'] exI [of _ ?p] exI [of _ us]) simp
      ultimately show thesis using False i \<open>early\<close> by (intro more) simp_all
    qed
  next
    case False
    let ?buf = "take ?off buf @ r_data c @ drop (?off + length (r_data c)) buf"
    let ?it = "received_into it0 ?buf (int (length ?new))"
    have off: "length dat = ?off" "reap_action p = NORMAL" using mode False by simp_all
    have tk: "take (length ?new) ?buf = ?new" using off(1) buf(1,3) by simp
    have st: "status_of_urb (r_status c) = None" "r_status c = 0 \<or> r_status c = - EREMOTEIO"
      using clean False by (auto simp: status_of_urb_def)
    have it1: "(if u_status (us ! i) = 0 \<or> u_status (us ! i) = - EREMOTEIO
        \<or> u_status (us ! i) = - EOVERFLOW \<and> u_actual (us ! i) > 0
      then it\<lparr>i_transferred := i_transferred it + u_actual (us ! i)\<rparr> else it) = ?it"
      using c(1) us(3,4) st(2) by (auto simp: it)
    show thesis
    proof (cases "Suc i = nat (urbs_needed (int m))")
      case True
      have "reap_bulk (t, b, i) c s = complete_bulk t TRANSFER_COMPLETED ?p (put_itransfer t ?it ?s)"
        using run False True unfolding reap_normal_def Let_def it1 by (simp add: us(3) st(1) p(2))
      then show thesis using True tk ctx
        by (intro last [of ?p "put_itransfer t ?it ?s" ?buf]) simp_all
    next
      case more_units: False
      then have "Suc i < nat (urbs_needed (int m))" using i by simp
      note full = unit_bounds(2) [OF this]
      let ?short = "length (r_data c) < unit_length (int m) i"
      let ?p' = "if ?short then ?p\<lparr>reap_action := COMPLETED_EARLY\<rparr> else ?p"
      let ?s' = "put_itransfer t ?it ?s"
      have "\<exists>ds. reap_bulk (t, b, i) c s = Inr (0, set_priv t ?p' (?s'\<lparr>discards := ds\<rparr>))"
      proof (cases ?short)
        case short: True
        then show ?thesis using run False more_units unfolding reap_normal_def Let_def it1
          by (simp add: us(3,4) st(1) p(2) u(2) c(1)) blast
      next
        case long: False
        then have "reap_bulk (t, b, i) c s = Inr (0, set_priv t ?p' ?s')"
          using run False more_units unfolding reap_normal_def Let_def it1
          by (simp add: us(3,4) st(1) p(2) u(2) c(1))
        then show ?thesis by (intro exI [of _ "discards ?s'"]) simp
      qed
      then obtain ds where "reap_bulk (t, b, i) c s = Inr (0, set_priv t ?p' (?s'\<lparr>discards := ds\<rparr>))" ..
      moreover have "filling ctx t b it0 m ?short (Suc i) ?new
          (set_priv t ?p' ((put_itransfer t ?it ?s)\<lparr>discards := ds\<rparr>))"
        unfolding filling_def using tk ctx buf(1,2) p us le off full c(2)
        by (intro exI [of _ ?buf] exI [of _ ?p'] exI [of _ us]) auto
      ultimately show thesis using more_units i False by (intro more) simp_all
    qed
  qed
qed


definition moved_bytes :: "reaped list \<Rightarrow> u8 list" where
  "moved_bytes cs = concat (map r_data cs)"

lemma reap_run_filling:
  "filling ctx t b it0 m early i dat s \<Longrightarrow> cs \<noteq> [] \<Longrightarrow> i + length cs = nat (urbs_needed (int m)) \<Longrightarrow>
   well_reaped (int m) early i cs \<Longrightarrow>
   \<exists>p' s' buf. reap_run t b i cs s = bindF (complete_bulk t TRANSFER_COMPLETED p' s') (\<lambda>(r, s'). Inr s')
     \<and> uctx s' = ctx\<lparr>itransfers := (itransfers ctx)(t \<mapsto>
          received_into it0 buf (int (length (dat @ moved_bytes cs))))\<rparr>
     \<and> take (length (dat @ moved_bytes cs)) buf = dat @ moved_bytes cs \<and> privs s' t \<noteq> None"
proof (induction cs arbitrary: early i dat s)
  case (Cons c cs)
  have i: "i < nat (urbs_needed (int m))" using Cons.prems(3) by simp
  have c: "r_actual c = int (length (r_data c))" "length (r_data c) \<le> unit_length (int m) i"
    "early \<or> r_status c = 0 \<or> r_status c = - EREMOTEIO" using Cons.prems(4) by auto
  show ?case using Cons.prems(1) i c
  proof (cases rule: fill_step)
    case (more s')
    then have ne: "cs \<noteq> []" using Cons.prems(3) by auto
    have "reap_run t b i (c # cs) s = reap_run t b (Suc i) cs s'" using more(2) by simp
    with Cons.IH [OF more(3) ne] Cons.prems(3,4) show ?thesis by (simp add: moved_bytes_def)
  next
    case (last p' s' buf)
    have "Suc i = i + length (c # cs)" by (rule trans [OF last(1) Cons.prems(3) [symmetric]])
    then have cs: "cs = []" by simp
    have run: "reap_run t b i (c # cs) s
        = bindF (complete_bulk t TRANSFER_COMPLETED p' s') (\<lambda>(r, s'). Inr s')"
      using last(2) cs by (simp add: split_def)
    have new: "dat @ moved_bytes (c # cs) = dat @ r_data c" using cs by (simp add: moved_bytes_def)
    show ?thesis unfolding run new using last(3-5) by blast
  qed
qed simp

lemma complete_bulk_run:
  assumes "itransfers (uctx s) t = Some it" "set (flying (uctx s)) \<subseteq> dom (itransfers (uctx s))"
    and "\<not> timer_broken (uctx s)" "xflags (user it) AND TRANSFER_FREE_TRANSFER = 0"
  shows "\<exists>r s'. complete_bulk t st p s = Inr (r, s')
    \<and> itransfers (uctx s') t = Some (it\<lparr>user := (user it)\<lparr>status := reported_status it st,
        actual_length := i_transferred it\<rparr>\<rparr>)
    \<and> callbacks (uctx s') = callbacks (uctx s) @ [(t, reported_status it st, i_transferred it)]
    \<and> flying (uctx s') = remove1 t (flying (uctx s))
    \<and> privs s' t = Some (p\<lparr>urbs := None\<rparr>)"
proof -
  from completion_run [OF assms(1,2), of st] assms(3) obtain r a where
    "usbi_handle_transfer_completion t st (uctx s)
      = Inr (r, complete_user t it st ((uctx s)\<lparr>flying := remove1 t (flying (uctx s)), armed := a\<rparr>))"
    by auto
  then show ?thesis using assms(4) by (simp add: complete_bulk_def lift_ctx_def complete_user_def Let_def)
qed

text \<open>C24: a bulk input is put together without holes. A bulk transfer of \<open>m\<close> bytes whose requests the
  kernel accepts is split into requests of at most 16384 bytes; when all of them have been reaped in
  order, the first that is short ending the transfer early and those behind it bringing what they
  bring, the buffer starts with all bytes that arrived, in order and without a gap, the length
  reported is their number, the callback is made once, and the block of requests has been freed.\<close>

theorem bulk_input_contiguous:
  assumes it: "itransfers (uctx s) t = Some it" "i_transferred it = 0" "length_x (user it) = int m"
      "m \<le> length (buffer (user it))" "xflags (user it) AND TRANSFER_FREE_TRANSFER = 0"
    and p: "privs s t = Some p" "urbs p = None"
    and ctx: "set (flying (uctx s)) \<subseteq> dom (itransfers (uctx s))" "\<not> timer_broken (uctx s)"
    and cs: "length cs = nat (urbs_needed (int m))" "well_reaped (int m) False 0 cs"
  shows "\<exists>s1 s' it'. submit_bulk_transfer cont True (\<lambda>_. Accepted) t ty s = Inr (0, s1)
    \<and> reap_run t (next_block s) 0 cs s1 = Inr s' \<and> itransfers (uctx s') t = Some it'
    \<and> take (length (moved_bytes cs)) (buffer (user it')) = moved_bytes cs
    \<and> actual_length (user it') = int (length (moved_bytes cs))
    \<and> callbacks (uctx s') = callbacks (uctx s) @ [(t, status (user it'), int (length (moved_bytes cs)))]
    \<and> map_option urbs (privs s' t) = Some None"
proof -
  let ?N = "nat (urbs_needed (int m))" and ?b = "next_block s"
  let ?p = "p\<lparr>num_urbs := urbs_needed (int m), num_retired := 0, reap_action := NORMAL,
     urbs := Some (?b, map (bulk_urb cont ty (user it)) [0..<?N])\<rparr>"
  let ?s1 = "set_priv t ?p (s\<lparr>next_block := Suc ?b, pending := pending s @ map (\<lambda>i. (t, ?b, i)) [0..<?N]\<rparr>)"
  note sub = submit_bulk_accepted [OF it(1) p it(3), of cont ty]
  have rec: "received_into it (buffer (user it)) 0 = it" using it(2) by (simp add: received_into_def)
  have "(itransfers (uctx s))(t \<mapsto> it) = itransfers (uctx s)" using it(1) by auto
  then have "filling (uctx s) t ?b it m False 0 [] ?s1"
    unfolding filling_def using it p bulk_urb_unit [OF it(3), of _ cont ty]
    by (intro exI [of _ "buffer (user it)"] exI [of _ ?p] exI [of _ "map (bulk_urb cont ty (user it)) [0..<?N]"])
      (simp add: rec)
  moreover have "cs \<noteq> []" using cs(1) urbs_needed_pos(1) [of m] by (metis gr0I list.size(3) not_less_iff_gr_or_eq zero_less_nat_eq)
  ultimately obtain p' s' buf where run:
    "reap_run t ?b 0 cs ?s1 = bindF (complete_bulk t TRANSFER_COMPLETED p' s') (\<lambda>(r, s'). Inr s')"
    "uctx s' = (uctx s)\<lparr>itransfers := (itransfers (uctx s))(t \<mapsto>
       received_into it buf (int (length (moved_bytes cs))))\<rparr>"
    "take (length (moved_bytes cs)) buf = moved_bytes cs"
    using reap_run_filling [of "uctx s" t ?b it m False 0 "[]" ?s1 cs] cs by auto
  let ?it = "received_into it buf (int (length (moved_bytes cs)))"
  have "itransfers (uctx s') t = Some ?it" "set (flying (uctx s')) \<subseteq> dom (itransfers (uctx s'))"
    "\<not> timer_broken (uctx s')" "xflags (user ?it) AND TRANSFER_FREE_TRANSFER = 0"
    using run(2) ctx it(5) by (auto simp: timer_broken_def settime_ok_def)
  from complete_bulk_run [OF this, of TRANSFER_COMPLETED p'] obtain r s'' where
    "complete_bulk t TRANSFER_COMPLETED p' s' = Inr (r, s'')"
    "itransfers (uctx s'') t = Some (?it\<lparr>user := (user ?it)\<lparr>status := reported_status ?it TRANSFER_COMPLETED,
        actual_length := i_transferred ?it\<rparr>\<rparr>)"
    "callbacks (uctx s'') = callbacks (uctx s') @ [(t, reported_status ?it TRANSFER_COMPLETED, i_transferred ?it)]"
    "privs s'' t = Some (p'\<lparr>urbs := None\<rparr>)" by blast
  then show ?thesis using sub run by simp
qed


text \<open>C25: the requests of a bulk transfer cover its buffer. Submitting a transfer of \<open>m\<close> bytes makes
  requests whose pieces of the buffer, laid end to end, are the buffer from its first to its last
  byte, each once, and none is longer than the kernel allows; the kernel holds all of them.\<close>

theorem bulk_requests_cover:
  assumes "itransfers (uctx s) t = Some it" "privs s t = Some p" "urbs p = None"
    and "length_x (user it) = int m"
  shows "\<exists>s1 p1 us. submit_bulk_transfer cont True (\<lambda>_. Accepted) t ty s = Inr (0, s1)
    \<and> privs s1 t = Some p1 \<and> urbs p1 = Some (next_block s, us)
    \<and> concat (map (\<lambda>u. [u_buffer u ..< u_buffer u + nat (buffer_length u)]) us) = [0..<m]
    \<and> (\<forall>u\<in>set us. buffer_length u \<le> MAX_BULK_BUFFER_LENGTH)
    \<and> pending s1 = pending s @ map (\<lambda>i. (t, next_block s, i)) [0..<length us]"
proof -
  let ?N = "nat (urbs_needed (int m))"
  let ?us = "map (bulk_urb cont ty (user it)) [0..<?N]"
  note u = bulk_urb_unit [OF assms(4), of _ cont ty]
  let ?piece = "\<lambda>i. [i * 16384 ..< i * 16384 + unit_length (int m) i]"
  have pieces: "concat (map ?piece [0..<k]) = [0..<min m (k * 16384)]" if "k \<le> ?N" for k using that
  proof (induction k)
    case (Suc k)
    then have k: "k * 16384 + unit_length (int m) k \<le> m" using unit_bounds(1) [of k m] by simp
    then have mins: "min m (k * 16384) = k * 16384"
      "min m (Suc k * 16384) = k * 16384 + unit_length (int m) k" by (simp_all add: unit_length_def)
    have "concat (map ?piece [0..<Suc k]) = [0..<k * 16384] @ ?piece k" using Suc mins(1) by simp
    also have "\<dots> = [0..<k * 16384 + unit_length (int m) k]"
      by (rule upt_add_eq_append [symmetric]) simp
    finally show ?case unfolding mins .
  qed simp
  have cover: "concat (map (\<lambda>u. [u_buffer u ..< u_buffer u + nat (buffer_length u)]) ?us) = [0..<m]"
  proof -
    have "map (\<lambda>u. [u_buffer u ..< u_buffer u + nat (buffer_length u)]) ?us = map ?piece [0..<?N]"
      using u by simp
    then show ?thesis using pieces [OF order_refl] by (simp only: min_absorb1 [OF units_cover])
  qed
  have "\<forall>u\<in>set ?us. buffer_length u \<le> MAX_BULK_BUFFER_LENGTH"
    using u by (auto simp: MAX_BULK_BUFFER_LENGTH_def unit_length_def)
  with cover show ?thesis using submit_bulk_accepted [OF assms, of cont ty]
    by (simp add: set_priv_def del: map_map)
qed

section \<open>A stall in the middle\<close>

lemma complete_bulk_frees:
  assumes "complete_bulk t st p s = Inr (r, s')"
  shows "reap_bulk (t, b, j) a s' = Inl UseAfterFree" and "pending s' = pending s"
  using assms
  by (auto simp: complete_bulk_def lift_ctx_def reap_bulk_def reap_urb_def set_priv_def deref_def
      elim!: bindF_InrE)

text \<open>An error in the middle of a transfer leaves requests in freed memory. When a request that is
  not the last ends with an error, the transfer is completed at once and its block of requests is
  freed, although the kernel still has the others: reaping any of them is a use after free.\<close>

theorem bulk_error_use_after_free:
  assumes "privs s t = Some p" "urbs p = Some (b, us)" "reap_action p = NORMAL" "i < length us"
    and "r_status a \<noteq> 0" "r_status a \<noteq> - EREMOTEIO"
    and run: "reap_bulk (t, b, i) a s = Inr (r, s')"
    and other: "(t, b, j) \<in> set (pending s)" "j \<noteq> i"
  shows "(t, b, j) \<in> set (pending s') \<and> reap_bulk (t, b, j) a' s' = Inl UseAfterFree"
proof -
  let ?us = "us[i := (us ! i)\<lparr>u_status := r_status a, u_actual := r_actual a\<rparr>]"
  from run assms(1,2) obtain it s1 where
    1: "handle_bulk_completion t b i ?us (p\<lparr>urbs := Some (b, ?us)\<rparr>) s1 = Inr (r, s')"
    and s1: "pending s1 = remove1 (t, b, i) (pending s)"
    by (auto simp: reap_bulk_def reap_urb_def set_priv_def put_itransfer_def Let_def elim!: bindF_InrE)
  have "status_of_urb (u_status (?us ! i)) \<noteq> None"
    using assms(4-6) by (simp add: status_of_urb_def)
  then obtain st where "status_of_urb (u_status (?us ! i)) = Some st" by blast
  with 1 assms(3) obtain p2 s2 where 2: "complete_bulk t st p2 s2 = Inr (r, s')" and s2: "pending s2 = pending s1"
    by (auto simp: handle_bulk_completion_def reap_normal_def Let_def put_itransfer_def elim!: bindF_InrE)
  have "(t, b, j) \<in> set (pending s')"
    using complete_bulk_frees(2) [OF 2] s1 s2 other by (simp add: in_set_remove1)
  then show ?thesis using complete_bulk_frees(1) [OF 2] by simp
qed

section \<open>A transfer in two requests\<close>

definition two_requests :: usbfs where
  "two_requests = \<lparr>uctx = sample_context\<lparr>itransfers := [4 \<mapsto> \<lparr>deadline = timerclear, timed_out = False,
       i_transferred = 0, user = zero_transfer\<lparr>length_x := 20000, xendpoint := 0x81,
         buffer := replicate 20000 0\<rparr>\<rparr>], flying := [4]\<rparr>,
     privs = [4 \<mapsto> \<lparr>urbs = None, reap_action = NORMAL, num_urbs = 0, num_retired = 0\<rparr>],
     next_block = 0, pending = [], discards = []\<rparr>"

lemma two_needed: "urbs_needed (int 20000) = 2"
  using urbs_needed_split(1) [of 3616 1] by simp

lemma two_requests_simps [simp]:
  "itransfers (uctx two_requests) 4 = Some \<lparr>deadline = timerclear, timed_out = False, i_transferred = 0,
     user = zero_transfer\<lparr>length_x := 20000, xendpoint := 0x81, buffer := replicate 20000 0\<rparr>\<rparr>"
  "privs two_requests 4 = Some \<lparr>urbs = None, reap_action = NORMAL, num_urbs = 0, num_retired = 0\<rparr>"
  "next_block two_requests = 0" "pending two_requests = []" "flying (uctx two_requests) = [4]"
  "callbacks (uctx two_requests) = []" "\<not> timer_broken (uctx two_requests)"
  "dom (itransfers (uctx two_requests)) = {4}"
  by (simp_all add: two_requests_def sample_defs)

theorem bulk_requests_cover_witness:
  "\<exists>s1 p1 us. submit_bulk_transfer 1 True (\<lambda>_. Accepted) 4 URB_TYPE_BULK two_requests = Inr (0, s1)
     \<and> privs s1 4 = Some p1 \<and> urbs p1 = Some (0, us)
     \<and> concat (map (\<lambda>u. [u_buffer u ..< u_buffer u + nat (buffer_length u)]) us) = [0..<20000]"
  using bulk_requests_cover [of two_requests 4 _ _ 20000 1 URB_TYPE_BULK] by fastforce

theorem bulk_input_contiguous_witness:
  "\<exists>s1 s' it'. submit_bulk_transfer 1 True (\<lambda>_. Accepted) 4 URB_TYPE_BULK two_requests = Inr (0, s1)
     \<and> reap_run 4 0 0 [\<lparr>r_status = - EREMOTEIO, r_actual = 2, r_data = [5, 6]\<rparr>,
                       \<lparr>r_status = -2, r_actual = 1, r_data = [7]\<rparr>] s1 = Inr s'
     \<and> itransfers (uctx s') 4 = Some it' \<and> take 3 (buffer (user it')) = [5, 6, 7]
     \<and> actual_length (user it') = 3"
  using bulk_input_contiguous [of two_requests 4 _ 20000 _ "[\<lparr>r_status = - EREMOTEIO, r_actual = 2, r_data = [5, 6]\<rparr>,
      \<lparr>r_status = -2, r_actual = 1, r_data = [7]\<rparr>]" 1 URB_TYPE_BULK] two_needed
  by (fastforce simp: zero_transfer_def unit_length_def moved_bytes_def)


lemma reap_bulk_error:
  assumes "itransfers (uctx s) t = Some it" "privs s t = Some p" "urbs p = Some (b, us)"
    and "reap_action p = NORMAL" "i < length us" "u_buffer (us ! i) \<le> length (buffer (user it))"
    and "r_data a = []" "r_status a \<noteq> - EOVERFLOW" "status_of_urb (r_status a) = Some st"
  shows "\<exists>p2 s2. reap_bulk (t, b, i) a s = complete_bulk t st p2 s2 \<and> uctx s2 = uctx s"
proof -
  have same: "set_buffer it (buffer (user it)) = it" by (simp add: set_buffer_def)
  have upd: "(uctx s)\<lparr>itransfers := (itransfers (uctx s))(t \<mapsto> it)\<rparr> = uctx s"
    using assms(1) by (simp add: fun_upd_idem)
  have st: "r_status a \<noteq> 0" "r_status a \<noteq> - EREMOTEIO"
    using assms(9) by (auto simp: status_of_urb_def)
  show ?thesis using assms st
    by (simp add: reap_bulk_def reap_urb_def store_at_def same handle_bulk_completion_def
        reap_normal_def Let_def) (metis set_priv_simps(1,4) upd usbfs.select_convs(1) usbfs.surjective
        usbfs.update_convs(4))
qed

lemma two_requests_stall:
  "\<exists>p us s1 r s'. submit_bulk_transfer 1 True (\<lambda>_. Accepted) 4 URB_TYPE_BULK two_requests = Inr (0, s1)
     \<and> privs s1 4 = Some p \<and> urbs p = Some (0, us) \<and> reap_action p = NORMAL \<and> length us = 2
     \<and> pending s1 = [(4, 0, 0), (4, 0, 1)]
     \<and> reap_bulk (4, 0, 0) \<lparr>r_status = - EPIPE, r_actual = 0, r_data = []\<rparr> s1 = Inr (r, s')"
proof -
  let ?it = "\<lparr>deadline = timerclear, timed_out = False, i_transferred = 0,
     user = zero_transfer\<lparr>length_x := 20000, xendpoint := 0x81, buffer := replicate 20000 0\<rparr>\<rparr>"
  let ?us = "map (bulk_urb 1 URB_TYPE_BULK (user ?it)) [0..<2]"
  let ?p = "\<lparr>urbs = Some (0, ?us), reap_action = NORMAL, num_urbs = 2, num_retired = 0\<rparr>"
  let ?s1 = "set_priv 4 ?p (two_requests\<lparr>next_block := 1, pending := map (\<lambda>i. (4, 0, i)) [0..<2]\<rparr>)"
  have two: "[0..<2] = [0, 1::nat]" by (simp add: upt_rec)
  have sub: "submit_bulk_transfer 1 True (\<lambda>_. Accepted) 4 URB_TYPE_BULK two_requests = Inr (0, ?s1)"
    using submit_bulk_accepted [of two_requests 4 ?it _ 20000 1 URB_TYPE_BULK] two_needed
    by simp
  let ?a = "\<lparr>r_status = - EPIPE, r_actual = 0, r_data = []\<rparr>"
  have "u_buffer (?us ! 0) = 0" by (simp add: bulk_urb_def Let_def)
  then have "\<exists>p2 s2. reap_bulk (4, 0, 0) ?a ?s1 = complete_bulk 4 TRANSFER_STALL p2 s2
      \<and> uctx s2 = uctx ?s1"
    by (intro reap_bulk_error [of _ _ ?it ?p _ ?us]) (simp_all add: status_of_urb_def errno_defs)
  then obtain p2 s2 where c: "reap_bulk (4, 0, 0) ?a ?s1 = complete_bulk 4 TRANSFER_STALL p2 s2"
    "uctx s2 = uctx two_requests" by auto
  obtain r s' where "complete_bulk 4 TRANSFER_STALL p2 s2 = Inr (r, s')"
    using complete_bulk_run [of s2 4 ?it TRANSFER_STALL p2] by (auto simp: c(2) zero_transfer_def)
  then show ?thesis using sub c(1)
    by (intro exI [of _ ?p] exI [of _ ?us] exI [of _ ?s1] exI [of _ r] exI [of _ s'])
      (simp add: set_priv_def two)
qed

theorem bulk_error_use_after_free_witness:
  "\<exists>s1 r s'. submit_bulk_transfer 1 True (\<lambda>_. Accepted) 4 URB_TYPE_BULK two_requests = Inr (0, s1)
     \<and> reap_bulk (4, 0, 0) \<lparr>r_status = - EPIPE, r_actual = 0, r_data = []\<rparr> s1 = Inr (r, s')
     \<and> reap_bulk (4, 0, 1) \<lparr>r_status = 0, r_actual = 0, r_data = []\<rparr> s' = Inl UseAfterFree"
proof -
  from two_requests_stall obtain p us s1 r s' where
    s1: "submit_bulk_transfer 1 True (\<lambda>_. Accepted) 4 URB_TYPE_BULK two_requests = Inr (0, s1)"
    "privs s1 4 = Some p" "urbs p = Some (0, us)" "reap_action p = NORMAL" "length us = 2"
    "pending s1 = [(4, 0, 0), (4, 0, 1)]"
    and r: "reap_bulk (4, 0, 0) \<lparr>r_status = - EPIPE, r_actual = 0, r_data = []\<rparr> s1 = Inr (r, s')" by blast
  from bulk_error_use_after_free [OF s1(2-4) _ _ _ r, of 1] s1 r show ?thesis
    by (auto simp: errno_defs)
qed

end
