(* ===== verification/Core.thy ===== *)
theory Core
  imports Descriptor "HOL-Library.Multiset"
begin

text \<open>
  The core of libusb (\<open>core.c\<close>): devices with their reference counts, the lists of devices handed to
  the user, open handles and claimed interfaces. Objects live in stores by address; every allocation
  takes a fresh address, so an address that was freed is not used again. The lists of devices and of
  handles in a context are the sequences of their elements (\<open>DList\<close> shows that the linked lists of
  \<open>libusbi.h\<close> implement these). What the backend answers is a parameter.
\<close>

section \<open>State\<close>

type_synonym u64 = "64 word"

text \<open>The part of a device the Linux backend owns.\<close>

record linux_device_priv =
  priv_sysfs_dir :: "string option"
  priv_dev_descriptor :: "u8 list option"
  priv_config_descriptor :: "u8 list option"

definition zero_priv :: linux_device_priv where
  "zero_priv = \<lparr>priv_sysfs_dir = None, priv_dev_descriptor = None, priv_config_descriptor = None\<rparr>"

record lib_device =
  refcnt :: int
  bus_number :: u8
  device_address :: u8
  num_configurations :: u8
  session_data :: int
  os_priv :: linux_device_priv

record lib_handle =
  claimed_interfaces :: u64
  handle_dev :: addr

text \<open>The growing array of devices found in a scan.\<close>

record discovered_devs =
  capacity :: nat
  dd_devices :: "addr list"

text \<open>
  The context: the lists of devices and open handles, the objects by address, the arrays of devices,
  the arrays handed to the user, the next address, what \<open>malloc\<close> will answer, whether mutexes can be
  made, the devices the backend has been told to destroy, and the counter of pending changes of the
  poll set. The last two fields are static variables of the Linux backend.
\<close>

record lib_context =
  usb_devs :: "addr list"
  open_devs :: "addr list"
  lib_devices :: "addr \<rightharpoonup> lib_device"
  lib_handles :: "addr \<rightharpoonup> lib_handle"
  discs :: "addr \<rightharpoonup> discovered_devs"
  dev_arrays :: "addr \<rightharpoonup> addr list"
  next_addr :: addr
  mem :: "bool list"
  mutex_ok :: bool
  destroyed :: "addr list"
  pollfd_modify :: int
  sysfs_has_descriptors :: int
  sysfs_can_relate_devices :: int

text \<open>Allocation: the address, if the memory is granted.\<close>

definition new_block :: "lib_context \<Rightarrow> ptr \<times> lib_context" where
  "new_block w = (case mem w of
     [] \<Rightarrow> (Some (next_addr w), w\<lparr>next_addr := Suc (next_addr w)\<rparr>)
   | b # bs \<Rightarrow> if b then (Some (next_addr w), w\<lparr>next_addr := Suc (next_addr w), mem := bs\<rparr>)
               else (None, w\<lparr>mem := bs\<rparr>))"

section \<open>References\<close>

definition put_device :: "addr \<Rightarrow> lib_device \<Rightarrow> lib_context \<Rightarrow> lib_context" where
  "put_device d dv w = w\<lparr>lib_devices := (lib_devices w)(d \<mapsto> dv)\<rparr>"

definition libusb_ref_device :: "ptr \<Rightarrow> lib_context \<Rightarrow> fault + addr \<times> lib_context" where
  "libusb_ref_device dev w =
     bindF (deref (lib_devices w) dev) (\<lambda>(d, dv).
       Inr (d, put_device d (dv\<lparr>refcnt := refcnt dv + 1\<rparr>) w))"

definition libusb_unref_device :: "ptr \<Rightarrow> lib_context \<Rightarrow> fault + lib_context" where
  "libusb_unref_device dev w =
     (if dev = None then Inr w
      else bindF (deref (lib_devices w) dev) (\<lambda>(d, dv).
        let w1 = put_device d (dv\<lparr>refcnt := refcnt dv - 1\<rparr>) w
        in if refcnt dv - 1 = 0
           then Inr (w1\<lparr>destroyed := destroyed w1 @ [d], usb_devs := remove1 d (usb_devs w1),
                        lib_devices := (lib_devices w1)(d := None)\<rparr>)
           else Inr w1))"

text \<open>A new device has what the memory held before in the fields that are not set. A device whose
  mutex cannot be made is not entered anywhere.\<close>

definition usbi_alloc_device :: "lib_device \<Rightarrow> int \<Rightarrow> lib_context \<Rightarrow> ptr \<times> lib_context" where
  "usbi_alloc_device junk session_id w =
     (case new_block w of
        (None, w1) \<Rightarrow> (None, w1)
      | (Some d, w1) \<Rightarrow>
          if \<not> mutex_ok w1 then (None, w1)
          else (Some d, (put_device d (junk\<lparr>refcnt := 1, session_data := session_id, os_priv := zero_priv\<rparr>) w1)
                          \<lparr>usb_devs := d # usb_devs w1\<rparr>))"

definition USB_MAXCONFIG :: u8 where "USB_MAXCONFIG = 8"

text \<open>The backend answers a code and the raw descriptor, of which the last byte counts.\<close>

definition usbi_sanitize_device :: "int \<times> u8 \<Rightarrow> addr \<Rightarrow> lib_context \<Rightarrow> fault + int \<times> lib_context" where
  "usbi_sanitize_device answer d w =
     (case answer of (r, last_byte) \<Rightarrow>
        if r < 0 then Inr (r, w)
        else if last_byte > USB_MAXCONFIG then Inr (rc LIBUSB_ERROR_IO, w)
        else if last_byte < 1 then Inr (rc LIBUSB_ERROR_IO, w)
        else bindF (deref (lib_devices w) (Some d)) (\<lambda>(_, dv).
          Inr (0, put_device d (dv\<lparr>num_configurations := last_byte\<rparr>) w)))"

fun session_loop :: "addr list \<Rightarrow> int \<Rightarrow> lib_context \<Rightarrow> fault + ptr" where
  "session_loop [] session_id w = Inr None"
| "session_loop (d # ds) session_id w =
     bindF (deref (lib_devices w) (Some d)) (\<lambda>(_, dv).
       if session_data dv = session_id then Inr (Some d) else session_loop ds session_id w)"

definition usbi_get_device_by_session_id :: "int \<Rightarrow> lib_context \<Rightarrow> fault + ptr" where
  "usbi_get_device_by_session_id session_id w = session_loop (usb_devs w) session_id w"

section \<open>The array of devices found\<close>

definition DISCOVERED_DEVICES_SIZE_STEP :: nat where "DISCOVERED_DEVICES_SIZE_STEP = 8"

definition discovered_devs_alloc :: "lib_context \<Rightarrow> ptr \<times> lib_context" where
  "discovered_devs_alloc w =
     (case new_block w of
        (None, w1) \<Rightarrow> (None, w1)
      | (Some p, w1) \<Rightarrow> (Some p, w1\<lparr>discs := (discs w1)(p \<mapsto>
          \<lparr>capacity = DISCOVERED_DEVICES_SIZE_STEP, dd_devices = []\<rparr>)\<rparr>))"

text \<open>Appending takes a reference. When the array is full it moves to a larger block, and the old
  one is freed; when there is no memory the array stays where it is.\<close>

definition discovered_devs_append :: "addr \<Rightarrow> addr \<Rightarrow> lib_context \<Rightarrow> fault + ptr \<times> lib_context" where
  "discovered_devs_append p dev w =
     bindF (deref (discs w) (Some p)) (\<lambda>(_, dd).
       if length (dd_devices dd) < capacity dd
       then bindF (libusb_ref_device (Some dev) w) (\<lambda>(d, w1).
              Inr (Some p, w1\<lparr>discs := (discs w1)(p \<mapsto> dd\<lparr>dd_devices := dd_devices dd @ [d]\<rparr>)\<rparr>))
       else case new_block w of
              (None, w1) \<Rightarrow> Inr (None, w1)
            | (Some q, w1) \<Rightarrow>
                bindF (libusb_ref_device (Some dev) (w1\<lparr>discs := (discs w1)(p := None)\<rparr>)) (\<lambda>(d, w2).
                  Inr (Some q, w2\<lparr>discs := (discs w2)(q \<mapsto>
                    \<lparr>capacity = capacity dd + DISCOVERED_DEVICES_SIZE_STEP,
                     dd_devices = dd_devices dd @ [d]\<rparr>)\<rparr>)))"

fun unref_all :: "addr list \<Rightarrow> lib_context \<Rightarrow> fault + lib_context" where
  "unref_all [] w = Inr w"
| "unref_all (d # ds) w = bindF (libusb_unref_device (Some d) w) (unref_all ds)"

definition discovered_devs_free :: "addr \<Rightarrow> lib_context \<Rightarrow> fault + lib_context" where
  "discovered_devs_free p w =
     bindF (deref (discs w) (Some p)) (\<lambda>(_, dd).
     bindF (unref_all (dd_devices dd) w) (\<lambda>w1. Inr (w1\<lparr>discs := (discs w1)(p := None)\<rparr>)))"


section \<open>Reference counts are right\<close>

text \<open>
  \<open>refs_ok w rs\<close>: \<open>rs\<close> are the references held to devices, one for each holder. Every device is in the
  list of the context, has at least one holder, and its count is the number of its holders; nothing
  else is referred to. Addresses from \<open>next_addr\<close> on are unused.
\<close>

definition fresh_above :: "lib_context \<Rightarrow> bool" where
  "fresh_above w \<longleftrightarrow> (\<forall>a \<ge> next_addr w. lib_devices w a = None \<and> lib_handles w a = None
     \<and> discs w a = None \<and> dev_arrays w a = None)"

definition refs_ok :: "lib_context \<Rightarrow> addr multiset \<Rightarrow> bool" where
  "refs_ok w rs \<longleftrightarrow> distinct (usb_devs w) \<and> set (usb_devs w) = dom (lib_devices w)
     \<and> set_mset rs = dom (lib_devices w)
     \<and> (\<forall>d dv. lib_devices w d = Some dv \<longrightarrow> refcnt dv = int (count rs d)) \<and> fresh_above w"

lemma refs_okD:
  assumes "refs_ok w rs" "d \<in># rs"
  obtains dv where "lib_devices w d = Some dv" "refcnt dv = int (count rs d)"
  using assms by (fastforce simp: refs_ok_def)

lemma refs_ok_cong:
  "usb_devs w' = usb_devs w \<Longrightarrow> lib_devices w' = lib_devices w \<Longrightarrow> fresh_above w' \<Longrightarrow>
   refs_ok w rs \<Longrightarrow> refs_ok w' rs"
  by (simp add: refs_ok_def)

lemma refs_ok_fresh: "refs_ok w rs \<Longrightarrow> fresh_above w"
  by (simp add: refs_ok_def)

lemma put_device_simps [simp]:
  "usb_devs (put_device d dv w) = usb_devs w" "next_addr (put_device d dv w) = next_addr w"
  "lib_devices (put_device d dv w) = (lib_devices w)(d \<mapsto> dv)" "discs (put_device d dv w) = discs w"
  "lib_handles (put_device d dv w) = lib_handles w" "open_devs (put_device d dv w) = open_devs w"
  "dev_arrays (put_device d dv w) = dev_arrays w" "pollfd_modify (put_device d dv w) = pollfd_modify w"
  "mem (put_device d dv w) = mem w" "mutex_ok (put_device d dv w) = mutex_ok w"
  "destroyed (put_device d dv w) = destroyed w"
  "sysfs_has_descriptors (put_device d dv w) = sysfs_has_descriptors w"
  "sysfs_can_relate_devices (put_device d dv w) = sysfs_can_relate_devices w"
  by (simp_all add: put_device_def)

text \<open>The parts of the context that handling devices leaves alone.\<close>

definition same_lists :: "lib_context \<Rightarrow> lib_context \<Rightarrow> bool" where
  "same_lists w w' \<longleftrightarrow> discs w' = discs w \<and> dev_arrays w' = dev_arrays w \<and> lib_handles w' = lib_handles w
     \<and> open_devs w' = open_devs w \<and> next_addr w' = next_addr w \<and> pollfd_modify w' = pollfd_modify w
     \<and> mem w' = mem w \<and> mutex_ok w' = mutex_ok w \<and> sysfs_has_descriptors w' = sysfs_has_descriptors w
     \<and> sysfs_can_relate_devices w' = sysfs_can_relate_devices w"

lemma same_lists_refl [simp]: "same_lists w w"
  by (simp add: same_lists_def)

lemma same_lists_trans: "same_lists w w1 \<Longrightarrow> same_lists w1 w2 \<Longrightarrow> same_lists w w2"
  by (simp add: same_lists_def)

lemma ref_device_ok:
  assumes "refs_ok w rs" "d \<in># rs"
  shows "\<exists>w'. libusb_ref_device (Some d) w = Inr (d, w') \<and> refs_ok w' (add_mset d rs) \<and> same_lists w w'"
proof -
  obtain dv where dv: "lib_devices w d = Some dv" "refcnt dv = int (count rs d)"
    using refs_okD [OF assms] .
  have "d \<in> dom (lib_devices w)" "d < next_addr w" using assms dv
    by (auto simp: refs_ok_def fresh_above_def not_le [symmetric])
  then have "refs_ok (put_device d (dv\<lparr>refcnt := refcnt dv + 1\<rparr>) w) (add_mset d rs)"
    using assms dv by (auto simp: refs_ok_def fresh_above_def insert_absorb)
  then show ?thesis using dv by (simp add: libusb_ref_device_def same_lists_def)
qed

lemma unref_device_ok:
  assumes "refs_ok w rs" "d \<in># rs"
  shows "\<exists>w'. libusb_unref_device (Some d) w = Inr w' \<and> refs_ok w' (rs - {#d#}) \<and> same_lists w w'
    \<and> (d \<in> dom (lib_devices w') \<longleftrightarrow> count rs d > 1)
    \<and> destroyed w' = destroyed w @ (if count rs d = 1 then [d] else [])"
proof -
  obtain dv where dv: "lib_devices w d = Some dv" "refcnt dv = int (count rs d)"
    using refs_okD [OF assms] .
  have c: "0 < count rs d" using assms(2) by simp
  have d: "d \<in> dom (lib_devices w)" "d < next_addr w" using assms dv
    by (auto simp: refs_ok_def fresh_above_def not_le [symmetric])
  show ?thesis
  proof (cases "count rs d = 1")
    case True
    then have "set_mset (rs - {#d#}) = set_mset rs - {d}"
      by (auto simp: in_diff_count count_inI split: if_splits)
    then show ?thesis using assms dv True d
      by (auto simp: libusb_unref_device_def refs_ok_def fresh_above_def same_lists_def Let_def set_remove1_eq)
  next
    case False
    then have more: "1 < count rs d" using c by linarith
    then have "set_mset (rs - {#d#}) = set_mset rs"
      by (auto simp: in_diff_count count_inI split: if_splits)
    then show ?thesis using assms dv more d
      by (auto simp: libusb_unref_device_def refs_ok_def fresh_above_def same_lists_def Let_def insert_absorb)
  qed
qed

lemma unref_all_ok:
  "refs_ok w rs \<Longrightarrow> mset ds \<subseteq># rs \<Longrightarrow>
     \<exists>w'. unref_all ds w = Inr w' \<and> refs_ok w' (rs - mset ds) \<and> same_lists w w'"
proof (induction ds arbitrary: w rs)
  case (Cons d ds)
  have "d \<in># rs" "mset ds \<subseteq># rs - {#d#}" using Cons.prems(2) by (auto simp: insert_subset_eq_iff)
  with unref_device_ok [OF Cons.prems(1)] obtain w1 where
    "libusb_unref_device (Some d) w = Inr w1" "refs_ok w1 (rs - {#d#})" "same_lists w w1" by blast
  moreover from Cons.IH [OF this(2) \<open>mset ds \<subseteq># rs - {#d#}\<close>] obtain w2 where
    "unref_all ds w1 = Inr w2" "refs_ok w2 (rs - {#d#} - mset ds)" "same_lists w1 w2" by blast
  ultimately show ?case using same_lists_trans by auto
qed simp


section \<open>Lists of devices\<close>

text \<open>What the backend does to find devices: it gets the array found so far and leaves its code and the
  array, which may have moved.\<close>

type_synonym device_scan = "addr \<Rightarrow> lib_context \<Rightarrow> fault + int \<times> addr \<times> lib_context"

fun ref_all :: "addr list \<Rightarrow> lib_context \<Rightarrow> fault + lib_context" where
  "ref_all [] w = Inr w"
| "ref_all (d # ds) w = bindF (libusb_ref_device (Some d) w) (\<lambda>(d', w1). ref_all ds w1)"

text \<open>The array found becomes the list of the user, with references of its own.\<close>

definition hand_out :: "addr \<Rightarrow> discovered_devs \<Rightarrow> lib_context \<Rightarrow> fault + int \<times> ptr \<times> lib_context" where
  "hand_out q dd w =
     (case new_block w of
        (None, w1) \<Rightarrow> bindF (discovered_devs_free q w1) (\<lambda>w2.
          Inr (rc LIBUSB_ERROR_NO_MEM, None, w2))
      | (Some a, w1) \<Rightarrow> bindF (ref_all (dd_devices dd) w1) (\<lambda>w2.
          bindF (discovered_devs_free q (w2\<lparr>dev_arrays := (dev_arrays w2)(a \<mapsto> dd_devices dd)\<rparr>)) (\<lambda>w3.
            Inr (int (length (dd_devices dd)), Some a, w3))))"

definition libusb_get_device_list :: "device_scan \<Rightarrow> lib_context \<Rightarrow> fault + int \<times> ptr \<times> lib_context" where
  "libusb_get_device_list scan w =
     (case discovered_devs_alloc w of
        (None, w1) \<Rightarrow> Inr (rc LIBUSB_ERROR_NO_MEM, None, w1)
      | (Some p, w1) \<Rightarrow>
          bindF (scan p w1) (\<lambda>(r, q, w2).
            if r < 0 then bindF (discovered_devs_free q w2) (\<lambda>w3. Inr (r, None, w3))
            else bindF (deref (discs w2) (Some q)) (\<lambda>(_, dd). hand_out q dd w2)))"

definition libusb_free_device_list :: "ptr \<Rightarrow> bool \<Rightarrow> lib_context \<Rightarrow> fault + lib_context" where
  "libusb_free_device_list lst unref_devices w =
     (if lst = None then Inr w
      else bindF (deref (dev_arrays w) lst) (\<lambda>(a, ds).
        bindF (if unref_devices then unref_all ds w else Inr w) (\<lambda>w1.
          Inr (w1\<lparr>dev_arrays := (dev_arrays w1)(a := None)\<rparr>))))"

lemma ref_all_ok:
  "refs_ok w rs \<Longrightarrow> set ds \<subseteq> set_mset rs \<Longrightarrow>
     \<exists>w'. ref_all ds w = Inr w' \<and> refs_ok w' (rs + mset ds) \<and> same_lists w w'"
proof (induction ds arbitrary: w rs)
  case (Cons d ds)
  from ref_device_ok [OF Cons.prems(1), of d] Cons.prems(2) obtain w1 where
    1: "libusb_ref_device (Some d) w = Inr (d, w1)" "refs_ok w1 (add_mset d rs)" "same_lists w w1" by auto
  from Cons.IH [OF 1(2)] Cons.prems(2) obtain w2 where
    "ref_all ds w1 = Inr w2" "refs_ok w2 (add_mset d rs + mset ds)" "same_lists w1 w2" by auto
  with 1 show ?case using same_lists_trans by auto
qed simp

lemma new_block_Some:
  "new_block w = (Some a, w') \<Longrightarrow> a = next_addr w \<and> (\<exists>bs. w' = w\<lparr>next_addr := Suc (next_addr w), mem := bs\<rparr>)"
  by (auto simp: new_block_def split: list.splits if_splits) (metis lib_context.surjective lib_context.update_convs(7,8))

lemma new_block_None: "new_block w = (None, w') \<Longrightarrow> \<exists>bs. w' = w\<lparr>mem := bs\<rparr>"
  by (auto simp: new_block_def split: list.splits if_splits)

lemma fresh_above_next: "fresh_above w \<Longrightarrow> fresh_above (w\<lparr>next_addr := Suc (next_addr w), mem := bs\<rparr>)"
  by (simp add: fresh_above_def)

lemma discovered_devs_free_ok:
  assumes "refs_ok w rs" "discs w p = Some dd" "mset (dd_devices dd) \<subseteq># rs"
  shows "\<exists>w'. discovered_devs_free p w = Inr w' \<and> refs_ok w' (rs - mset (dd_devices dd))
    \<and> discs w' = (discs w)(p := None) \<and> dev_arrays w' = dev_arrays w \<and> lib_handles w' = lib_handles w
    \<and> open_devs w' = open_devs w \<and> pollfd_modify w' = pollfd_modify w"
proof -
  from unref_all_ok [OF assms(1,3)] obtain w1 where
    w1: "unref_all (dd_devices dd) w = Inr w1" "refs_ok w1 (rs - mset (dd_devices dd))" "same_lists w w1" by blast
  have "fresh_above (w1\<lparr>discs := (discs w1)(p := None)\<rparr>)"
    using refs_ok_fresh [OF w1(2)] by (simp add: fresh_above_def)
  then show ?thesis using w1 assms(2)
    by (auto simp: discovered_devs_free_def same_lists_def intro: refs_ok_cong)
qed


text \<open>What stays of the objects of the user while the backend looks for devices.\<close>

definition user_same :: "lib_context \<Rightarrow> lib_context \<Rightarrow> bool" where
  "user_same w w' \<longleftrightarrow> dev_arrays w' = dev_arrays w \<and> lib_handles w' = lib_handles w
     \<and> open_devs w' = open_devs w \<and> pollfd_modify w' = pollfd_modify w"

lemma user_same_refl [simp]: "user_same w w"
  by (simp add: user_same_def)

lemma user_same_trans: "user_same w w1 \<Longrightarrow> user_same w1 w2 \<Longrightarrow> user_same w w2"
  by (simp add: user_same_def)

lemma same_lists_user: "same_lists w w' \<Longrightarrow> user_same w w'"
  by (simp add: same_lists_def user_same_def)

text \<open>What the user gets: an error and nothing, or a new array that holds one reference to each device.\<close>

definition list_result :: "addr multiset \<Rightarrow> lib_context \<Rightarrow> int \<Rightarrow> ptr \<Rightarrow> lib_context \<Rightarrow> bool" where
  "list_result rs w r lst w' \<longleftrightarrow> lib_handles w' = lib_handles w \<and> open_devs w' = open_devs w
    \<and> (case lst of None \<Rightarrow> r < 0 \<and> refs_ok w' rs \<and> dev_arrays w' = dev_arrays w
       | Some a \<Rightarrow> \<exists>ds. dev_arrays w' = (dev_arrays w)(a \<mapsto> ds) \<and> dev_arrays w a = None
           \<and> r = int (length ds) \<and> refs_ok w' (rs + mset ds))"

lemma hand_out_ok:
  assumes "discs w q = Some dd" "refs_ok w (rs + mset (dd_devices dd))"
  shows "\<exists>r lst w'. hand_out q dd w = Inr (r, lst, w') \<and> list_result rs w r lst w'"
proof (cases "new_block w")
  case nb: (Pair na w1)
  show ?thesis
  proof (cases na)
    case None
    with nb obtain bs where w1: "w1 = w\<lparr>mem := bs\<rparr>" by (auto dest: new_block_None)
    then have "refs_ok w1 (rs + mset (dd_devices dd))" "discs w1 q = Some dd"
      using assms by (simp_all add: refs_ok_def fresh_above_def)
    from discovered_devs_free_ok [OF this] obtain w2 where
      "discovered_devs_free q w1 = Inr w2" "refs_ok w2 rs" "dev_arrays w2 = dev_arrays w1"
      "lib_handles w2 = lib_handles w1" "open_devs w2 = open_devs w1" by auto
    then show ?thesis using nb None w1 by (simp add: hand_out_def list_result_def)
  next
    case a: (Some a)
    with nb obtain bs where a': "a = next_addr w" and
      w1: "w1 = w\<lparr>next_addr := Suc (next_addr w), mem := bs\<rparr>" by (auto dest!: new_block_Some)
    have r1: "refs_ok w1 (rs + mset (dd_devices dd))" and d1: "discs w1 q = Some dd"
      using assms w1 by (simp_all add: refs_ok_def fresh_above_def)
    from ref_all_ok [OF r1, of "dd_devices dd"] obtain w2 where
      w2: "ref_all (dd_devices dd) w1 = Inr w2"
        "refs_ok w2 (rs + mset (dd_devices dd) + mset (dd_devices dd))" "same_lists w1 w2" by auto
    let ?w2 = "w2\<lparr>dev_arrays := (dev_arrays w2)(a \<mapsto> dd_devices dd)\<rparr>"
    have "fresh_above ?w2" using refs_ok_fresh [OF w2(2)] w2(3) a' w1
      by (simp add: fresh_above_def same_lists_def)
    then have r2: "refs_ok ?w2 (rs + mset (dd_devices dd) + mset (dd_devices dd))"
      using w2(2) by (auto intro: refs_ok_cong)
    have d2: "discs ?w2 q = Some dd" using w2(3) d1 by (simp add: same_lists_def)
    from discovered_devs_free_ok [OF r2 d2] obtain w3 where
      w3: "discovered_devs_free q ?w2 = Inr w3" "refs_ok w3 (rs + mset (dd_devices dd))"
      "dev_arrays w3 = dev_arrays ?w2" "lib_handles w3 = lib_handles ?w2"
      "open_devs w3 = open_devs ?w2" by auto
    have "dev_arrays w a = None" using refs_ok_fresh [OF assms(2)] a' by (simp add: fresh_above_def)
    moreover have "hand_out q dd w = Inr (int (length (dd_devices dd)), Some a, w3)"
      using nb a w2(1) w3(1) by (simp add: hand_out_def)
    moreover have "dev_arrays w3 = (dev_arrays w)(a \<mapsto> dd_devices dd)" "lib_handles w3 = lib_handles w"
      "open_devs w3 = open_devs w" using w2(3) w3 w1 by (simp_all add: same_lists_def)
    ultimately show ?thesis using w3(2) by (auto simp: list_result_def)
  qed
qed

text \<open>
  The contract of a scan. Besides the references \<open>rs\<close> of others, the array it is given holds one
  reference to each device in it; whatever it returns, the same holds of the array it leaves, and
  nothing else has changed hands. \<open>ready\<close> are the contexts it can be called in.
\<close>

definition array_ok :: "addr multiset \<Rightarrow> addr \<Rightarrow> lib_context \<Rightarrow> bool" where
  "array_ok rs p w \<longleftrightarrow> (\<exists>dd. discs w p = Some dd \<and> refs_ok w (rs + mset (dd_devices dd)))"

locale device_scanner =
  fixes scan :: device_scan and ready :: "lib_context \<Rightarrow> bool"
  assumes scan_law: "ready w \<Longrightarrow> array_ok rs p w \<Longrightarrow>
      \<exists>r q w'. scan p w = Inr (r, q, w') \<and> user_same w w' \<and> array_ok rs q w'"
    and ready_alloc: "ready w \<Longrightarrow> discovered_devs_alloc w = (x, w') \<Longrightarrow> ready w'"
begin

lemma device_list_owned:
  assumes "ready w" "refs_ok w rs"
  shows "\<exists>r lst w'. libusb_get_device_list scan w = Inr (r, lst, w') \<and> list_result rs w r lst w'"
proof (cases "discovered_devs_alloc w")
  case (Pair pa w1)
  show ?thesis
  proof (cases pa)
    case None
    with Pair obtain bs where "w1 = w\<lparr>mem := bs\<rparr>"
      by (auto simp: discovered_devs_alloc_def split: prod.splits option.splits dest: new_block_None)
    moreover have "refs_ok (w\<lparr>mem := bs\<rparr>) rs" using assms(2) by (simp add: refs_ok_def fresh_above_def)
    ultimately show ?thesis using None Pair by (simp add: libusb_get_device_list_def list_result_def)
  next
    case (Some p)
    with Pair obtain bs where p: "p = next_addr w" and
      w1: "w1 = w\<lparr>next_addr := Suc (next_addr w), mem := bs, discs := (discs w)(p \<mapsto>
          \<lparr>capacity = DISCOVERED_DEVICES_SIZE_STEP, dd_devices = []\<rparr>)\<rparr>"
      by (auto simp: discovered_devs_alloc_def split: prod.splits option.splits dest!: new_block_Some)
    have "refs_ok w1 rs" using assms(2) unfolding w1 p by (auto simp: refs_ok_def fresh_above_def)
    moreover have "discs w1 p = Some \<lparr>capacity = DISCOVERED_DEVICES_SIZE_STEP, dd_devices = []\<rparr>"
      by (simp add: w1)
    ultimately have "array_ok rs p w1" by (simp add: array_ok_def)
    moreover have "ready w1" using ready_alloc [OF assms(1)] Pair by blast
    ultimately obtain r q w2 dd where scan: "scan p w1 = Inr (r, q, w2)" "discs w2 q = Some dd"
      "user_same w1 w2" "refs_ok w2 (rs + mset (dd_devices dd))"
      using scan_law [of w1 rs p] by (auto simp: array_ok_def)
    have u: "dev_arrays w2 = dev_arrays w" "lib_handles w2 = lib_handles w" "open_devs w2 = open_devs w"
      using scan(3) by (simp_all add: user_same_def w1)
    show ?thesis
    proof (cases "r < 0")
      case True
      from discovered_devs_free_ok [OF scan(4,2)] obtain w3 where
        "discovered_devs_free q w2 = Inr w3" "refs_ok w3 rs" "dev_arrays w3 = dev_arrays w2"
        "lib_handles w3 = lib_handles w2" "open_devs w3 = open_devs w2" by auto
      then show ?thesis using True scan Pair Some u
        by (simp add: libusb_get_device_list_def list_result_def)
    next
      case False
      from hand_out_ok [OF scan(2,4)] obtain r' lst w' where
        "hand_out q dd w2 = Inr (r', lst, w')" "list_result rs w2 r' lst w'" by blast
      moreover have "list_result rs w2 r' lst w' = list_result rs w r' lst w'"
        unfolding list_result_def u ..
      ultimately show ?thesis using False scan(1,2) Pair Some
        by (simp add: libusb_get_device_list_def)
    qed
  qed
qed

end


lemma free_device_list_ok:
  assumes "refs_ok w (rs + mset ds)" "dev_arrays w a = Some ds"
  shows "\<exists>w'. libusb_free_device_list (Some a) True w = Inr w' \<and> refs_ok w' rs
    \<and> dev_arrays w' = (dev_arrays w)(a := None) \<and> lib_handles w' = lib_handles w \<and> open_devs w' = open_devs w"
proof -
  from unref_all_ok [OF assms(1), of ds] obtain w1 where
    w1: "unref_all ds w = Inr w1" "refs_ok w1 rs" "same_lists w w1" by auto
  have "fresh_above (w1\<lparr>dev_arrays := (dev_arrays w1)(a := None)\<rparr>)"
    using refs_ok_fresh [OF w1(2)] by (simp add: fresh_above_def)
  then show ?thesis using w1 assms(2)
    by (auto simp: libusb_free_device_list_def same_lists_def intro: refs_ok_cong)
qed

section \<open>Handles\<close>

text \<open>\<open>open_rc\<close> is what the backend answers. While the poll set changes the counter of changes is up by
  one; it is down again when the function returns, whether or not the event handlers could be
  interrupted.\<close>

definition libusb_open :: "int \<Rightarrow> ptr \<Rightarrow> lib_context \<Rightarrow> fault + int \<times> ptr \<times> lib_context" where
  "libusb_open open_rc dev w =
     bindF (deref (lib_devices w) dev) (\<lambda>(d, dv).
       case new_block w of
         (None, w1) \<Rightarrow> Inr (rc LIBUSB_ERROR_NO_MEM, None, w1)
       | (Some h, w1) \<Rightarrow>
           if \<not> mutex_ok w1 then Inr (rc LIBUSB_ERROR_OTHER, None, w1)
           else bindF (libusb_ref_device dev w1) (\<lambda>(d', w2).
             if open_rc < 0
             then bindF (libusb_unref_device dev w2) (\<lambda>w3. Inr (open_rc, None, w3))
             else
               let w3 = w2\<lparr>lib_handles := (lib_handles w2)(h \<mapsto>
                          \<lparr>claimed_interfaces = 0, handle_dev = d'\<rparr>),
                          open_devs := h # open_devs w2, pollfd_modify := pollfd_modify w2 + 1\<rparr>
               in Inr (0, Some h, w3\<lparr>pollfd_modify := pollfd_modify w3 - 1\<rparr>)))"

definition do_close :: "addr \<Rightarrow> lib_context \<Rightarrow> fault + lib_context" where
  "do_close h w =
     (let w1 = w\<lparr>open_devs := remove1 h (open_devs w)\<rparr>
      in bindF (deref (lib_handles w1) (Some h)) (\<lambda>(_, hr).
         bindF (libusb_unref_device (Some (handle_dev hr)) w1) (\<lambda>w2.
           Inr (w2\<lparr>lib_handles := (lib_handles w2)(h := None)\<rparr>))))"

definition libusb_close :: "ptr \<Rightarrow> lib_context \<Rightarrow> fault + lib_context" where
  "libusb_close hp w =
     (if hp = None then Inr w
      else bindF (deref (lib_handles w) hp) (\<lambda>(h, _).
        bindF (do_close h (w\<lparr>pollfd_modify := pollfd_modify w + 1\<rparr>)) (\<lambda>w1.
          Inr (w1\<lparr>pollfd_modify := pollfd_modify w1 - 1\<rparr>))))"

definition libusb_get_device :: "ptr \<Rightarrow> lib_context \<Rightarrow> fault + addr" where
  "libusb_get_device hp w = bindF (deref (lib_handles w) hp) (\<lambda>(_, hr). Inr (handle_dev hr))"

text \<open>The search of \<open>libusb_open_device_with_vid_pid\<close>: it ends without a device when a descriptor cannot
  be read.\<close>

fun find_vid_pid ::
    "(addr \<Rightarrow> int \<times> device_descriptor option) \<Rightarrow> u16 \<Rightarrow> u16 \<Rightarrow> addr list \<Rightarrow> addr option" where
  "find_vid_pid descr vid pid [] = None"
| "find_vid_pid descr vid pid (d # ds) =
     (case descr d of (r, desc) \<Rightarrow>
        if r < 0 then None
        else case desc of
            None \<Rightarrow> None
          | Some dd \<Rightarrow> if idVendor dd = vid \<and> idProduct dd = pid then Some d
                       else find_vid_pid descr vid pid ds)"

definition open_found :: "addr option \<Rightarrow> int \<Rightarrow> lib_context \<Rightarrow> fault + ptr \<times> lib_context" where
  "open_found found open_rc w =
     (if found = None then Inr (None, w)
      else bindF (libusb_open open_rc found w) (\<lambda>(r, h, w1). Inr (if r < 0 then None else h, w1)))"

definition libusb_open_device_with_vid_pid ::
    "device_scan \<Rightarrow> (addr \<Rightarrow> int \<times> device_descriptor option) \<Rightarrow> int \<Rightarrow> u16 \<Rightarrow> u16 \<Rightarrow> lib_context
     \<Rightarrow> fault + ptr \<times> lib_context" where
  "libusb_open_device_with_vid_pid scan descr open_rc vid pid w =
     bindF (libusb_get_device_list scan w) (\<lambda>(r, lst, w1).
       if r < 0 then Inr (None, w1)
       else bindF (deref (dev_arrays w1) lst) (\<lambda>(a, ds).
         bindF (open_found (find_vid_pid descr vid pid ds) open_rc w1) (\<lambda>(h, w2).
         bindF (libusb_free_device_list (Some a) True w2) (\<lambda>w3. Inr (h, w3)))))"

text \<open>The handles that are open hold references of their own.\<close>

definition open_result :: "addr \<Rightarrow> addr multiset \<Rightarrow> lib_context \<Rightarrow> int \<Rightarrow> ptr \<Rightarrow> lib_context \<Rightarrow> bool" where
  "open_result d rs w r h w' \<longleftrightarrow> dev_arrays w' = dev_arrays w \<and> pollfd_modify w' = pollfd_modify w
    \<and> (case h of None \<Rightarrow> r < 0 \<and> refs_ok w' rs \<and> lib_handles w' = lib_handles w \<and> open_devs w' = open_devs w
       | Some h \<Rightarrow> r = 0 \<and> refs_ok w' (add_mset d rs) \<and> lib_handles w h = None
           \<and> lib_handles w' = (lib_handles w)(h \<mapsto> \<lparr>claimed_interfaces = 0, handle_dev = d\<rparr>)
           \<and> open_devs w' = h # open_devs w)"

lemma open_ok:
  assumes "refs_ok w rs" "d \<in># rs"
  shows "\<exists>r h w'. libusb_open open_rc (Some d) w = Inr (r, h, w') \<and> open_result d rs w r h w'"
proof -
  obtain dv where dv: "lib_devices w d = Some dv" using refs_okD [OF assms(1,2)] .
  obtain ho w1 where nb: "new_block w = (ho, w1)" by fastforce
  show ?thesis
  proof (cases ho)
    case None
    with nb obtain bs where "w1 = w\<lparr>mem := bs\<rparr>" by (auto dest: new_block_None)
    then show ?thesis using assms(1) dv nb None
      by (simp add: libusb_open_def open_result_def refs_ok_def fresh_above_def)
  next
    case (Some h)
    with nb obtain bs where h: "h = next_addr w" and
      w1: "w1 = w\<lparr>next_addr := Suc (next_addr w), mem := bs\<rparr>" by (auto dest!: new_block_Some)
    have r1: "refs_ok w1 rs" using assms(1) by (simp add: w1 refs_ok_def fresh_above_def)
    from ref_device_ok [OF r1 assms(2)] obtain w2 where
      w2: "libusb_ref_device (Some d) w1 = Inr (d, w2)" "refs_ok w2 (add_mset d rs)" "same_lists w1 w2" by blast
    from unref_device_ok [OF w2(2), of d] obtain w3 where
      w3: "libusb_unref_device (Some d) w2 = Inr w3" "refs_ok w3 rs" "same_lists w2 w3" by auto
    let ?w = "w2\<lparr>lib_handles := (lib_handles w2)(h \<mapsto> \<lparr>claimed_interfaces = 0, handle_dev = d\<rparr>),
        open_devs := h # open_devs w2, pollfd_modify := pollfd_modify w2\<rparr>"
    have "fresh_above ?w" using refs_ok_fresh [OF w2(2)] w2(3) h
      by (simp add: fresh_above_def same_lists_def w1)
    then have "refs_ok ?w (add_mset d rs)" using w2(2) by (auto intro: refs_ok_cong)
    moreover have "lib_handles w h = None" using refs_ok_fresh [OF assms(1)] h by (simp add: fresh_above_def)
    ultimately show ?thesis using dv nb Some w2 w3 r1
      by (cases "mutex_ok w1"; cases "open_rc < 0")
        (auto simp: libusb_open_def open_result_def same_lists_def w1 Let_def)
  qed
qed


lemma close_ok:
  assumes "refs_ok w (add_mset (handle_dev hr) rs)" "lib_handles w h = Some hr"
  shows "\<exists>w'. libusb_close (Some h) w = Inr w' \<and> refs_ok w' rs \<and> lib_handles w' = (lib_handles w)(h := None)
    \<and> open_devs w' = remove1 h (open_devs w) \<and> dev_arrays w' = dev_arrays w
    \<and> pollfd_modify w' = pollfd_modify w"
proof -
  let ?w = "w\<lparr>pollfd_modify := pollfd_modify w + 1, open_devs := remove1 h (open_devs w)\<rparr>"
  have "refs_ok ?w (add_mset (handle_dev hr) rs)" using assms(1) by (simp add: refs_ok_def fresh_above_def)
  from unref_device_ok [OF this, of "handle_dev hr"] obtain w1 where
    w1: "libusb_unref_device (Some (handle_dev hr)) ?w = Inr w1" "refs_ok w1 rs" "same_lists ?w w1" by auto
  have "fresh_above (w1\<lparr>lib_handles := (lib_handles w1)(h := None), pollfd_modify := pollfd_modify w\<rparr>)"
    using refs_ok_fresh [OF w1(2)] by (simp add: fresh_above_def)
  then show ?thesis using w1 assms(2)
    by (auto simp: libusb_close_def do_close_def same_lists_def Let_def intro: refs_ok_cong)
qed

lemma find_vid_pid_in: "find_vid_pid descr vid pid ds = Some d \<Longrightarrow> d \<in> set ds"
  by (induction ds) (auto split: prod.splits if_splits option.splits)

text \<open>Either a new handle with a reference of its own, or nothing has changed.\<close>

definition opened :: "addr multiset \<Rightarrow> lib_context \<Rightarrow> ptr \<Rightarrow> lib_context \<Rightarrow> bool" where
  "opened rs w h w' \<longleftrightarrow> dev_arrays w' = dev_arrays w
    \<and> (case h of None \<Rightarrow> refs_ok w' rs \<and> lib_handles w' = lib_handles w \<and> open_devs w' = open_devs w
       | Some h \<Rightarrow> \<exists>d. refs_ok w' (add_mset d rs) \<and> open_devs w' = h # open_devs w
           \<and> lib_handles w' = (lib_handles w)(h \<mapsto> \<lparr>claimed_interfaces = 0, handle_dev = d\<rparr>))"

lemma open_found_ok:
  assumes "refs_ok w rs" "\<And>d. found = Some d \<Longrightarrow> d \<in># rs"
  shows "\<exists>h w'. open_found found open_rc w = Inr (h, w') \<and> opened rs w h w'"
proof (cases found)
  case None
  then show ?thesis using assms(1) by (simp add: open_found_def opened_def)
next
  case (Some d)
  from open_ok [OF assms(1) assms(2) [OF this], of open_rc] obtain r h w' where
    "libusb_open open_rc (Some d) w = Inr (r, h, w')" "open_result d rs w r h w'" by blast
  then show ?thesis using Some
    by (cases h) (auto simp: open_found_def open_result_def opened_def)
qed

lemma opened_add:
  assumes "opened (rs + xs) w h w'"
  shows "\<exists>rs'. refs_ok w' (rs' + xs)
    \<and> (case h of None \<Rightarrow> rs' = rs | Some h \<Rightarrow> \<exists>d. rs' = add_mset d rs \<and> open_devs w' = h # open_devs w
           \<and> lib_handles w' = (lib_handles w)(h \<mapsto> \<lparr>claimed_interfaces = 0, handle_dev = d\<rparr>))"
proof (cases h)
  case (Some k)
  with assms obtain d where "refs_ok w' (add_mset d rs + xs)" "open_devs w' = k # open_devs w"
    "lib_handles w' = (lib_handles w)(k \<mapsto> \<lparr>claimed_interfaces = 0, handle_dev = d\<rparr>)"
    by (auto simp: opened_def)
  then show ?thesis unfolding Some option.case by blast
qed (use assms in \<open>auto simp: opened_def\<close>)

context device_scanner
begin

text \<open>Opening by vendor and product gives a handle with one reference, or leaves everything as it was.\<close>

lemma open_vid_pid_ok:
  assumes "ready w" "refs_ok w rs"
  shows "\<exists>h w'. libusb_open_device_with_vid_pid scan descr open_rc vid pid w = Inr (h, w')
    \<and> opened rs w h w'"
proof -
  from device_list_owned [OF assms] obtain r lst w1 where
    l: "libusb_get_device_list scan w = Inr (r, lst, w1)" "list_result rs w r lst w1" by blast
  show ?thesis
  proof (cases lst)
    case None
    then show ?thesis using l
      by (simp add: libusb_open_device_with_vid_pid_def list_result_def opened_def)
  next
    case (Some a)
    with l(2) obtain ds where a: "dev_arrays w1 = (dev_arrays w)(a \<mapsto> ds)" "dev_arrays w a = None"
      "r = int (length ds)" "refs_ok w1 (rs + mset ds)"
      and h1: "lib_handles w1 = lib_handles w" "open_devs w1 = open_devs w"
      by (auto simp: list_result_def)
    let ?found = "find_vid_pid descr vid pid ds"
    have "\<And>d. ?found = Some d \<Longrightarrow> d \<in># rs + mset ds" by (simp add: find_vid_pid_in)
    from open_found_ok [of w1 "rs + mset ds" ?found open_rc, OF a(4) this] obtain h w2 where
      o2: "open_found ?found open_rc w1 = Inr (h, w2)" "opened (rs + mset ds) w1 h w2" by blast
    from opened_add [OF o2(2)] obtain rs' where r2: "refs_ok w2 (rs' + mset ds)" and
      rs': "case h of None \<Rightarrow> rs' = rs | Some h \<Rightarrow> \<exists>d. rs' = add_mset d rs \<and> open_devs w2 = h # open_devs w1
           \<and> lib_handles w2 = (lib_handles w1)(h \<mapsto> \<lparr>claimed_interfaces = 0, handle_dev = d\<rparr>)" by blast
    have "dev_arrays w2 a = Some ds" using o2(2) a(1) by (simp add: opened_def)
    from free_device_list_ok [OF r2 this] obtain w3 where
      w3: "libusb_free_device_list (Some a) True w2 = Inr w3" "refs_ok w3 rs'"
      "dev_arrays w3 = (dev_arrays w2)(a := None)" "lib_handles w3 = lib_handles w2"
      "open_devs w3 = open_devs w2" by auto
    have "libusb_open_device_with_vid_pid scan descr open_rc vid pid w = Inr (h, w3)"
      using l(1) Some a(1,3) o2(1) w3(1) by (simp add: libusb_open_device_with_vid_pid_def)
    moreover have "dev_arrays w3 = dev_arrays w"
      using w3(3) o2(2) a(1,2) by (auto simp: opened_def)
    ultimately show ?thesis using w3 o2(2) h1 rs' by (auto simp: opened_def split: option.splits)
  qed
qed

end

section \<open>Claimed interfaces\<close>

text \<open>The mask of an interface is \<open>1 << interface_number\<close>, an \<open>int\<close> of 32 bits that is then widened to
  the 64 bits of \<open>claimed_interfaces\<close>: a shift by 32 or more is outside the width of \<open>int\<close>.\<close>

definition interface_mask :: "int \<Rightarrow> fault + u64" where
  "interface_mask n =
     (if 0 \<le> n \<and> n < 32 then Inr (scast (push_bit (nat n) 1 :: 32 word)) else Inl OutOfBounds)"

text \<open>The number is compared with an unsigned size: a negative one is too large.\<close>

definition valid_interface :: "int \<Rightarrow> bool" where
  "valid_interface n \<longleftrightarrow> 0 \<le> n \<and> n < 64"

definition put_handle :: "addr \<Rightarrow> lib_handle \<Rightarrow> lib_context \<Rightarrow> lib_context" where
  "put_handle h hr w = w\<lparr>lib_handles := (lib_handles w)(h \<mapsto> hr)\<rparr>"

definition libusb_claim_interface :: "int \<Rightarrow> ptr \<Rightarrow> int \<Rightarrow> lib_context \<Rightarrow> fault + int \<times> lib_context" where
  "libusb_claim_interface claim_rc dev n w =
     (if \<not> valid_interface n then Inr (rc LIBUSB_ERROR_INVALID_PARAM, w)
      else bindF (deref (lib_handles w) dev) (\<lambda>(h, hr).
        bindF (interface_mask n) (\<lambda>m.
          if claimed_interfaces hr AND m \<noteq> 0 then Inr (0, w)
          else if claim_rc = 0
          then Inr (0, put_handle h (hr\<lparr>claimed_interfaces := claimed_interfaces hr OR m\<rparr>) w)
          else Inr (claim_rc, w))))"

definition libusb_release_interface :: "int \<Rightarrow> ptr \<Rightarrow> int \<Rightarrow> lib_context \<Rightarrow> fault + int \<times> lib_context" where
  "libusb_release_interface release_rc dev n w =
     (if \<not> valid_interface n then Inr (rc LIBUSB_ERROR_INVALID_PARAM, w)
      else bindF (deref (lib_handles w) dev) (\<lambda>(h, hr).
        bindF (interface_mask n) (\<lambda>m.
          if claimed_interfaces hr AND m = 0 then Inr (rc LIBUSB_ERROR_NOT_FOUND, w)
          else if release_rc = 0
          then Inr (0, put_handle h (hr\<lparr>claimed_interfaces := claimed_interfaces hr AND NOT m\<rparr>) w)
          else Inr (release_rc, w))))"

definition libusb_set_interface_alt_setting ::
    "int \<Rightarrow> ptr \<Rightarrow> int \<Rightarrow> lib_context \<Rightarrow> fault + int" where
  "libusb_set_interface_alt_setting set_rc dev n w =
     (if \<not> valid_interface n then Inr (rc LIBUSB_ERROR_INVALID_PARAM)
      else bindF (deref (lib_handles w) dev) (\<lambda>(h, hr).
        bindF (interface_mask n) (\<lambda>m.
          if claimed_interfaces hr AND m = 0 then Inr (rc LIBUSB_ERROR_NOT_FOUND)
          else Inr set_rc)))"

text \<open>The interfaces a handle counts as claimed.\<close>

definition claimed :: "lib_handle \<Rightarrow> nat set" where
  "claimed hr = {n. n < 64 \<and> bit (claimed_interfaces hr) n}"


lemma widened_bit:
  "i < 32 \<Longrightarrow> bit (scast (push_bit i 1 :: 32 word) :: u64) k \<longleftrightarrow> k < 64 \<and> (k = i \<or> i = 31 \<and> 31 \<le> k)"
  by (auto simp: bit_simps)

lemma interface_mask_bit:
  assumes "0 \<le> n" "n < 31"
  obtains m where "interface_mask n = Inr m" "\<forall>k<64. bit m k \<longleftrightarrow> k = nat n"
proof (rule that)
  show "interface_mask n = Inr (scast (push_bit (nat n) 1 :: 32 word))"
    using assms by (simp add: interface_mask_def)
  show "\<forall>k<64. bit (scast (push_bit (nat n) 1 :: 32 word) :: u64) k \<longleftrightarrow> k = nat n"
    using widened_bit [of "nat n"] assms by auto
qed

lemma mask_and_zero:
  fixes c m :: u64
  assumes "\<forall>k<64. bit m k \<longleftrightarrow> k = i" "i < 64"
  shows "c AND m = 0 \<longleftrightarrow> \<not> bit c i"
proof
  assume "c AND m = 0"
  then have "\<not> bit (c AND m) i" by simp
  then show "\<not> bit c i" using assms by (simp add: bit_simps)
next
  assume "\<not> bit c i"
  then show "c AND m = 0" using assms by (intro bit_word_eqI) (auto simp: bit_simps)
qed

lemma claim_run:
  assumes "lib_handles w h = Some hr" "0 \<le> n" "n < 31"
  shows "\<exists>w' hr'. libusb_claim_interface c (Some h) n w = Inr (if nat n \<in> claimed hr then 0 else c, w')
    \<and> lib_handles w' = (lib_handles w)(h \<mapsto> hr') \<and> handle_dev hr' = handle_dev hr
    \<and> claimed hr' = (if c = 0 then insert (nat n) (claimed hr) else claimed hr)"
proof -
  obtain m where m: "interface_mask n = Inr m" "\<forall>k<64. bit m k \<longleftrightarrow> k = nat n"
    using interface_mask_bit [OF assms(2,3)] .
  have v: "valid_interface n" and l: "nat n < 64" using assms by (simp_all add: valid_interface_def)
  have z: "claimed_interfaces hr AND m = 0 \<longleftrightarrow> nat n \<notin> claimed hr"
    using mask_and_zero [OF m(2) l] l by (simp add: claimed_def)
  have "claimed (hr\<lparr>claimed_interfaces := claimed_interfaces hr OR m\<rparr>) = insert (nat n) (claimed hr)"
    using m(2) assms by (auto simp: claimed_def bit_simps)
  moreover have "(lib_handles w)(h \<mapsto> hr) = lib_handles w" using assms(1) by auto
  ultimately show ?thesis using assms(1) m(1) v z
    by (cases "nat n \<in> claimed hr"; cases "c = 0")
      (auto simp: libusb_claim_interface_def put_handle_def insert_absorb intro: exI [of _ hr])
qed

lemma release_run:
  assumes "lib_handles w h = Some hr" "0 \<le> n" "n < 31"
  shows "\<exists>w' hr'. libusb_release_interface c (Some h) n w
      = Inr (if nat n \<in> claimed hr then c else rc LIBUSB_ERROR_NOT_FOUND, w')
    \<and> lib_handles w' = (lib_handles w)(h \<mapsto> hr') \<and> handle_dev hr' = handle_dev hr
    \<and> claimed hr' = (if c = 0 then claimed hr - {nat n} else claimed hr)"
proof -
  obtain m where m: "interface_mask n = Inr m" "\<forall>k<64. bit m k \<longleftrightarrow> k = nat n"
    using interface_mask_bit [OF assms(2,3)] .
  have v: "valid_interface n" and l: "nat n < 64" using assms by (simp_all add: valid_interface_def)
  have z: "claimed_interfaces hr AND m = 0 \<longleftrightarrow> nat n \<notin> claimed hr"
    using mask_and_zero [OF m(2) l] l by (simp add: claimed_def)
  have "claimed (hr\<lparr>claimed_interfaces := claimed_interfaces hr AND NOT m\<rparr>) = claimed hr - {nat n}"
    using m(2) assms by (auto simp: claimed_def bit_simps)
  moreover have "(lib_handles w)(h \<mapsto> hr) = lib_handles w" using assms(1) by auto
  ultimately show ?thesis using assms(1) m(1) v z
    by (cases "nat n \<in> claimed hr"; cases "c = 0")
      (auto simp: libusb_release_interface_def put_handle_def intro: exI [of _ hr])
qed

text \<open>Claiming and releasing keep the set of claimed interfaces. Claiming an interface below 31 adds
  it to the set when the backend agrees, and asks the backend only if it is not in the set;
  releasing it afterwards gives the set as it was, and an interface that is not claimed is not
  released.\<close>

theorem claim_release_set:
  assumes "lib_handles w h = Some hr" "0 \<le> n" "n < 31"
  shows "\<exists>w1 hr1 w2 hr2. libusb_claim_interface 0 (Some h) n w = Inr (0, w1)
    \<and> lib_handles w1 h = Some hr1 \<and> claimed hr1 = insert (nat n) (claimed hr)
    \<and> libusb_release_interface 0 (Some h) n w1 = Inr (0, w2)
    \<and> lib_handles w2 h = Some hr2 \<and> claimed hr2 = claimed hr - {nat n}
    \<and> libusb_release_interface 0 (Some h) n w2 = Inr (rc LIBUSB_ERROR_NOT_FOUND, w2)"
proof -
  from claim_run [OF assms, of 0] obtain w1 hr1 where
    1: "libusb_claim_interface 0 (Some h) n w = Inr (0, w1)" "lib_handles w1 h = Some hr1"
    "claimed hr1 = insert (nat n) (claimed hr)" by auto
  from release_run [OF 1(2) assms(2,3), of 0] 1(3) obtain w2 hr2 where
    2: "libusb_release_interface 0 (Some h) n w1 = Inr (0, w2)" "lib_handles w2 h = Some hr2"
    "claimed hr2 = claimed hr - {nat n}" by auto
  have v: "valid_interface n" using assms by (simp add: valid_interface_def)
  obtain m where m: "interface_mask n = Inr m" "\<forall>k<64. bit m k \<longleftrightarrow> k = nat n"
    using interface_mask_bit [OF assms(2,3)] .
  have l: "nat n < 64" and no: "nat n \<notin> claimed hr2" using assms 2(3) by simp_all
  then have "claimed_interfaces hr2 AND m = 0"
    using mask_and_zero [OF m(2) l, of "claimed_interfaces hr2"] by (simp add: claimed_def)
  then have "libusb_release_interface 0 (Some h) n w2 = Inr (rc LIBUSB_ERROR_NOT_FOUND, w2)"
    using v m(1) 2(2) by (simp add: libusb_release_interface_def)
  with 1 2 show ?thesis by blast
qed

definition one_handle :: lib_context where
  "one_handle = \<lparr>usb_devs = [1], open_devs = [2], lib_devices = [1 \<mapsto> \<lparr>refcnt = 1, bus_number = 1,
       device_address = 3, num_configurations = 1, session_data = 259, os_priv = zero_priv\<rparr>],
     lib_handles = [2 \<mapsto> \<lparr>claimed_interfaces = 0, handle_dev = 1\<rparr>], discs = Map.empty,
     dev_arrays = Map.empty, next_addr = 3, mem = [], mutex_ok = True, destroyed = [], pollfd_modify = 0,
     sysfs_has_descriptors = 1, sysfs_can_relate_devices = 1\<rparr>"

theorem claim_release_set_witness:
  "\<exists>w1 hr1. libusb_claim_interface 0 (Some 2) 4 one_handle = Inr (0, w1)
     \<and> lib_handles w1 2 = Some hr1 \<and> claimed hr1 = {4}"
proof -
  have "lib_handles one_handle 2 = Some \<lparr>claimed_interfaces = 0, handle_dev = 1\<rparr>"
    "claimed \<lparr>claimed_interfaces = 0, handle_dev = 1\<rparr> = {}"
    by (simp_all add: one_handle_def claimed_def)
  with claim_release_set [of one_handle 2 _ 4] show ?thesis by auto
qed

text \<open>Interface 31 sets the sign bit of the mask, which widening spreads over the upper half: all
  interfaces from 31 on count as claimed.\<close>

lemma interface_mask_top:
  "i = 31 \<Longrightarrow> \<exists>m. interface_mask (int i) = Inr m \<and> (\<forall>k<64. bit m k \<longleftrightarrow> i \<le> k)"
  using widened_bit [of i] by (auto simp: interface_mask_def simp del: One_nat_def)

lemma claim_31_claims_more:
  assumes "lib_handles w h = Some hr" "claimed_interfaces hr = 0"
  shows "\<exists>w' hr'. libusb_claim_interface 0 (Some h) 31 w = Inr (0, w') \<and> lib_handles w' h = Some hr'
    \<and> claimed hr' = {31..<64}"
proof -
  obtain m where m: "interface_mask 31 = Inr m" "\<forall>k<64. bit m k \<longleftrightarrow> 31 \<le> k"
    using interface_mask_top [OF refl] by auto
  have "claimed (hr\<lparr>claimed_interfaces := m\<rparr>) = {31..<64}" using m(2) by (auto simp: claimed_def)
  then show ?thesis using assms m(1)
    by (simp add: libusb_claim_interface_def valid_interface_def put_handle_def)
qed

end
