(* ===== verification/Sysfs.thy ===== *)
theory Sysfs
  imports Core Config_Format Vendors
begin

text \<open>
  How the Linux backend reads descriptors (\<open>linux_usbfs.c\<close>): from the files of a device in sysfs, from the
  device node of usbfs, or from the copies it keeps. The file system is an argument: what opening a path
  for reading, or for reading and writing, gives. An open file has its bytes and a position; reading a
  bad file fails. Integers are those of a 64-bit host.
\<close>

section \<open>Files\<close>

record sys_file =
  file_bytes :: "u8 list"
  file_bad :: bool

record file_des = sys_file +
  file_pos :: nat

text \<open>The environment: opening a path gives the file or \<open>errno\<close>; the entries of a directory in the order
  of \<open>readdir\<close>, or none if it cannot be opened; the paths that are regular files and those that are
  directories; the answer of a device node to a request for its configuration; the path of usbfs; the byte order; and what the
  stack and a block for a new device hold before they are written.\<close>

record linux_env =
  open_read :: "string \<Rightarrow> int + sys_file"
  open_write :: "string \<Rightarrow> int + sys_file"
  dir_entries :: "string \<Rightarrow> string list option"
  is_regular :: "string \<Rightarrow> bool"
  is_directory :: "string \<Rightarrow> bool"
  ask_configuration :: "string \<Rightarrow> int + u8"
  usbfs_path :: string
  big_endian :: bool
  stack_bytes :: "nat \<Rightarrow> u8"
  fresh_device :: lib_device

definition opened_file :: "sys_file \<Rightarrow> file_des" where
  "opened_file f = \<lparr>file_bytes = file_bytes f, file_bad = file_bad f, file_pos = 0\<rparr>"

definition read_fd :: "nat \<Rightarrow> file_des \<Rightarrow> int \<times> u8 list \<times> file_des" where
  "read_fd n f =
     (if file_bad f then (-1, [], f)
      else let bs = take n (drop (file_pos f) (file_bytes f))
           in (int (length bs), bs, f\<lparr>file_pos := file_pos f + length bs\<rparr>))"

definition lseek_set :: "nat \<Rightarrow> file_des \<Rightarrow> int \<times> file_des" where
  "lseek_set off f = (int off, f\<lparr>file_pos := off\<rparr>)"

definition lseek_cur :: "int \<Rightarrow> file_des \<Rightarrow> int \<times> file_des" where
  "lseek_cur off f =
     (if int (file_pos f) + off < 0 then (-1, f)
      else (int (file_pos f) + off, f\<lparr>file_pos := nat (int (file_pos f) + off)\<rparr>))"

definition lseek_end :: "file_des \<Rightarrow> int \<times> file_des" where
  "lseek_end f = (int (length (file_bytes f)), f\<lparr>file_pos := length (file_bytes f)\<rparr>)"

definition PATH_MAX :: nat where "PATH_MAX = 4096"
definition DEVICE_DESC_LENGTH :: nat where "DEVICE_DESC_LENGTH = 18"
definition SYSFS_DEVICE_PATH :: string where "SYSFS_DEVICE_PATH = ''/sys/bus/usb/devices''"

definition EACCES :: int where "EACCES = 13"
definition ENOENT :: int where "ENOENT = 2"
definition ENODEV :: int where "ENODEV = 19"

text \<open>\<open>%03d\<close> of an 8-bit number.\<close>

definition pad3 :: "u8 \<Rightarrow> string" where
  "pad3 b = map (\<lambda>k. char_of (48 + k)) [unat b div 100, unat b div 10 mod 10, unat b mod 10]"

definition get_usbfs_path :: "linux_env \<Rightarrow> u8 \<Rightarrow> u8 \<Rightarrow> string" where
  "get_usbfs_path env bus address =
     snprintf_s PATH_MAX (usbfs_path env @ ''/'' @ pad3 bus @ ''/'' @ pad3 address)"

definition sysfs_path :: "string \<Rightarrow> string \<Rightarrow> string" where
  "sysfs_path dir attr = snprintf_s PATH_MAX (SYSFS_DEVICE_PATH @ ''/'' @ dir @ ''/'' @ attr)"

section \<open>Numbers in text\<close>

text \<open>\<open>strtol\<close> with base 10: the value and whether there was a digit. A \<open>long\<close> has 64 bits; the value is
  cut to the \<open>int\<close> it is stored in.\<close>

definition LONG_MAX :: int where "LONG_MAX = 2 ^ 63 - 1"

definition strtol10 :: "string \<Rightarrow> int \<times> bool" where
  "strtol10 s =
     (let s1 = dropWhile is_space s;
          neg = (s1 \<noteq> [] \<and> hd s1 = CHR ''-'');
          s2 = (if s1 \<noteq> [] \<and> (hd s1 = CHR ''-'' \<or> hd s1 = CHR ''+'') then tl s1 else s1);
          ds = takeWhile (is_digit 10) s2;
          v = (if neg then - digits_val 10 ds else digits_val 10 ds)
      in (max (- LONG_MAX - 1) (min LONG_MAX v), ds \<noteq> []))"

definition to_int :: "int \<Rightarrow> int" where
  "to_int v = signed_take_bit 31 v"

definition atoi :: "string \<Rightarrow> int" where
  "atoi s = to_int (fst (strtol10 s))"

text \<open>\<open>fscanf\<close> with \<open>%d\<close>.\<close>

definition scan_int :: "sys_file \<Rightarrow> int option" where
  "scan_int f =
     (let (v, found) = strtol10 (bytes_str (file_bytes f))
      in if file_bad f \<or> \<not> found then None else Some (to_int v))"

section \<open>Descriptors of a device\<close>

text \<open>Printing a device without a directory in sysfs with \<open>%s\<close> follows a null pointer.\<close>

definition open_sysfs_attr :: "linux_env \<Rightarrow> linux_device_priv \<Rightarrow> string \<Rightarrow> fault + file_des option" where
  "open_sysfs_attr env priv attr =
     (case priv_sysfs_dir priv of
        None \<Rightarrow> Inl NullDeref
      | Some dir \<Rightarrow> Inr (case open_read env (sysfs_path dir attr) of
            Inl _ \<Rightarrow> None
          | Inr f \<Rightarrow> Some (opened_file f)))"

definition usbfs_get_device_descriptor :: "linux_device_priv \<Rightarrow> fault + int \<times> u8 list" where
  "usbfs_get_device_descriptor priv =
     (case priv_dev_descriptor priv of
        None \<Rightarrow> Inl NullDeref
      | Some bs \<Rightarrow> bindF (copy_bytes bs 0 DEVICE_DESC_LENGTH) (\<lambda>x. Inr (0, x)))"

definition sysfs_get_device_descriptor :: "linux_env \<Rightarrow> linux_device_priv \<Rightarrow> fault + int \<times> u8 list" where
  "sysfs_get_device_descriptor env priv =
     bindF (open_sysfs_attr env priv ''descriptors'') (\<lambda>fd.
       case fd of
         None \<Rightarrow> Inr (rc LIBUSB_ERROR_IO, [])
       | Some f \<Rightarrow> (case read_fd DEVICE_DESC_LENGTH f of (r, bs, _) \<Rightarrow>
           if r < 0 then Inr (rc LIBUSB_ERROR_IO, bs)
           else if r < int DEVICE_DESC_LENGTH then Inr (rc LIBUSB_ERROR_IO, bs)
           else Inr (0, bs)))"

text \<open>The code, the bytes and whether the words are in host order.\<close>

definition op_get_device_descriptor ::
    "linux_env \<Rightarrow> linux_device_priv \<Rightarrow> lib_context \<Rightarrow> fault + int \<times> u8 list \<times> bool" where
  "op_get_device_descriptor env priv w =
     (if sysfs_has_descriptors w \<noteq> 0
      then bindF (sysfs_get_device_descriptor env priv) (\<lambda>(r, bs). Inr (r, bs, False))
      else bindF (usbfs_get_device_descriptor priv) (\<lambda>(r, bs). Inr (r, bs, True)))"

definition usbfs_get_active_config_descriptor :: "linux_device_priv \<Rightarrow> nat \<Rightarrow> fault + int \<times> u8 list" where
  "usbfs_get_active_config_descriptor priv len =
     (case priv_config_descriptor priv of
        None \<Rightarrow> Inr (rc LIBUSB_ERROR_NOT_FOUND, [])
      | Some bs \<Rightarrow> bindF (copy_bytes bs 0 len) (\<lambda>x. Inr (0, x)))"

text \<open>The configuration value: the code and what is stored in \<open>config\<close>, if it is stored. The result of
  \<open>read\<close> is kept unsigned, so that a failed read looks like a long one; the buffer is then still zero.\<close>

definition sysfs_get_active_config :: "linux_env \<Rightarrow> linux_device_priv \<Rightarrow> fault + int \<times> int option" where
  "sysfs_get_active_config env priv =
     bindF (open_sysfs_attr env priv ''bConfigurationValue'') (\<lambda>fd.
       case fd of
         None \<Rightarrow> Inr (rc LIBUSB_ERROR_IO, None)
       | Some f \<Rightarrow> (case read_fd 4 f of (r, bs, _) \<Rightarrow>
           let tmp = filled (\<lambda>_. 0) 4 bs in
           if r = 0 then Inr (0, Some (-1))
           else if tmp ! 3 \<noteq> 0 then Inr (rc LIBUSB_ERROR_IO, None)
           else if tmp ! 0 = 0 then Inr (rc LIBUSB_ERROR_IO, None)
           else case strtol10 (cstr (bytes_str tmp)) of (num, found) \<Rightarrow>
             if \<not> found then Inr (rc LIBUSB_ERROR_IO, None) else Inr (0, Some (to_int num))))"

section \<open>Configurations in a file\<close>

text \<open>
  From the start of a configuration to the next one. The distance is \<open>wTotalLength - 6\<close> from behind the
  header: for a total length below 6 the unsigned difference is a negative offset.
\<close>

definition seek_to_next_config :: "bool \<Rightarrow> bool \<Rightarrow> file_des \<Rightarrow> fault + int \<times> file_des" where
  "seek_to_next_config big host_endian f =
     (case read_fd 6 f of (r, tmp, f1) \<Rightarrow>
        if r < 0 then Inr (rc LIBUSB_ERROR_IO, f1)
        else if r < 6 then Inr (rc LIBUSB_ERROR_IO, f1)
        else bindF (usbi_parse_descriptor big tmp 0 ''bbwbb'' host_endian) (\<lambda>(fs, _).
          case lseek_cur (uint (half_of (fs ! 2)) - 6) f1 of (off, f2) \<Rightarrow>
            if off < 0 then Inr (rc LIBUSB_ERROR_IO, f2) else Inr (0, f2)))"

text \<open>The search for the active configuration: the code, the header found and the file. It need not end;
  then the value is \<open>None\<close>.\<close>

partial_function (option) find_config ::
    "bool \<Rightarrow> int \<Rightarrow> file_des \<Rightarrow> (fault + int \<times> u8 list \<times> file_des) option" where
  "find_config big config f =
     (case read_fd 6 f of (r, tmp, f1) \<Rightarrow>
        if r < 0 then Some (Inr (rc LIBUSB_ERROR_IO, tmp, f1))
        else if r < 6 then Some (Inr (rc LIBUSB_ERROR_IO, tmp, f1))
        else if uint (tmp ! 5) = config then Some (Inr (0, tmp, f1))
        else (case lseek_cur (-6) f1 of (off, f2) \<Rightarrow>
          if off < 0 then Some (Inr (rc LIBUSB_ERROR_IO, tmp, f2))
          else (case seek_to_next_config big True f2 of
              Inl e \<Rightarrow> Some (Inl e)
            | Inr (r', f3) \<Rightarrow> if r' < 0 then Some (Inr (r', tmp, f3)) else find_config big config f3)))"

text \<open>What follows the header found is read into the buffer; the result of the last \<open>read\<close> is returned, so
  that success with more than a header is the number of bytes behind it.\<close>

definition copy_active :: "nat \<Rightarrow> u8 list \<Rightarrow> file_des \<Rightarrow> int \<times> u8 list" where
  "copy_active len tmp f =
     (if len > 6
      then (case read_fd (len - 6) f of (r, bs, _) \<Rightarrow>
        if r < 0 then (rc LIBUSB_ERROR_IO, tmp)
        else if r = 0 then (rc LIBUSB_ERROR_NOT_FOUND, tmp)
        else if r < int (len - 6) then (rc LIBUSB_ERROR_IO, tmp @ bs)
        else (r, tmp @ bs))
      else (0, take len tmp))"

definition active_in_file :: "bool \<Rightarrow> int \<Rightarrow> nat \<Rightarrow> file_des \<Rightarrow> (fault + int \<times> u8 list) option" where
  "active_in_file big config len f =
     (case lseek_end f of (off, f1) \<Rightarrow>
        if off < 1 then Some (Inr (rc LIBUSB_ERROR_IO, []))
        else if off = int DEVICE_DESC_LENGTH then Some (Inr (rc LIBUSB_ERROR_NOT_FOUND, []))
        else (case lseek_set DEVICE_DESC_LENGTH f1 of (off, f2) \<Rightarrow>
          if off < 0 then Some (Inr (rc LIBUSB_ERROR_IO, []))
          else (case find_config big config f2 of
              None \<Rightarrow> None
            | Some found \<Rightarrow> Some (bindF found (\<lambda>(r, tmp, f3).
                Inr (if r < 0 then (r, []) else copy_active len tmp f3))))))"

definition sysfs_get_active_config_descriptor ::
    "linux_env \<Rightarrow> linux_device_priv \<Rightarrow> nat \<Rightarrow> (fault + int \<times> u8 list) option" where
  "sysfs_get_active_config_descriptor env priv len =
     (case sysfs_get_active_config env priv of
        Inl e \<Rightarrow> Some (Inl e)
      | Inr (r, None) \<Rightarrow> Some (Inr (r, []))
      | Inr (r, Some config) \<Rightarrow>
          if r < 0 then Some (Inr (r, []))
          else if config = -1 then Some (Inr (rc LIBUSB_ERROR_NOT_FOUND, []))
          else (case open_sysfs_attr env priv ''descriptors'' of
              Inl e \<Rightarrow> Some (Inl e)
            | Inr None \<Rightarrow> Some (Inr (rc LIBUSB_ERROR_IO, []))
            | Inr (Some f) \<Rightarrow> active_in_file (big_endian env) config len f))"

definition op_get_active_config_descriptor ::
    "linux_env \<Rightarrow> linux_device_priv \<Rightarrow> lib_context \<Rightarrow> nat \<Rightarrow> (fault + int \<times> u8 list) option" where
  "op_get_active_config_descriptor env priv w len =
     (if sysfs_has_descriptors w \<noteq> 0 then sysfs_get_active_config_descriptor env priv len
      else Some (usbfs_get_active_config_descriptor priv len))"

fun skip_configs :: "bool \<Rightarrow> nat \<Rightarrow> file_des \<Rightarrow> fault + int \<times> file_des" where
  "skip_configs big 0 f = Inr (0, f)"
| "skip_configs big (Suc k) f =
     bindF (seek_to_next_config big False f) (\<lambda>(r, f1).
       if r < 0 then Inr (r, f1) else skip_configs big k f1)"

definition get_config_descriptor :: "bool \<Rightarrow> file_des \<Rightarrow> nat \<Rightarrow> nat \<Rightarrow> fault + int \<times> u8 list" where
  "get_config_descriptor big f config_index len =
     (case lseek_set DEVICE_DESC_LENGTH f of (off, f1) \<Rightarrow>
        if off < 0 then Inr (rc LIBUSB_ERROR_IO, [])
        else bindF (skip_configs big config_index f1) (\<lambda>(r, f2).
          if r < 0 then Inr (r, [])
          else (case read_fd len f2 of (r, bs, _) \<Rightarrow>
            if r < 0 then Inr (rc LIBUSB_ERROR_IO, bs)
            else if r < int len then Inr (rc LIBUSB_ERROR_IO, bs)
            else Inr (0, bs))))"

definition op_get_config_descriptor ::
    "linux_env \<Rightarrow> lib_device \<Rightarrow> nat \<Rightarrow> nat \<Rightarrow> fault + int \<times> u8 list" where
  "op_get_config_descriptor env dv config_index len =
     (case open_read env (get_usbfs_path env (bus_number dv) (device_address dv)) of
        Inl _ \<Rightarrow> Inr (rc LIBUSB_ERROR_IO, [])
      | Inr f \<Rightarrow> get_config_descriptor (big_endian env) (opened_file f) config_index len)"

section \<open>Files of configurations\<close>

text \<open>A configuration as its bytes: a header at least, and the total length in it is right.\<close>

definition good_image :: "u8 list \<Rightarrow> bool" where
  "good_image c \<longleftrightarrow> 6 \<le> length c \<and> unat (of_le16 (c ! 2) (c ! 3)) = length c"

text \<open>An open file that holds \<open>pre\<close>, at its end, and then \<open>rest\<close>.\<close>

definition at_image :: "u8 list \<Rightarrow> u8 list \<Rightarrow> file_des" where
  "at_image pre rest = \<lparr>file_bytes = pre @ rest, file_bad = False, file_pos = length pre\<rparr>"

lemma read_at_image: "read_fd n (at_image pre rest) =
    (int (length (take n rest)), take n rest, at_image (pre @ take n rest) (drop n rest))"
  by (simp add: read_fd_def at_image_def Let_def)

lemma back_at_image: "length h = 6 \<Longrightarrow>
    lseek_cur (-6) (at_image (pre @ h) rest) = (int (length pre), at_image pre (h @ rest))"
  by (simp add: lseek_cur_def at_image_def)

lemma parse_header:
  assumes "length tmp = 6"
  shows "\<exists>fs n. usbi_parse_descriptor big tmp 0 ''bbwbb'' he = Inr (fs, n)
    \<and> half_of (fs ! 2) = (if he \<and> big then of_le16 (tmp ! 3) (tmp ! 2) else of_le16 (tmp ! 2) (tmp ! 3))"
  using assms by (simp add: rd_def eval_nat_numeral)

lemma seek_next_good:
  assumes "good_image c" "\<not> (big \<and> he)"
  shows "seek_to_next_config big he (at_image pre (c @ rest)) = Inr (0, at_image (pre @ c) rest)"
proof -
  have c: "6 \<le> length c" "uint (of_le16 (c ! 2) (c ! 3)) = int (length c)"
    using assms(1) unfolding good_image_def uint_nat by simp_all
  obtain fs n where p: "usbi_parse_descriptor big (take 6 c) 0 ''bbwbb'' he = Inr (fs, n)"
    "half_of (fs ! 2) = of_le16 (c ! 2) (c ! 3)"
    using parse_header [of "take 6 c" big he] c(1) assms(2) by (auto simp: rd_def)
  show ?thesis using c p
    by (simp add: seek_to_next_config_def read_at_image lseek_cur_def) (simp add: at_image_def)
qed

text \<open>The reader of a header never faults: it parses only whole headers.\<close>

lemma seek_next_no_fault: "\<exists>r f'. seek_to_next_config big he f = Inr (r, f')"
proof (cases "read_fd 6 f")
  case (fields r tmp f1)
  show ?thesis
  proof (cases "r < 6")
    case False
    then have "length tmp = 6" using fields by (auto simp: read_fd_def Let_def split: if_splits)
    with parse_header [OF this, of big he] fields False show ?thesis
      by (auto simp: seek_to_next_config_def split: prod.splits)
  qed (simp add: seek_to_next_config_def fields)
qed

lemma skip_no_fault: "\<exists>r f'. skip_configs big k f = Inr (r, f')"
proof (induction k arbitrary: f)
  case (Suc k)
  obtain r f1 where "seek_to_next_config big False f = Inr (r, f1)" using seek_next_no_fault by blast
  then show ?case using Suc [of f1] by simp
qed simp

lemma get_config_no_fault: "\<exists>r bs. get_config_descriptor big f i len = Inr (r, bs)"
proof -
  obtain r f' where "skip_configs big i (snd (lseek_set DEVICE_DESC_LENGTH f)) = Inr (r, f')"
    using skip_no_fault by blast
  then show ?thesis by (auto simp: get_config_descriptor_def lseek_set_def split: prod.splits)
qed

lemma skip_good:
  assumes "list_all good_image cs"
  shows "skip_configs big (length cs) (at_image pre (concat cs @ rest))
    = Inr (0, at_image (pre @ concat cs) rest)"
  using assms by (induction cs arbitrary: pre) (simp_all add: seek_next_good)

lemma find_config_here:
  assumes "good_image c" "uint (c ! 5) = v"
  shows "find_config big v (at_image pre (c @ rest))
    = Some (Inr (0, take 6 c, at_image (pre @ take 6 c) (drop 6 c @ rest)))"
proof -
  have "6 \<le> length c" using assms(1) by (simp add: good_image_def)
  then show ?thesis using assms(2) by (subst find_config.simps) (simp add: read_at_image)
qed

lemma find_config_next:
  assumes "good_image c" "uint (c ! 5) \<noteq> v" "\<not> big"
  shows "find_config big v (at_image pre (c @ rest)) = find_config big v (at_image (pre @ c) rest)"
proof -
  have c: "6 \<le> length c" using assms(1) by (simp add: good_image_def)
  then have bk: "lseek_cur (-6) (at_image (pre @ take 6 c) (drop 6 c @ rest))
      = (int (length pre), at_image pre (c @ rest))"
    using back_at_image [of "take 6 c" pre "drop 6 c @ rest"] by (simp flip: append_assoc)
  show ?thesis using assms c bk seek_next_good [OF assms(1), of big True pre rest]
    by (subst find_config.simps) (simp add: read_at_image)
qed

lemma find_config_end: "find_config big v (at_image pre [])
    = Some (Inr (rc LIBUSB_ERROR_IO, [], at_image pre []))"
  by (subst find_config.simps) (simp add: read_at_image)

text \<open>The search through whole configurations: the first with the value, or an error at the end.\<close>

lemma find_config_images:
  assumes "list_all good_image cs"
  shows "find_config False v (at_image pre (concat cs)) = Some (Inr
    (case List.find (\<lambda>c. uint (c ! 5) = v) cs of
       None \<Rightarrow> (rc LIBUSB_ERROR_IO, [], at_image (pre @ concat cs) [])
     | Some c \<Rightarrow> let ahead = concat (takeWhile (\<lambda>c. uint (c ! 5) \<noteq> v) cs)
                 in (0, take 6 c, at_image (pre @ ahead @ take 6 c)
                      (drop (length ahead + 6) (concat cs)))))"
  using assms
proof (induction cs arbitrary: pre)
  case (Cons c cs)
  show ?case
  proof (cases "uint (c ! 5) = v")
    case True
    then show ?thesis using find_config_here [of c v False pre "concat cs"] Cons.prems
      by (simp add: good_image_def)
  next
    case False
    then show ?thesis
      using find_config_next [of c v False pre "concat cs"] Cons.IH [of "pre @ c"] Cons.prems
      by (simp add: Let_def split: option.splits)
  qed
qed (simp add: find_config_end)

text \<open>A configuration of total length 0 that is not the active one: the search reads it again and again.\<close>

definition stuck :: "bool \<Rightarrow> int \<Rightarrow> file_des \<Rightarrow> bool" where
  "stuck big v f \<longleftrightarrow> (\<exists>tmp f1. read_fd 6 f = (6, tmp, f1) \<and> length tmp = 6 \<and> uint (tmp ! 5) \<noteq> v
     \<and> tmp ! 2 = 0 \<and> tmp ! 3 = 0 \<and> \<not> file_bad f)"

lemma read_pos: "read_fd 6 f = (6, tmp, f1) \<Longrightarrow> f1 = f\<lparr>file_pos := file_pos f + 6\<rparr>"
  by (auto simp: read_fd_def Let_def split: if_splits)

lemma stuck_seek:
  assumes "stuck big v f"
  shows "seek_to_next_config big True f = Inr (0, f)"
proof -
  obtain tmp f1 where t: "read_fd 6 f = (6, tmp, f1)" "length tmp = 6" "tmp ! 2 = 0" "tmp ! 3 = 0"
    using assms by (auto simp: stuck_def)
  obtain fs n where "usbi_parse_descriptor big tmp 0 ''bbwbb'' True = Inr (fs, n)" "half_of (fs ! 2) = 0"
    using parse_header [OF t(2), of big True] t(3,4) by (auto simp: of_le16_def)
  then show ?thesis using t(1) read_pos [OF t(1)]
    by (simp add: seek_to_next_config_def lseek_cur_def)
qed

lemma find_config_stuck: "find_config big v f = Some r \<Longrightarrow> \<not> stuck big v f"
proof (rule find_config.raw_induct [where P = "\<lambda>big v f r. \<not> stuck big v f"])
  fix g big v f r
  assume IH: "\<And>big v f r. g big v f = Some r \<Longrightarrow> \<not> stuck big v f"
    and run: "(case read_fd 6 f of (r, tmp, f1) \<Rightarrow>
        if r < 0 then Some (Inr (rc LIBUSB_ERROR_IO, tmp, f1))
        else if r < 6 then Some (Inr (rc LIBUSB_ERROR_IO, tmp, f1))
        else if uint (tmp ! 5) = v then Some (Inr (0, tmp, f1))
        else (case lseek_cur (-6) f1 of (off, f2) \<Rightarrow>
          if off < 0 then Some (Inr (rc LIBUSB_ERROR_IO, tmp, f2))
          else (case seek_to_next_config big True f2 of
              Inl e \<Rightarrow> Some (Inl e)
            | Inr (r', f3) \<Rightarrow> if r' < 0 then Some (Inr (r', tmp, f3)) else g big v f3))) = Some r"
  show "\<not> stuck big v f"
  proof
    assume s: "stuck big v f"
    then obtain tmp f1 where t: "read_fd 6 f = (6, tmp, f1)" "uint (tmp ! 5) \<noteq> v" by (auto simp: stuck_def)
    then have "g big v f = Some r" using run read_pos [OF t(1)] stuck_seek [OF s]
      by (simp add: lseek_cur_def)
    with IH s show False by blast
  qed
qed

section \<open>The active configuration in sysfs\<close>

text \<open>The value the kernel shows: decimal digits and a newline.\<close>

definition digit :: "nat \<Rightarrow> char" where
  "digit d = char_of (48 + d)"

definition value_text :: "nat \<Rightarrow> string" where
  "value_text v = (if v < 10 then [digit v] else if v < 100 then [digit (v div 10), digit (v mod 10)]
     else [digit (v div 100), digit (v div 10 mod 10), digit (v mod 10)]) @ [CHR 0x0A]"

definition value_file :: "linux_env \<Rightarrow> linux_device_priv \<Rightarrow> nat \<Rightarrow> bool" where
  "value_file env priv v \<longleftrightarrow> (\<exists>dir. priv_sysfs_dir priv = Some dir
     \<and> open_read env (sysfs_path dir ''bConfigurationValue'')
         = Inr \<lparr>file_bytes = str_bytes (value_text v), file_bad = False\<rparr>)"

lemma of_char_digit: "d < 10 \<Longrightarrow> of_char (digit d) = (48 + d :: nat)"
  by (simp add: digit_def)

lemma digit_facts:
  assumes "d < 10"
  shows "is_digit 10 (digit d)" "digit_val (digit d) = Some d" "\<not> is_space (digit d)"
    "digit d \<noteq> CHR ''-''" "digit d \<noteq> CHR ''+''" "digit d \<noteq> nul" "(of_char (digit d) :: u8) \<noteq> 0"
proof -
  show v: "digit_val (digit d) = Some d" using of_char_digit [OF assms] assms
    by (simp add: digit_val_def Let_def)
  show "is_digit 10 (digit d)" using v assms by (simp add: is_digit_def)
  have ne: "digit d \<noteq> c" if "of_char c < (48 :: nat)" for c
    using of_char_digit [OF assms] that by auto
  show "\<not> is_space (digit d)" using of_char_digit [OF assms] ne [of "CHR '' ''"]
    by (simp add: is_space_def)
  show "digit d \<noteq> CHR ''-''" "digit d \<noteq> CHR ''+''" "digit d \<noteq> nul"
    by (rule ne; simp add: nul_def)+
  show "(of_char (digit d) :: u8) \<noteq> 0"
    using unat_of_char [of "digit d"] of_char_digit [OF assms] by auto
qed

lemma newline_facts: "\<not> is_digit 10 (CHR 0x0A)" "CHR 0x0A \<noteq> nul" "(of_char (CHR 0x0A) :: u8) \<noteq> 0"
  by (simp_all add: is_digit_def digit_val_def nul_def)

lemma strtol10_text:
  assumes "v < 100"
  shows "strtol10 (value_text v) = (int v, True)"
proof -
  have b: "v mod 10 < 10" by simp
  show ?thesis
  proof (cases "v < 10")
    case True
    then show ?thesis using digit_facts [OF True] newline_facts
      by (simp add: strtol10_def value_text_def digits_val_def LONG_MAX_def)
  next
    case False
    have t: "v div 10 < 10" using assms by simp
    show ?thesis using False assms digit_facts [OF b] digit_facts [OF t] newline_facts
      by (simp add: strtol10_def value_text_def digits_val_def LONG_MAX_def) presburger
  qed
qed

lemma nul_in_text: "nul \<notin> set (value_text v)" if "v < 1000"
  using that digit_facts(6) [symmetric] newline_facts(2) by (auto simp: value_text_def)

lemma tmp_text:
  assumes "length (value_text v) < 4" "v < 100"
  shows "cstr (bytes_str (filled (\<lambda>_. 0) 4 (str_bytes (value_text v)))) = value_text v"
proof -
  have "filled (\<lambda>_. 0) 4 (str_bytes (value_text v))
      = str_bytes (value_text v @ replicate (4 - length (value_text v)) nul)"
    using assms by (intro nth_equalityI) (auto simp: filled_def str_bytes_def nth_append nul_def)
  then show ?thesis using nul_in_text [of v] assms
    by (auto simp: cstr_def takeWhile_append takeWhile_replicate simp flip: str_bytes_append)
qed

text \<open>A value below 100 is read; a longer one fills the four bytes of the buffer with its newline, and is
  taken for a text without an end.\<close>

lemma active_config_value:
  assumes "value_file env priv v" "v < 256"
  shows "sysfs_get_active_config env priv =
    Inr (if v < 100 then (0, Some (int v)) else (rc LIBUSB_ERROR_IO, None))"
proof -
  obtain dir where dir: "priv_sysfs_dir priv = Some dir"
    "open_read env (sysfs_path dir ''bConfigurationValue'')
       = Inr \<lparr>file_bytes = str_bytes (value_text v), file_bad = False\<rparr>"
    using assms(1) by (auto simp: value_file_def)
  define f where "f = opened_file \<lparr>file_bytes = str_bytes (value_text v), file_bad = False\<rparr>"
  have o: "open_sysfs_attr env priv ''bConfigurationValue'' = Inr (Some f)"
    using dir by (simp add: open_sysfs_attr_def f_def)
  have n4: "length (value_text v) \<le> 4" "0 < length (value_text v)" by (simp_all add: value_text_def)
  then have r: "read_fd 4 f = (int (length (value_text v)), str_bytes (value_text v),
      f\<lparr>file_pos := length (value_text v)\<rparr>)"
    by (simp add: f_def opened_file_def read_fd_def Let_def)
  have t3: "filled (\<lambda>_. 0) 4 (str_bytes (value_text v)) ! 3 = 0 \<longleftrightarrow> v < 100"
    using newline_facts by (simp add: filled_def str_bytes_def value_text_def)
  show ?thesis
  proof (cases "v < 100")
    case True
    then have l: "length (value_text v) < 4" by (simp add: value_text_def)
    have "v div 10 < 10" using True by simp
    then have t0: "filled (\<lambda>_. 0) 4 (str_bytes (value_text v)) ! 0 \<noteq> 0"
      using digit_facts(7) [of v] digit_facts(7) [of "v div 10"] True
      by (auto simp: filled_def str_bytes_def value_text_def)
    have "to_int (int v) = int v" using True by (simp add: to_int_def signed_take_bit_int_eq_self)
    then show ?thesis using True n4(2) t0 t3 strtol10_text [OF True] tmp_text [OF l True]
      by (simp add: sysfs_get_active_config_def o r)
  qed (use n4 t3 in \<open>simp add: sysfs_get_active_config_def o r\<close>)
qed

text \<open>A device as sysfs shows it: 18 bytes of device descriptor, the configurations, and the value of the
  active one.\<close>

definition sysfs_device :: "linux_env \<Rightarrow> linux_device_priv \<Rightarrow> nat \<Rightarrow> u8 list list \<Rightarrow> bool" where
  "sysfs_device env priv v cs \<longleftrightarrow> value_file env priv v \<and> (\<exists>dir desc. priv_sysfs_dir priv = Some dir
     \<and> length desc = DEVICE_DESC_LENGTH
     \<and> open_read env (sysfs_path dir ''descriptors'')
         = Inr \<lparr>file_bytes = desc @ concat cs, file_bad = False\<rparr>)"

lemma find_split:
  assumes "List.find P cs = Some c"
  shows "\<exists>rest. cs = takeWhile (\<lambda>c. \<not> P c) cs @ c # rest"
  using assms by (induction cs) (auto split: if_splits)

lemma active_in_images:
  assumes good: "list_all good_image cs" and d: "length desc = DEVICE_DESC_LENGTH"
    and f: "List.find (\<lambda>c. uint (c ! 5) = v) cs = Some c" and n: "n \<le> length c"
    and order: "\<not> big \<or> uint (hd cs ! 5) = v"
  shows "active_in_file big v n (opened_file \<lparr>file_bytes = desc @ concat cs, file_bad = False\<rparr>)
    = Some (Inr (if 6 < n then int n - 6 else 0, take n c))"
proof -
  obtain rest where rest: "cs = takeWhile (\<lambda>c. uint (c ! 5) \<noteq> v) cs @ c # rest"
    using find_split [OF f] by blast
  define ahead where "ahead = concat (takeWhile (\<lambda>c. uint (c ! 5) \<noteq> v) cs)"
  have cs: "concat cs = ahead @ c @ concat rest" unfolding ahead_def by (subst rest) simp
  have "c \<in> set cs" by (subst rest) simp
  then have c: "6 \<le> length c" using good by (simp add: list_all_iff good_image_def)
  let ?f = "opened_file \<lparr>file_bytes = desc @ concat cs, file_bad = False\<rparr>"
  obtain off f1 where e: "lseek_end ?f = (off, f1)" by fastforce
  have "0 < length (concat cs)" using c cs by (cases c) auto
  then have off: "\<not> off < 1" "off \<noteq> 18" and f1: "f1\<lparr>file_pos := 18\<rparr> = at_image desc (concat cs)"
    using e d by (auto simp: lseek_end_def opened_file_def at_image_def DEVICE_DESC_LENGTH_def)
  have "find_config big v (at_image desc (concat cs))
      = Some (Inr (0, take 6 c, at_image (desc @ ahead @ take 6 c) (drop 6 c @ concat rest)))"
  proof (cases big)
    case True
    then obtain cs' where "cs = c # cs'" using order f by (cases cs) auto
    then have "ahead = []" "good_image c" "uint (c ! 5) = v" using f good True order by (simp_all add: ahead_def)
    then show ?thesis using find_config_here [of c v big desc "concat rest"] cs by simp
  next
    case False
    then show ?thesis using find_config_images [OF good, of v desc] f c by (simp add: Let_def cs flip: ahead_def)
  qed
  then have "active_in_file big v n ?f
      = Some (Inr (copy_active n (take 6 c) (at_image (desc @ ahead @ take 6 c) (drop 6 c @ concat rest))))"
    using e off f1 by (simp add: active_in_file_def lseek_set_def DEVICE_DESC_LENGTH_def)
  also have "\<dots> = Some (Inr (if 6 < n then int n - 6 else 0, take n c))"
    using n c by (auto simp: copy_active_def read_at_image min_def simp flip: take_add)
  finally show ?thesis .
qed

lemma active_images:
  assumes "sysfs_device env priv v cs" "v < 100" "list_all good_image cs"
    and "List.find (\<lambda>c. uint (c ! 5) = int v) cs = Some c" "n \<le> length c"
    and "\<not> big_endian env \<or> uint (hd cs ! 5) = int v"
  shows "sysfs_get_active_config_descriptor env priv n
    = Some (Inr (if 6 < n then int n - 6 else 0, take n c))"
proof -
  from assms(1) obtain dir desc where d: "priv_sysfs_dir priv = Some dir" "length desc = DEVICE_DESC_LENGTH"
    "open_read env (sysfs_path dir ''descriptors'') = Inr \<lparr>file_bytes = desc @ concat cs, file_bad = False\<rparr>"
    by (auto simp: sysfs_device_def)
  have "sysfs_get_active_config env priv = Inr (0, Some (int v))"
    using active_config_value [of env priv v] assms(1,2) by (simp add: sysfs_device_def)
  then show ?thesis using d active_in_images [OF assms(3) d(2) assms(4-6)]
    by (simp add: sysfs_get_active_config_descriptor_def open_sysfs_attr_def)
qed

section \<open>From the files to the parsed configuration\<close>

text \<open>A reader of descriptors as the backend of the parser; words are in bus order.\<close>

definition config_backend :: "(nat \<Rightarrow> (fault + int \<times> u8 list) option) \<Rightarrow> backend" where
  "config_backend ask n = (case ask n of
     Some (Inr (r, bs)) \<Rightarrow> (r, bs, False)
   | _ \<Rightarrow> (rc LIBUSB_ERROR_OTHER, [], False))"

lemma good_config_image:
  assumes "good_config c"
  shows "good_image (config_bytes c)" "9 \<le> length (config_bytes c)"
    "config_bytes c ! 5 = bConfigurationValue c"
  using assms by (simp_all add: good_config_def good_image_def)
    (simp_all add: config_bytes_def le16_def of_le16_bytes)

text \<open>Only the sign of the code counts to the parser.\<close>

lemma get_active_answers:
  assumes c: "good_config c"
    and a: "\<And>n. n \<le> length (config_bytes c) \<Longrightarrow> \<exists>r\<ge>0. ask n = (r, take n (config_bytes c), False)"
  shows "libusb_get_active_config_descriptor big ask junk h
    = libusb_get_active_config_descriptor big (device_with c 0) junk h"
proof -
  let ?n = "length (config_bytes c)"
  have n: "unat (wTotalLength c) = ?n" "9 \<le> ?n"
    using c good_config_image(2) [OF c] by (simp_all add: good_config_def)
  obtain r1 where r1: "0 \<le> r1" "ask 8 = (r1, take 8 (config_bytes c), False)" using a [of 8] n(2) by auto
  obtain r2 where r2: "0 \<le> r2" "ask ?n = (r2, config_bytes c, False)" using a [of ?n] by auto
  have w: "usbi_parse_descriptor big (filled junk 8 (take 8 (config_bytes c))) 0 ''bbw'' False
      = Inr ([Byte (cd_bLength c), Byte (cd_bDescriptorType c), Half (wTotalLength c)], 4)"
    by (simp add: config_bytes_def rd_def nth_filled le16_def of_le16_bytes)
  obtain b1 h1 where m1: "malloc h = (b1, h1)" by fastforce
  obtain b2 h2 where m2: "malloc h1 = (b2, h2)" by fastforce
  show ?thesis using r1 r2 w n(1) m1 m2
    by (cases b1; cases b2) (simp_all add: libusb_get_active_config_descriptor_def device_with_def del: usbi_parse_descriptor.simps)
qed

lemma active_config_parsed:
  assumes d: "sysfs_device env priv v (map config_bytes cfgs)" "list_all good_config cfgs" "v < 100"
    and c: "List.find (\<lambda>c. unat (bConfigurationValue c) = v) cfgs = Some c"
    and e: "endpoint (last_setting c) \<noteq> []" and h: "grant h = []"
    and order: "\<not> big_endian env \<or> unat (bConfigurationValue (hd cfgs)) = v"
  shows "libusb_get_active_config_descriptor (big_endian env)
      (config_backend (sysfs_get_active_config_descriptor env priv)) junk h
    = Inr (0, Some c, h\<lparr>live := live h + (1 + owned_config c)\<rparr>)"
proof -
  have "c \<in> set cfgs" using find_split [OF c] by (metis in_set_conv_decomp)
  then have good: "good_config c" using d(2) by (simp add: list_all_iff)
  have images: "list_all good_image (map config_bytes cfgs)"
    using d(2) good_config_image(1) by (auto simp: list_all_iff)
  have val: "uint (config_bytes c' ! 5) = int v \<longleftrightarrow> unat (bConfigurationValue c') = v"
    if "c' \<in> set cfgs" for c'
  proof -
    have "config_bytes c' ! 5 = bConfigurationValue c'"
      using good_config_image(3) d(2) that by (simp add: list_all_iff)
    then show ?thesis by (simp only: uint_nat of_nat_eq_iff)
  qed
  have "List.find (\<lambda>x. uint (x ! 5) = int v) (map config_bytes cfgs) = Some (config_bytes c)"
    using c val by (induction cfgs) (auto split: if_splits)
  moreover have "hd (map config_bytes cfgs) = config_bytes (hd cfgs)" "hd cfgs \<in> set cfgs"
    using \<open>c \<in> set cfgs\<close> by (cases cfgs; simp)+
  then have "\<not> big_endian env \<or> uint (hd (map config_bytes cfgs) ! 5) = int v" using order val by simp
  ultimately have "\<exists>r\<ge>0. config_backend (sysfs_get_active_config_descriptor env priv) n
      = (r, take n (config_bytes c), False)" if "n \<le> length (config_bytes c)" for n
    using active_images [OF d(1,3) images _ that] by (simp add: config_backend_def)
  from get_active_answers [OF good this] show ?thesis
    using get_active_run [OF good h, of "big_endian env" 0 junk] e by (simp add: algebra_simps)
qed

text \<open>C32: from sysfs to the parsed configuration. When a device's files in sysfs hold well-formed
  configurations, and the active one has a value below 100 and ends in a setting with an endpoint,
  \<open>libusb_get_active_config_descriptor\<close> over the Linux backend, both on the same host, skips the
  configurations in front of it and hands out the active one exactly as it was written. On a big-endian
  host, which reads the total lengths in the wrong order, this holds if the active configuration is the
  first one.\<close>

theorem sysfs_active_config_parsed:
  assumes "sysfs_has_descriptors w \<noteq> 0" and "sysfs_device env priv v (map config_bytes cfgs)"
    and "list_all good_config cfgs" and "v < 100"
    and "List.find (\<lambda>c. unat (bConfigurationValue c) = v) cfgs = Some c"
    and "endpoint (last_setting c) \<noteq> []" and "grant h = []"
    and "\<not> big_endian env \<or> unat (bConfigurationValue (hd cfgs)) = v"
  shows "libusb_get_active_config_descriptor (big_endian env)
      (config_backend (op_get_active_config_descriptor env priv w)) junk h
    = Inr (0, Some c, h\<lparr>live := live h + (1 + owned_config c)\<rparr>)"
proof -
  have "op_get_active_config_descriptor env priv w = sysfs_get_active_config_descriptor env priv"
    using assms(1) by (simp add: op_get_active_config_descriptor_def fun_eq_iff)
  then show ?thesis using active_config_parsed [OF assms(2-8)] by simp
qed

definition sample_priv :: linux_device_priv where
  "sample_priv = \<lparr>priv_sysfs_dir = Some ''1-2'', priv_dev_descriptor = None, priv_config_descriptor = None\<rparr>"

definition sample_dev :: lib_device where
  "sample_dev = \<lparr>refcnt = 1, bus_number = 1, device_address = 2, num_configurations = 2,
     session_data = 258, os_priv = sample_priv\<rparr>"

definition sample_env :: "u8 list \<Rightarrow> linux_env" where
  "sample_env configs = \<lparr>open_read = (\<lambda>path.
       if path = sysfs_path ''1-2'' ''descriptors''
       then Inr \<lparr>file_bytes = replicate 18 1 @ configs, file_bad = False\<rparr>
       else if path = sysfs_path ''1-2'' ''bConfigurationValue''
       then Inr \<lparr>file_bytes = str_bytes (value_text 1), file_bad = False\<rparr>
       else if path = ''/dev/bus/usb/001/002''
       then Inr \<lparr>file_bytes = replicate 18 1 @ configs, file_bad = False\<rparr>
       else Inl ENOENT),
     open_write = (\<lambda>_. Inl EACCES), dir_entries = (\<lambda>_. None), is_regular = (\<lambda>_. True),
     is_directory = (\<lambda>_. True), ask_configuration = (\<lambda>_. Inl ENODEV), usbfs_path = ''/dev/bus/usb'',
     big_endian = False, stack_bytes = (\<lambda>_. 0), fresh_device = sample_dev\<rparr>"

lemma sample_paths: "sysfs_path ''1-2'' ''descriptors'' \<noteq> sysfs_path ''1-2'' ''bConfigurationValue''"
  by (simp add: sysfs_path_def snprintf_s_def SYSFS_DEVICE_PATH_def PATH_MAX_def)

lemma sample_sysfs_device: "sysfs_device (sample_env (concat cs)) sample_priv 1 cs"
  using sample_paths by (auto simp: sysfs_device_def value_file_def sample_env_def sample_priv_def
    DEVICE_DESC_LENGTH_def intro!: exI [of _ "replicate 18 1"])

text \<open>A second configuration, with another value.\<close>

definition other_parsed :: parsed_config where
  "other_parsed = sample_parsed\<lparr>bConfigurationValue := 7\<rparr>"

lemma other_good: "good_config other_parsed"
  using sample_good by (simp add: good_config_def other_parsed_def config_bytes_def)

lemma sample_value: "bConfigurationValue sample_parsed = 1" "endpoint (last_setting sample_parsed) \<noteq> []"
  "owned_config sample_parsed = 4"
  by (simp add: sample_parsed_def, simp add: last_setting_def sample_parsed_def, code_simp)

theorem sysfs_active_config_parsed_witness:
  "libusb_get_active_config_descriptor False (config_backend (op_get_active_config_descriptor
       (sample_env (concat (map config_bytes [other_parsed, sample_parsed]))) sample_priv one_handle))
     (\<lambda>_. 0) \<lparr>grant = [], live = 0\<rparr>
   = Inr (0, Some sample_parsed, \<lparr>grant = [], live = 5\<rparr>)"
proof -
  have d: "sysfs_has_descriptors one_handle \<noteq> 0" by (simp add: one_handle_def)
  have g: "list_all good_config [other_parsed, sample_parsed]" using sample_good other_good by simp
  have f: "List.find (\<lambda>c. unat (bConfigurationValue c) = 1) [other_parsed, sample_parsed]
      = Some sample_parsed" using sample_value(1) by (simp add: other_parsed_def)
  show ?thesis
    using sysfs_active_config_parsed [OF d sample_sysfs_device g _ f sample_value(2),
        of "\<lparr>grant = [], live = 0\<rparr>" "\<lambda>_. 0"] sample_value(3) by (simp add: sample_env_def)
qed

lemma get_config_images:
  assumes "list_all good_image cs" "length desc = DEVICE_DESC_LENGTH" "i < length cs" "n \<le> length (cs ! i)"
  shows "get_config_descriptor big (opened_file \<lparr>file_bytes = desc @ concat cs, file_bad = False\<rparr>) i n
    = Inr (0, take n (cs ! i))"
proof -
  let ?f = "opened_file \<lparr>file_bytes = desc @ concat cs, file_bad = False\<rparr>"
  have s: "snd (lseek_set DEVICE_DESC_LENGTH ?f) = at_image desc (concat cs)"
    using assms(2) by (simp add: lseek_set_def opened_file_def at_image_def)
  have cs: "concat cs = concat (take i cs) @ cs ! i @ concat (drop (Suc i) cs)"
    using assms(3) by (metis append_take_drop_id concat.simps(2) concat_append Cons_nth_drop_Suc)
  have "list_all good_image (take i cs)" using assms(1) by (auto simp: list_all_iff dest: in_set_takeD)
  from skip_good [OF this, of big desc "cs ! i @ concat (drop (Suc i) cs)"]
  have "skip_configs big i (at_image desc (concat cs))
      = Inr (0, at_image (desc @ concat (take i cs)) (cs ! i @ concat (drop (Suc i) cs)))"
    using assms(3) by (simp add: cs)
  then show ?thesis using s assms(4)
    by (auto simp: get_config_descriptor_def read_at_image lseek_set_def split: prod.splits)
qed
text \<open>C38: from the device node to the parsed configuration. When the node of usbfs holds well-formed
  configurations, asking by index for one whose last setting has an endpoint skips those in front of it
  and hands it out exactly as it was written, on hosts of either byte order.\<close>

theorem usbfs_config_by_index_parsed:
  assumes "open_read env (get_usbfs_path env (bus_number dv) (device_address dv))
      = Inr \<lparr>file_bytes = desc @ concat (map config_bytes cfgs), file_bad = False\<rparr>"
    and "length desc = DEVICE_DESC_LENGTH" and "list_all good_config cfgs"
    and "unat i < length cfgs" and "i < num_configurations dv"
    and "endpoint (last_setting (cfgs ! unat i)) \<noteq> []" and "grant h = []"
  shows "libusb_get_config_descriptor (big_endian env) (num_configurations dv)
      (\<lambda>k. config_backend (\<lambda>n. Some (op_get_config_descriptor env dv k n))) junk i h
    = Inr (0, Some (cfgs ! unat i), h\<lparr>live := live h + (1 + owned_config (cfgs ! unat i))\<rparr>)"
proof -
  let ?c = "cfgs ! unat i"
  have good: "good_config ?c" using assms(3,4) by (simp add: list_all_length)
  have images: "list_all good_image (map config_bytes cfgs)"
    using assms(3) good_config_image(1) by (auto simp: list_all_iff)
  have "\<exists>r\<ge>0. config_backend (\<lambda>n. Some (op_get_config_descriptor env dv (unat i) n)) n
      = (r, take n (config_bytes ?c), False)" if "n \<le> length (config_bytes ?c)" for n
    using get_config_images [OF images assms(2), of "unat i" n "big_endian env"] assms(1,4) that
    by (simp add: config_backend_def op_get_config_descriptor_def)
  from get_active_answers [OF good this] show ?thesis
    using get_active_run [OF good assms(7), of "big_endian env" 0 junk] assms(5,6)
    by (simp add: libusb_get_config_descriptor_def algebra_simps)
qed

lemma sample_node: "get_usbfs_path (sample_env cs) 1 2 = ''/dev/bus/usb/001/002''"
  by (simp add: get_usbfs_path_def sample_env_def snprintf_s_def pad3_def PATH_MAX_def)
    code_simp

theorem usbfs_config_by_index_parsed_witness:
  "libusb_get_config_descriptor False 2 (\<lambda>k. config_backend (\<lambda>n. Some (op_get_config_descriptor
       (sample_env (concat (map config_bytes [other_parsed, sample_parsed]))) sample_dev k n)))
     (\<lambda>_. 0) 1 \<lparr>grant = [], live = 0\<rparr>
   = Inr (0, Some sample_parsed, \<lparr>grant = [], live = 5\<rparr>)"
proof -
  let ?e = "sample_env (concat (map config_bytes [other_parsed, sample_parsed]))"
  have "open_read ?e (get_usbfs_path ?e (bus_number sample_dev) (device_address sample_dev))
      = Inr \<lparr>file_bytes = replicate 18 1 @ concat (map config_bytes [other_parsed, sample_parsed]),
             file_bad = False\<rparr>"
    by (simp add: sample_dev_def sample_node)
      (simp add: sample_env_def sysfs_path_def snprintf_s_def SYSFS_DEVICE_PATH_def PATH_MAX_def)
  moreover have "length (replicate 18 (1 :: u8)) = DEVICE_DESC_LENGTH" by (simp add: DEVICE_DESC_LENGTH_def)
  moreover have "list_all good_config [other_parsed, sample_parsed]" using sample_good other_good by simp
  ultimately show ?thesis
    using usbfs_config_by_index_parsed [of ?e sample_dev "replicate 18 1" "[other_parsed, sample_parsed]"
        1 "\<lparr>grant = [], live = 0\<rparr>" "\<lambda>_. 0"] sample_value
    by (simp add: sample_dev_def sample_env_def)
qed

text \<open>The search for the active configuration in sysfs ends on well-formed files of a little-endian host. Whatever the
  configurations and whichever value is active, it returns: the code and the first bytes of the
  configuration, or an error when no configuration has the value.\<close>

theorem sysfs_search_ends:
  assumes "sysfs_device env priv v cs" and "v < 100" and "list_all good_image cs" and "\<not> big_endian env"
  shows "\<exists>r bs. sysfs_get_active_config_descriptor env priv n = Some (Inr (r, bs))
    \<and> ((\<forall>c\<in>set cs. unat (c ! 5) \<noteq> v) \<longrightarrow>
         r = rc (if cs = [] then LIBUSB_ERROR_NOT_FOUND else LIBUSB_ERROR_IO))"
proof -
  from assms(1) obtain dir desc where d: "priv_sysfs_dir priv = Some dir" "length desc = DEVICE_DESC_LENGTH"
    "open_read env (sysfs_path dir ''descriptors'') = Inr \<lparr>file_bytes = desc @ concat cs, file_bad = False\<rparr>"
    by (auto simp: sysfs_device_def)
  have val: "uint (c ! 5 :: u8) = int v \<longleftrightarrow> unat (c ! 5) = v" for c
    by (simp only: uint_nat of_nat_eq_iff)
  have "sysfs_get_active_config env priv = Inr (0, Some (int v))"
    using active_config_value [of env priv v] assms(1,2) by (simp add: sysfs_device_def)
  then have run: "sysfs_get_active_config_descriptor env priv n
      = active_in_file False (int v) n (opened_file \<lparr>file_bytes = desc @ concat cs, file_bad = False\<rparr>)"
    using d assms(4) by (simp add: sysfs_get_active_config_descriptor_def open_sysfs_attr_def)
  have at: "\<lparr>file_bytes = desc @ concat cs, file_bad = False, file_pos = DEVICE_DESC_LENGTH\<rparr>
      = at_image desc (concat cs)" using d(2) by (simp add: at_image_def)
  have l: "length (concat cs) \<noteq> 0" if "cs \<noteq> []"
    using that assms(3) by (cases cs) (auto simp: good_image_def)
  let ?find = "List.find (\<lambda>c. uint (c ! 5) = int v) cs"
  note steps = active_in_file_def lseek_end_def lseek_set_def opened_file_def
  consider "cs = []" | "cs \<noteq> []" "?find = None" | c where "cs \<noteq> []" "?find = Some c" by (cases ?find) auto
  then show ?thesis
  proof cases
    case 1
    then show ?thesis using d(2) by (simp add: run steps DEVICE_DESC_LENGTH_def)
  next
    case 2
    then show ?thesis using d(2) l find_config_images [OF assms(3), of "int v" desc]
      by (simp add: run steps at) (auto simp: DEVICE_DESC_LENGTH_def)
  next
    case (3 c)
    obtain f where "find_config False (int v) (at_image desc (concat cs)) = Some (Inr (0, take 6 c, f))"
      using find_config_images [OF assms(3), of "int v" desc] 3 by (auto simp: Let_def)
    then have "sysfs_get_active_config_descriptor env priv n
        = Some (Inr (copy_active n (take 6 c) f))"
      using d(2) l [OF 3(1)] by (simp add: run steps at) (auto simp: DEVICE_DESC_LENGTH_def)
    moreover have "c \<in> set cs" "unat (c ! 5) = v"
      using 3 val by (auto simp: find_Some_iff)
    ultimately show ?thesis by (cases "copy_active n (take 6 c) f") auto
  qed
qed

theorem sysfs_search_ends_witness:
  "\<exists>bs. sysfs_get_active_config_descriptor (sample_env (config_bytes other_parsed)) sample_priv 8
     = Some (Inr (rc LIBUSB_ERROR_IO, bs))"
proof -
  have "list_all good_image [config_bytes other_parsed]" "config_bytes other_parsed ! 5 = 7"
    using good_config_image [OF other_good] by (simp_all add: other_parsed_def)
  then show ?thesis
    using sysfs_search_ends [OF sample_sysfs_device [of "[config_bytes other_parsed]"], of 8] by (auto simp: sample_env_def)
qed

text \<open>A configuration of total length 0 hangs the search. If the first configuration in the file is
  not the active one and its total length is 0, the search of
  \<open>sysfs_get_active_config_descriptor\<close> seeks back to its start for ever, whatever follows.\<close>

theorem zero_length_config_hangs:
  assumes "value_file env priv v" and "v < 100" and "priv_sysfs_dir priv = Some dir"
    and "open_read env (sysfs_path dir ''descriptors'')
      = Inr \<lparr>file_bytes = desc @ [l, t, 0, 0, k, x] @ rest, file_bad = False\<rparr>"
    and "length desc = DEVICE_DESC_LENGTH" and "unat x \<noteq> v"
  shows "sysfs_get_active_config_descriptor env priv n = None"
proof -
  let ?f = "at_image desc ([l, t, 0, 0, k, x] @ rest)"
  have "uint x \<noteq> int v" using assms(6) by (simp only: uint_nat of_nat_eq_iff) simp
  then have "stuck (big_endian env) (int v) ?f" by (simp add: stuck_def read_at_image) (simp add: at_image_def)
  then have stuck: "find_config (big_endian env) (int v) ?f = None" using find_config_stuck by fastforce
  have "sysfs_get_active_config env priv = Inr (0, Some (int v))"
    using active_config_value [OF assms(1)] assms(2) by simp
  then have "sysfs_get_active_config_descriptor env priv n = active_in_file (big_endian env) (int v) n
      (opened_file \<lparr>file_bytes = desc @ [l, t, 0, 0, k, x] @ rest, file_bad = False\<rparr>)"
    using assms(3,4) by (simp add: sysfs_get_active_config_descriptor_def open_sysfs_attr_def)
  also have "\<dots> = None" using stuck assms(5)
    by (simp add: active_in_file_def lseek_end_def lseek_set_def opened_file_def at_image_def
        DEVICE_DESC_LENGTH_def)
  finally show ?thesis .
qed

theorem zero_length_config_hangs_witness:
  "sysfs_get_active_config_descriptor (sample_env [9, 2, 0, 0, 1, 7, 0, 0, 0]) sample_priv 8 = None"
proof -
  have "value_file (sample_env [9, 2, 0, 0, 1, 7, 0, 0, 0]) sample_priv 1"
    using sample_sysfs_device [of "[[9, 2, 0, 0, 1, 7, 0, 0, 0]]"] by (simp add: sysfs_device_def)
  then show ?thesis
    using sample_paths zero_length_config_hangs [of "sample_env [9, 2, 0, 0, 1, 7, 0, 0, 0]" sample_priv 1 "''1-2''"
        "replicate 18 1" 9 2 1 7 "[0, 0, 0]" 8]
    by (simp add: sample_env_def sample_priv_def DEVICE_DESC_LENGTH_def)
qed

text \<open>On a big-endian host the total lengths in sysfs, which are in bus order, are read as if they were in
  host order, and a second configuration is not found.\<close>

lemma big_endian_misses:
  fixes c1 c2 :: "u8 list"
  defines "c1 \<equiv> [9, 2, 9, 0, 1, 1, 0, 0, 0]" and "c2 \<equiv> [9, 2, 9, 0, 1, 2, 0, 0, 0]"
  shows "\<exists>f. find_config True 2 (at_image [] (c1 @ c2)) = Some (Inr (rc LIBUSB_ERROR_IO, [], f))"
    and "\<exists>f. find_config False 2 (at_image [] (c1 @ c2)) = Some (Inr (0, take 6 c2, f))"
proof -
  show "\<exists>f. find_config True 2 (at_image [] (c1 @ c2)) = Some (Inr (rc LIBUSB_ERROR_IO, [], f))"
    unfolding c1_def c2_def
    by (subst find_config.simps, subst find_config.simps)
      (simp add: read_fd_def at_image_def lseek_cur_def seek_to_next_config_def rd_def of_le16_def)
  show "\<exists>f. find_config False 2 (at_image [] (c1 @ c2)) = Some (Inr (0, take 6 c2, f))"
    using find_config_images [of "[c1, c2]" 2 "[]"]
    by (simp add: c1_def c2_def good_image_def of_le16_def Let_def)
qed

text \<open>A cached configuration shorter than the eight bytes asked for first is read past its end.\<close>

lemma short_cached_config_overread:
  "priv_config_descriptor priv = Some bs \<Longrightarrow> length bs < n \<Longrightarrow>
     usbfs_get_active_config_descriptor priv n = Inl OutOfBounds"
  by (simp add: usbfs_get_active_config_descriptor_def copy_bytes_def)

end
