(* ===== verification/Enumerate.thy ===== *)
theory Enumerate
  imports Sysfs
begin

text \<open>
  How the Linux backend finds devices (\<open>linux_usbfs.c\<close>): the initialisation of the backend and of a new
  device, and the scans of sysfs and of usbfs that fill the array of devices. The array is passed by
  its address, and the address it has afterwards is part of each result.
\<close>

section \<open>The backend\<close>

definition check_usb_vfs :: "linux_env \<Rightarrow> string \<Rightarrow> bool" where
  "check_usb_vfs env dirname =
     (case dir_entries env dirname of
        None \<Rightarrow> False
      | Some names \<Rightarrow> list_ex (\<lambda>name. take 1 name \<noteq> ''.'') names)"

definition find_usbfs_path :: "linux_env \<Rightarrow> string option" where
  "find_usbfs_path env =
     (if check_usb_vfs env ''/dev/bus/usb'' then Some ''/dev/bus/usb''
      else if check_usb_vfs env ''/proc/bus/usb'' then Some ''/proc/bus/usb''
      else None)"

text \<open>The release of the kernel, if \<open>uname\<close> gives it.\<close>

definition check_flag_bulk_continuation :: "string option \<Rightarrow> int" where
  "check_flag_bulk_continuation release =
     (case release of
        None \<Rightarrow> -1
      | Some s \<Rightarrow>
          if length s < 4 then 0
          else if take 4 s \<noteq> ''2.6.'' then 0
          else if atoi (drop 4 s) \<ge> 32 then 1 else 0)"

text \<open>Initialisation: the code, the path of usbfs and the flag of bulk continuation that the static
  variables have afterwards. The choice of a clock is left out.\<close>

definition op_init ::
    "linux_env \<Rightarrow> string option \<Rightarrow> int \<Rightarrow> lib_context \<Rightarrow> int \<times> string option \<times> int \<times> lib_context" where
  "op_init env release flag w =
     (case find_usbfs_path env of
        None \<Rightarrow> (rc LIBUSB_ERROR_OTHER, None, flag, w)
      | Some path \<Rightarrow>
          let flag' = (if flag = -1 then check_flag_bulk_continuation release else flag)
          in if flag' = -1 then (rc LIBUSB_ERROR_OTHER, Some path, flag', w)
             else (0, Some path, flag',
               if is_directory env SYSFS_DEVICE_PATH then w
               else w\<lparr>sysfs_has_descriptors := 0, sysfs_can_relate_devices := 0\<rparr>))"

section \<open>A new device\<close>

definition set_priv :: "addr \<Rightarrow> (linux_device_priv \<Rightarrow> linux_device_priv) \<Rightarrow> lib_context \<Rightarrow> fault + lib_context" where
  "set_priv d g w = bindF (deref (lib_devices w) (Some d)) (\<lambda>(_, dv).
     Inr (put_device d (dv\<lparr>os_priv := g (os_priv dv)\<rparr>) w))"

text \<open>The index of the configuration to cache, or an error.\<close>

definition active_index :: "linux_env \<Rightarrow> lib_device \<Rightarrow> int \<Rightarrow> int \<times> int" where
  "active_index env dv active_config =
     (if active_config = -1 then (0, 0)
      else case usbi_get_config_index_by_value (num_configurations dv)
               (\<lambda>k. config_backend (\<lambda>n. Some (op_get_config_descriptor env dv k n)))
               (stack_bytes env) (word_of_int active_config) of (r, idx) \<Rightarrow>
             if r < 0 then (r, idx)
             else if idx = -1 then (rc LIBUSB_ERROR_NOT_FOUND, idx)
             else (0, idx))"

definition cache_active_config ::
    "linux_env \<Rightarrow> addr \<Rightarrow> file_des \<Rightarrow> int \<Rightarrow> lib_context \<Rightarrow> fault + int \<times> lib_context" where
  "cache_active_config env d f active_config w =
     bindF (deref (lib_devices w) (Some d)) (\<lambda>(_, dv).
     case active_index env dv active_config of (r, idx) \<Rightarrow>
       if r < 0 then Inr (r, w)
       else
         let index = unat (word_of_int idx :: u8)
         in bindF (get_config_descriptor (big_endian env) f index 8) (\<lambda>(r, tmp).
            if r < 0 then Inr (r, w)
            else bindF (usbi_parse_descriptor (big_endian env) tmp 0 ''bbw'' False) (\<lambda>(fs, _).
              case new_block w of
                (None, w1) \<Rightarrow> Inr (rc LIBUSB_ERROR_NO_MEM, w1)
              | (Some _, w1) \<Rightarrow>
                  bindF (get_config_descriptor (big_endian env) f index (unat (half_of (fs ! 2)))) (\<lambda>(r, buf).
                    if r < 0 then Inr (r, w1)
                    else bindF (set_priv d (\<lambda>p. p\<lparr>priv_config_descriptor := Some buf\<rparr>) w1) (\<lambda>w2.
                      Inr (0, w2))))))"

definition usbfs_get_active_config :: "linux_env \<Rightarrow> string \<Rightarrow> int" where
  "usbfs_get_active_config env path =
     (case ask_configuration env path of
        Inl e \<Rightarrow> if e = ENODEV then rc LIBUSB_ERROR_NO_DEVICE else rc LIBUSB_ERROR_IO
      | Inr b \<Rightarrow> uint b)"

text \<open>
  The stages of \<open>initialize_device\<close> behind the first lines: what sysfs says of the active configuration
  (its value and whether there is one), the device node, what the node says where sysfs cannot be
  related to it, and the descriptors read from the node.
\<close>

definition sysfs_active ::
    "linux_env \<Rightarrow> linux_device_priv \<Rightarrow> lib_context \<Rightarrow> fault + int + int \<times> bool" where
  "sysfs_active env priv w =
     (if sysfs_can_relate_devices w \<noteq> 0
      then bindF (sysfs_get_active_config env priv) (\<lambda>(tmp, config). Inr (
        if tmp < 0 then Inl tmp
        else case config of None \<Rightarrow> Inr (0, True) | Some c \<Rightarrow> Inr (c, c \<noteq> -1)))
      else Inr (Inr (0, True)))"

definition open_node :: "linux_env \<Rightarrow> string \<Rightarrow> int \<Rightarrow> (file_des \<times> int) option" where
  "open_node env path active_config =
     (case open_write env path of
        Inr f \<Rightarrow> Some (opened_file f, active_config)
      | Inl e \<Rightarrow>
          if e = EACCES
          then (case open_read env path of Inl _ \<Rightarrow> None | Inr f \<Rightarrow> Some (opened_file f, -1))
          else None)"

definition node_active ::
    "linux_env \<Rightarrow> string \<Rightarrow> int \<Rightarrow> bool \<Rightarrow> lib_context \<Rightarrow> int + int \<times> bool" where
  "node_active env path active_config configured w =
     (if sysfs_can_relate_devices w \<noteq> 0 then Inr (active_config, configured)
      else if active_config = -1 then Inr (active_config, configured)
      else
        let a = usbfs_get_active_config env path
        in if a = rc LIBUSB_ERROR_IO then Inr (a, False)
           else if a < 0 then Inl a
           else if a = 0 then Inr (a, False)
           else Inr (a, configured))"

definition read_descriptors ::
    "linux_env \<Rightarrow> addr \<Rightarrow> file_des \<Rightarrow> int \<Rightarrow> bool \<Rightarrow> lib_context \<Rightarrow> fault + int \<times> lib_context" where
  "read_descriptors env d f active_config configured w =
     (case new_block w of
        (None, w1) \<Rightarrow> Inr (rc LIBUSB_ERROR_NO_MEM, w1)
      | (Some _, w1) \<Rightarrow> (case read_fd DEVICE_DESC_LENGTH f of (r, dev_buf, f1) \<Rightarrow>
          if r < 0 then Inr (rc LIBUSB_ERROR_IO, w1)
          else if r < int DEVICE_DESC_LENGTH then Inr (rc LIBUSB_ERROR_IO, w1)
          else bindF (deref (lib_devices w1) (Some d)) (\<lambda>(_, dv).
            let w2 = put_device d (dv\<lparr>num_configurations := dev_buf ! (DEVICE_DESC_LENGTH - 1)\<rparr>) w1
            in bindF (if configured then cache_active_config env d f1 active_config w2 else Inr (0, w2)) (\<lambda>(r, w3).
              if r < 0 then Inr (r, w3)
              else bindF (set_priv d (\<lambda>p. p\<lparr>priv_dev_descriptor := Some dev_buf\<rparr>) w3) (\<lambda>w4.
                Inr (0, w4))))))"

definition cache_descriptors :: "linux_env \<Rightarrow> addr \<Rightarrow> lib_device \<Rightarrow> lib_context \<Rightarrow> fault + int \<times> lib_context" where
  "cache_descriptors env d dv w =
     bindF (sysfs_active env (os_priv dv) w) (\<lambda>act. case act of
         Inl tmp \<Rightarrow> Inr (tmp, w)
       | Inr (active, configured) \<Rightarrow>
           let path = get_usbfs_path env (bus_number dv) (device_address dv)
           in case open_node env path active of
                None \<Rightarrow> Inr (rc LIBUSB_ERROR_IO, w)
              | Some (f, active') \<Rightarrow> (case node_active env path active' configured w of
                  Inl r \<Rightarrow> Inr (r, w)
                | Inr (active'', configured') \<Rightarrow> read_descriptors env d f active'' configured' w))"

text \<open>The directory in sysfs is kept in a block of its own.\<close>

definition keep_sysfs_dir :: "string option \<Rightarrow> linux_device_priv \<Rightarrow> lib_context \<Rightarrow> (linux_device_priv option) \<times> lib_context" where
  "keep_sysfs_dir sysfs_dir priv w =
     (case sysfs_dir of
        None \<Rightarrow> (Some priv, w)
      | Some dir \<Rightarrow> (case new_block w of
            (None, w1) \<Rightarrow> (None, w1)
          | (Some _, w1) \<Rightarrow> (Some (priv\<lparr>priv_sysfs_dir := Some dir\<rparr>), w1)))"

definition initialize_device ::
    "linux_env \<Rightarrow> addr \<Rightarrow> u8 \<Rightarrow> u8 \<Rightarrow> string option \<Rightarrow> lib_context \<Rightarrow> fault + int \<times> lib_context" where
  "initialize_device env d busnum devaddr sysfs_dir w =
     bindF (deref (lib_devices w) (Some d)) (\<lambda>(_, dv).
       let dv1 = dv\<lparr>bus_number := busnum, device_address := devaddr\<rparr>
       in case keep_sysfs_dir sysfs_dir (os_priv dv1) (put_device d dv1 w) of
            (None, w1) \<Rightarrow> Inr (rc LIBUSB_ERROR_NO_MEM, w1)
          | (Some priv, w1) \<Rightarrow>
              let dv2 = dv1\<lparr>os_priv := priv\<rparr>
              in if sysfs_has_descriptors w1 \<noteq> 0 then Inr (0, put_device d dv2 w1)
                 else
                   let dv3 = dv1\<lparr>os_priv := priv\<lparr>priv_dev_descriptor := None, priv_config_descriptor := None\<rparr>\<rparr>
                   in cache_descriptors env d dv3 (put_device d dv3 w1))"

text \<open>The check of a new device, over the descriptor the backend gives.\<close>

definition sanitize_new_device :: "linux_env \<Rightarrow> addr \<Rightarrow> lib_context \<Rightarrow> fault + int \<times> lib_context" where
  "sanitize_new_device env d w =
     bindF (deref (lib_devices w) (Some d)) (\<lambda>(_, dv).
     bindF (op_get_device_descriptor env (os_priv dv) w) (\<lambda>(r, raw, _).
       usbi_sanitize_device (r, filled (stack_bytes env) DEVICE_DESC_LENGTH raw ! (DEVICE_DESC_LENGTH - 1)) d w))"

section \<open>Scans\<close>

text \<open>Adding a device to the array; the device that was made for it is released again.\<close>

definition add_device :: "addr \<Rightarrow> addr \<Rightarrow> bool \<Rightarrow> lib_context \<Rightarrow> fault + int \<times> addr \<times> lib_context" where
  "add_device p d need_unref w =
     bindF (discovered_devs_append p d w) (\<lambda>(q, w1).
     bindF (if need_unref then libusb_unref_device (Some d) w1 else Inr w1) (\<lambda>w2.
       Inr (case q of None \<Rightarrow> (rc LIBUSB_ERROR_NO_MEM, p, w2) | Some q \<Rightarrow> (0, q, w2))))"

definition make_device ::
    "linux_env \<Rightarrow> addr \<Rightarrow> u8 \<Rightarrow> u8 \<Rightarrow> string option \<Rightarrow> lib_context \<Rightarrow> fault + int \<times> lib_context" where
  "make_device env d busnum devaddr sysfs_dir w =
     bindF (initialize_device env d busnum devaddr sysfs_dir w) (\<lambda>(r, w1).
       if r < 0 then Inr (r, w1) else sanitize_new_device env d w1)"

definition enumerate_device ::
    "linux_env \<Rightarrow> addr \<Rightarrow> u8 \<Rightarrow> u8 \<Rightarrow> string option \<Rightarrow> lib_context \<Rightarrow> fault + int \<times> addr \<times> lib_context" where
  "enumerate_device env p busnum devaddr sysfs_dir w =
     (let session_id = uint busnum * 256 + uint devaddr
      in bindF (usbi_get_device_by_session_id session_id w) (\<lambda>dev.
         case dev of
           Some d \<Rightarrow> add_device p d False w
         | None \<Rightarrow> (case usbi_alloc_device (fresh_device env) session_id w of
             (None, w1) \<Rightarrow> Inr (rc LIBUSB_ERROR_NO_MEM, p, w1)
           | (Some d, w1) \<Rightarrow>
               bindF (make_device env d busnum devaddr sysfs_dir w1) (\<lambda>(r, w2).
                 if r < 0 then bindF (libusb_unref_device (Some d) w2) (\<lambda>w3. Inr (r, p, w3))
                 else add_device p d True w2))))"

text \<open>A bus of usbfs. When a device fails the caller keeps the address it had before, although the array
  may have moved.\<close>

fun busdir_loop :: "linux_env \<Rightarrow> u8 \<Rightarrow> string list \<Rightarrow> int \<Rightarrow> addr \<Rightarrow> lib_context
    \<Rightarrow> fault + int \<times> addr \<times> lib_context" where
  "busdir_loop env busnum [] r p w = Inr (r, p, w)"
| "busdir_loop env busnum (name # names) r p w =
     (if take 1 name = ''.'' then busdir_loop env busnum names r p w
      else if atoi name = 0 then busdir_loop env busnum names r p w
      else bindF (enumerate_device env p busnum (word_of_int (atoi name)) None w) (\<lambda>(r, q, w1).
        if r < 0 then Inr (r, q, w1) else busdir_loop env busnum names r q w1))"

definition usbfs_scan_busdir :: "linux_env \<Rightarrow> addr \<Rightarrow> u8 \<Rightarrow> lib_context \<Rightarrow> fault + int \<times> addr \<times> lib_context" where
  "usbfs_scan_busdir env p busnum w =
     (case dir_entries env (snprintf_s PATH_MAX (usbfs_path env @ ''/'' @ pad3 busnum)) of
        None \<Rightarrow> Inr (rc LIBUSB_ERROR_IO, p, w)
      | Some names \<Rightarrow> bindF (busdir_loop env busnum names 0 p w) (\<lambda>(r, q, w1).
          Inr (r, if r < 0 then p else q, w1)))"

fun buses_loop :: "linux_env \<Rightarrow> string list \<Rightarrow> int \<Rightarrow> addr \<Rightarrow> lib_context \<Rightarrow> fault + int \<times> addr \<times> lib_context" where
  "buses_loop env [] r p w = Inr (r, p, w)"
| "buses_loop env (name # names) r p w =
     (if take 1 name = ''.'' then buses_loop env names r p w
      else if atoi name = 0 then buses_loop env names r p w
      else bindF (usbfs_scan_busdir env p (word_of_int (atoi name)) w) (\<lambda>(r, q, w1).
        if r < 0 then Inr (r, p, w1) else buses_loop env names r q w1))"

definition usbfs_get_device_list :: "linux_env \<Rightarrow> addr \<Rightarrow> lib_context \<Rightarrow> fault + int \<times> addr \<times> lib_context" where
  "usbfs_get_device_list env p w =
     (case dir_entries env (usbfs_path env) of
        None \<Rightarrow> Inr (rc LIBUSB_ERROR_IO, p, w)
      | Some names \<Rightarrow> buses_loop env names 0 p w)"

text \<open>A device in sysfs: the code, whether usbfs must be used instead, and the array.\<close>

definition note_descriptors :: "linux_env \<Rightarrow> string \<Rightarrow> lib_context \<Rightarrow> lib_context" where
  "note_descriptors env devname w =
     (if sysfs_has_descriptors w = -1
      then w\<lparr>sysfs_has_descriptors := (if is_regular env (sysfs_path devname ''descriptors'') then 1 else 0)\<rparr>
      else w)"

definition read_number :: "linux_env \<Rightarrow> string \<Rightarrow> string \<Rightarrow> int option" where
  "read_number env devname attr =
     (case open_read env (sysfs_path devname attr) of Inl _ \<Rightarrow> None | Inr f \<Rightarrow> scan_int f)"

definition sysfs_scan_device ::
    "linux_env \<Rightarrow> addr \<Rightarrow> string \<Rightarrow> lib_context \<Rightarrow> fault + int \<times> bool \<times> addr \<times> lib_context" where
  "sysfs_scan_device env p devname w =
     (let w1 = note_descriptors env devname w
      in if open_read env (sysfs_path devname ''busnum'') = Inl ENOENT
         then Inr (rc LIBUSB_ERROR_OTHER, True, p, w1\<lparr>sysfs_can_relate_devices := 0\<rparr>)
         else case open_read env (sysfs_path devname ''busnum'') of
             Inl _ \<Rightarrow> Inr (rc LIBUSB_ERROR_IO, False, p, w1)
           | Inr f \<Rightarrow>
               let w2 = w1\<lparr>sysfs_can_relate_devices := 1\<rparr>
               in case (scan_int f, read_number env devname ''devnum'') of
                    (Some busnum, Some devaddr) \<Rightarrow>
                      if busnum > 255 \<or> devaddr > 255 then Inr (rc LIBUSB_ERROR_INVALID_PARAM, False, p, w2)
                      else bindF (enumerate_device env p (word_of_int busnum) (word_of_int devaddr)
                                    (Some devname) w2) (\<lambda>(r, q, w3). Inr (r, False, q, w3))
                  | _ \<Rightarrow> Inr (rc LIBUSB_ERROR_IO, False, p, w2))"

definition skip_entry :: "string \<Rightarrow> bool" where
  "skip_entry name \<longleftrightarrow> (\<not> list_ex (is_digit 10) (take 1 name) \<and> take 3 name \<noteq> ''usb'') \<or> CHR '':'' \<in> set name"

fun sysfs_loop :: "linux_env \<Rightarrow> string list \<Rightarrow> int \<Rightarrow> addr \<Rightarrow> lib_context \<Rightarrow> fault + int \<times> bool \<times> addr \<times> lib_context" where
  "sysfs_loop env [] r p w = Inr (r, False, p, w)"
| "sysfs_loop env (name # names) r p w =
     (if skip_entry name then sysfs_loop env names r p w
      else bindF (sysfs_scan_device env p name w) (\<lambda>(r, fallback, q, w1).
        if r < 0 then Inr (r, fallback, p, w1) else sysfs_loop env names r q w1))"

definition sysfs_get_device_list :: "linux_env \<Rightarrow> addr \<Rightarrow> lib_context \<Rightarrow> fault + int \<times> bool \<times> addr \<times> lib_context" where
  "sysfs_get_device_list env p w =
     (case dir_entries env SYSFS_DEVICE_PATH of
        None \<Rightarrow> Inr (rc LIBUSB_ERROR_IO, False, p, w)
      | Some names \<Rightarrow> sysfs_loop env names 0 p w)"

definition op_get_device_list :: "linux_env \<Rightarrow> device_scan" where
  "op_get_device_list env p w =
     (if sysfs_can_relate_devices w \<noteq> 0
      then bindF (sysfs_get_device_list env p w) (\<lambda>(r, fallback, q, w1).
        if \<not> fallback then Inr (r, q, w1) else usbfs_get_device_list env q w1)
      else usbfs_get_device_list env p w)"

section \<open>A new device keeps the counts right\<close>

text \<open>What the backend leaves alone while it looks at a device.\<close>

definition kept :: "addr multiset \<Rightarrow> lib_context \<Rightarrow> lib_context \<Rightarrow> bool" where
  "kept rs w w' \<longleftrightarrow> refs_ok w' rs \<and> user_same w w' \<and> discs w' = discs w
     \<and> sysfs_has_descriptors w' = sysfs_has_descriptors w
     \<and> sysfs_can_relate_devices w' = sysfs_can_relate_devices w"

lemma kept_refl: "refs_ok w rs \<Longrightarrow> kept rs w w"
  by (simp add: kept_def)

lemma kept_trans: "kept rs w w1 \<Longrightarrow> kept rs w1 w2 \<Longrightarrow> kept rs w w2"
  using user_same_trans by (auto simp: kept_def)

lemma kept_refs: "kept rs w w' \<Longrightarrow> refs_ok w' rs"
  by (simp add: kept_def)

lemma new_block_kept:
  assumes "new_block w = (x, w')" "refs_ok w rs"
  shows "kept rs w w' \<and> lib_devices w' = lib_devices w"
  using assms by (cases x) (auto simp: kept_def user_same_def refs_ok_def fresh_above_def
    dest!: new_block_Some new_block_None)

lemma put_device_kept:
  assumes "refs_ok w rs" "lib_devices w d = Some dv" "refcnt dv' = refcnt dv"
  shows "kept rs w (put_device d dv' w)"
proof -
  have "d < next_addr w" using assms(1,2) by (auto simp: refs_ok_def fresh_above_def not_le [symmetric])
  then show ?thesis using assms
    by (auto simp: kept_def user_same_def refs_ok_def fresh_above_def)
qed

lemma set_priv_kept:
  assumes "refs_ok w rs" "lib_devices w d = Some dv"
  shows "\<exists>w'. set_priv d g w = Inr w' \<and> kept rs w w'
    \<and> lib_devices w' d = Some (dv\<lparr>os_priv := g (os_priv dv)\<rparr>)"
  using put_device_kept [OF assms, of "dv\<lparr>os_priv := g (os_priv dv)\<rparr>"] assms(2)
  by (simp add: set_priv_def)

lemma get_config_length:
  "get_config_descriptor big f i n = Inr (r, bs) \<Longrightarrow> 0 \<le> r \<Longrightarrow> length bs = n"
  by (auto simp: get_config_descriptor_def lseek_set_def read_fd_def Let_def elim!: bindF_InrE
      split: prod.splits if_splits)

lemma parse_bbw: "4 \<le> length tmp \<Longrightarrow> \<exists>fs n. usbi_parse_descriptor big tmp 0 ''bbw'' he = Inr (fs, n)"
  by (auto simp: rd_def)

lemma cache_active_config_kept:
  assumes "refs_ok w rs" "lib_devices w d = Some dv"
  shows "\<exists>r w' dv'. cache_active_config env d f a w = Inr (r, w') \<and> kept rs w w'
    \<and> lib_devices w' d = Some dv' \<and> priv_sysfs_dir (os_priv dv') = priv_sysfs_dir (os_priv dv)"
proof -
  obtain r idx where i: "active_index env dv a = (r, idx)" by fastforce
  define k where "k = unat (word_of_int idx :: u8)"
  obtain r1 tmp where c1: "get_config_descriptor (big_endian env) f k 8 = Inr (r1, tmp)"
    using get_config_no_fault by blast
  show ?thesis
  proof (cases "r < 0 \<or> r1 < 0")
    case True
    then show ?thesis using assms i c1 kept_refl [OF assms(1)]
      by (cases "r < 0") (simp_all add: cache_active_config_def k_def)
  next
    case False
    then obtain fs n where p: "usbi_parse_descriptor (big_endian env) tmp 0 ''bbw'' False = Inr (fs, n)"
      using parse_bbw [of tmp] get_config_length [OF c1] by fastforce
    obtain x w1 where nb: "new_block w = (x, w1)" by fastforce
    note k1 = new_block_kept [OF nb assms(1)]
    obtain r2 buf where c2: "get_config_descriptor (big_endian env) f k (unat (half_of (fs ! 2))) = Inr (r2, buf)"
      using get_config_no_fault by blast
    have "refs_ok w1 rs" "lib_devices w1 d = Some dv" using k1 kept_refs assms(2) by auto
    from set_priv_kept [OF this] obtain w2 where
      s: "set_priv d (\<lambda>p. p\<lparr>priv_config_descriptor := Some buf\<rparr>) w1 = Inr w2" "kept rs w1 w2"
      "lib_devices w2 d = Some (dv\<lparr>os_priv := (os_priv dv)\<lparr>priv_config_descriptor := Some buf\<rparr>\<rparr>)"
      by blast
    show ?thesis using False assms i c1 p nb k1 c2 s kept_trans
      by (cases x; cases "r2 < 0")
        (auto simp: cache_active_config_def k_def simp del: usbi_parse_descriptor.simps)
  qed
qed

text \<open>The cached device descriptor has its 18 bytes.\<close>

definition has_descriptor :: "linux_device_priv \<Rightarrow> bool" where
  "has_descriptor p \<longleftrightarrow> (\<exists>bs. priv_dev_descriptor p = Some bs \<and> length bs = DEVICE_DESC_LENGTH)"

lemma read_descriptors_kept:
  assumes "refs_ok w rs" "lib_devices w d = Some dv"
  shows "\<exists>r w' dv'. read_descriptors env d f a c w = Inr (r, w') \<and> kept rs w w'
    \<and> lib_devices w' d = Some dv' \<and> (0 \<le> r \<longrightarrow> has_descriptor (os_priv dv'))"
proof -
  obtain x w1 where nb: "new_block w = (x, w1)" by fastforce
  note k1 = new_block_kept [OF nb assms(1)]
  obtain r buf f1 where rd: "read_fd DEVICE_DESC_LENGTH f = (r, buf, f1)" by (rule prod_cases3)
  show ?thesis
  proof (cases "x = None \<or> r < 18")
    case True
    then show ?thesis using assms nb k1 rd
      by (cases x; cases "r < 0") (auto simp: read_descriptors_def DEVICE_DESC_LENGTH_def)
  next
    case False
    then have len: "length buf = DEVICE_DESC_LENGTH"
      using rd by (auto simp: read_fd_def Let_def DEVICE_DESC_LENGTH_def split: if_splits)
    define dv1 where "dv1 = dv\<lparr>num_configurations := buf ! (DEVICE_DESC_LENGTH - 1)\<rparr>"
    define w2 where "w2 = put_device d dv1 w1"
    have k2: "kept rs w w2" "lib_devices w2 d = Some dv1"
      using k1 assms put_device_kept [of w1 rs d dv dv1] kept_trans kept_refs
      by (auto simp: w2_def dv1_def)
    obtain r3 w3 dv3 where c: "(if c then cache_active_config env d f1 a w2 else Inr (0, w2)) = Inr (r3, w3)"
      "kept rs w2 w3" "lib_devices w3 d = Some dv3"
      using cache_active_config_kept [OF kept_refs [OF k2(1)] k2(2), of env f1 a]
        k2 kept_refl [OF kept_refs [OF k2(1)]] by (cases c) auto
    obtain w4 where s: "set_priv d (\<lambda>p. p\<lparr>priv_dev_descriptor := Some buf\<rparr>) w3 = Inr w4" "kept rs w3 w4"
      "lib_devices w4 d = Some (dv3\<lparr>os_priv := (os_priv dv3)\<lparr>priv_dev_descriptor := Some buf\<rparr>\<rparr>)"
      using set_priv_kept [OF kept_refs [OF c(2)] c(3)] by blast
    have n: "\<not> r < 0" "\<not> r < int DEVICE_DESC_LENGTH" and x: "\<exists>a. x = Some a"
      using False by (auto simp: DEVICE_DESC_LENGTH_def)
    have e: "put_device d (dv\<lparr>num_configurations := buf ! (DEVICE_DESC_LENGTH - Suc 0)\<rparr>) w1 = w2"
      by (simp add: w2_def dv1_def)
    have run: "read_descriptors env d f a c w = (if r3 < 0 then Inr (r3, w3) else Inr (0, w4))"
      using n x nb rd k1 assms(2) c(1) s(1)
      by (auto simp: read_descriptors_def Let_def e)
    have "kept rs w w3" "kept rs w w4" using k2(1) c(2) s(2) kept_trans by blast+
    then show ?thesis unfolding run using c(3) s(3) len
      by (cases "r3 < 0") (auto simp: has_descriptor_def)
  qed
qed

lemma active_config_returns:
  assumes "priv_sysfs_dir priv \<noteq> None"
  shows "\<exists>r c. sysfs_get_active_config env priv = Inr (r, c)"
  using assms by (auto simp: sysfs_get_active_config_def open_sysfs_attr_def Let_def
      split: option.splits sum.splits prod.splits)

lemma sysfs_active_returns:
  assumes "priv_sysfs_dir priv \<noteq> None \<or> sysfs_can_relate_devices w = 0"
  shows "\<exists>act. sysfs_active env priv w = Inr act \<and> (\<forall>t. act = Inl t \<longrightarrow> t < 0)"
proof (cases "sysfs_can_relate_devices w = 0")
  case False
  then obtain r c where "sysfs_get_active_config env priv = Inr (r, c)"
    using active_config_returns [of priv env] assms by auto
  then show ?thesis using False by (cases "r < 0"; cases c) (simp_all add: sysfs_active_def)
qed (simp add: sysfs_active_def)

lemma cache_descriptors_kept:
  assumes "refs_ok w rs" "lib_devices w d = Some dv'"
    and "priv_sysfs_dir (os_priv dv) \<noteq> None \<or> sysfs_can_relate_devices w = 0"
  shows "\<exists>r w' dv'. cache_descriptors env d dv w = Inr (r, w') \<and> kept rs w w'
    \<and> lib_devices w' d = Some dv' \<and> (0 \<le> r \<longrightarrow> has_descriptor (os_priv dv'))"
proof -
  have stop: "\<exists>r' w' dv'. Inr (r, w) = Inr (r', w') \<and> kept rs w w'
      \<and> lib_devices w' d = Some dv' \<and> (0 \<le> r' \<longrightarrow> has_descriptor (os_priv dv'))" if "r < 0" for r :: int
    using that assms(2) kept_refl [OF assms(1)] by auto
  obtain act where act: "sysfs_active env (os_priv dv) w = Inr act" "\<And>t. act = Inl t \<Longrightarrow> t < 0"
    using sysfs_active_returns [OF assms(3)] by blast
  show ?thesis
  proof (cases act)
    case (Inl t)
    then show ?thesis using act stop [of t] by (simp add: cache_descriptors_def)
  next
    case (Inr ac)
    obtain a c where ac: "ac = (a, c)" by fastforce
    let ?path = "get_usbfs_path env (bus_number dv) (device_address dv)"
    show ?thesis
    proof (cases "open_node env ?path a")
      case None
      then show ?thesis using act Inr ac stop [of "rc LIBUSB_ERROR_IO"]
        by (simp add: cache_descriptors_def)
    next
      case (Some fa)
      obtain f a' where fa: "fa = (f, a')" by fastforce
      show ?thesis
      proof (cases "node_active env ?path a' c w")
        case (Inl r)
        then have "r < 0" by (auto simp: node_active_def Let_def split: if_splits)
        then show ?thesis using act \<open>act = Inr ac\<close> ac Some fa Inl stop [of r]
          by (simp add: cache_descriptors_def)
      next
        case (Inr ac')
        then show ?thesis using act \<open>act = Inr ac\<close> ac Some fa
            read_descriptors_kept [OF assms(1,2), of env f "fst ac'" "snd ac'"]
          by (cases ac') (simp add: cache_descriptors_def)
      qed
    qed
  qed
qed

text \<open>Where the backend can name the files of the device: it has a directory in sysfs, or sysfs is not
  used at all.\<close>

definition dir_known :: "string option \<Rightarrow> lib_context \<Rightarrow> bool" where
  "dir_known sysfs_dir w \<longleftrightarrow>
     sysfs_dir \<noteq> None \<or> sysfs_has_descriptors w = 0 \<and> sysfs_can_relate_devices w = 0"

definition readable :: "lib_context \<Rightarrow> linux_device_priv \<Rightarrow> bool" where
  "readable w p \<longleftrightarrow> (if sysfs_has_descriptors w \<noteq> 0 then priv_sysfs_dir p \<noteq> None else has_descriptor p)"

lemma keep_sysfs_dir_kept:
  assumes "keep_sysfs_dir dir priv w = (x, w')" "refs_ok w rs"
  shows "kept rs w w' \<and> lib_devices w' = lib_devices w
    \<and> (case x of None \<Rightarrow> True | Some p \<Rightarrow> p = (if dir = None then priv else priv\<lparr>priv_sysfs_dir := dir\<rparr>))"
  using assms new_block_kept kept_refl
  by (auto simp: keep_sysfs_dir_def split: option.splits prod.splits)

lemma initialize_device_kept:
  assumes "refs_ok w rs" "lib_devices w d = Some dv" "dir_known dir w"
  shows "\<exists>r w' dv'. initialize_device env d b a dir w = Inr (r, w') \<and> kept rs w w'
    \<and> lib_devices w' d = Some dv' \<and> (0 \<le> r \<longrightarrow> readable w (os_priv dv'))"
proof -
  define dv1 where "dv1 = dv\<lparr>bus_number := b, device_address := a\<rparr>"
  have k0: "kept rs w (put_device d dv1 w)"
    using put_device_kept [OF assms(1,2), of dv1] by (simp add: dv1_def)
  obtain x w1 where kd: "keep_sysfs_dir dir (os_priv dv1) (put_device d dv1 w) = (x, w1)" by fastforce
  note k1 = keep_sysfs_dir_kept [OF kd kept_refs [OF k0]]
  have w1: "kept rs w w1" "lib_devices w1 d = Some dv1" using k0 k1 kept_trans by auto
  have flags: "sysfs_has_descriptors w1 = sysfs_has_descriptors w"
    "sysfs_can_relate_devices w1 = sysfs_can_relate_devices w" using w1(1) by (simp_all add: kept_def)
  have init: "initialize_device env d b a dir w = (case x of
        None \<Rightarrow> Inr (rc LIBUSB_ERROR_NO_MEM, w1)
      | Some priv \<Rightarrow>
          let dv2 = dv1\<lparr>os_priv := priv\<rparr>
          in if sysfs_has_descriptors w1 \<noteq> 0 then Inr (0, put_device d dv2 w1)
             else let dv3 = dv1\<lparr>os_priv := priv\<lparr>priv_dev_descriptor := None, priv_config_descriptor := None\<rparr>\<rparr>
                  in cache_descriptors env d dv3 (put_device d dv3 w1))"
    using assms(2) kd by (cases x) (simp_all add: initialize_device_def dv1_def Let_def)
  show ?thesis
  proof (cases x)
    case None
    then show ?thesis using w1 by (simp add: init)
  next
    case (Some p)
    then have p: "p = (if dir = None then os_priv dv1 else (os_priv dv1)\<lparr>priv_sysfs_dir := dir\<rparr>)"
      using k1 by simp
    show ?thesis
    proof (cases "sysfs_has_descriptors w = 0")
      case False
      then have "priv_sysfs_dir p \<noteq> None" using assms(3) p by (auto simp: dir_known_def)
      then show ?thesis using False Some flags w1 put_device_kept [OF kept_refs [OF w1(1)] w1(2)] kept_trans
        by (auto simp: init readable_def Let_def)
    next
      case True
      define dv3 where "dv3 = dv1\<lparr>os_priv := p\<lparr>priv_dev_descriptor := None, priv_config_descriptor := None\<rparr>\<rparr>"
      have k3: "kept rs w1 (put_device d dv3 w1)"
        using put_device_kept [OF kept_refs [OF w1(1)] w1(2), of dv3] by (simp add: dv3_def)
      have "priv_sysfs_dir (os_priv dv3) \<noteq> None \<or> sysfs_can_relate_devices (put_device d dv3 w1) = 0"
        using assms(3) p flags by (auto simp: dir_known_def dv3_def)
      from cache_descriptors_kept [OF kept_refs [OF k3] _ this, of d dv3 env] obtain r w' dv' where
        "cache_descriptors env d dv3 (put_device d dv3 w1) = Inr (r, w')" "kept rs (put_device d dv3 w1) w'"
        "lib_devices w' d = Some dv'" "0 \<le> r \<longrightarrow> has_descriptor (os_priv dv')" by auto
      moreover have "initialize_device env d b a dir w = cache_descriptors env d dv3 (put_device d dv3 w1)"
        using True Some flags by (simp add: init dv3_def Let_def)
      ultimately show ?thesis using True kept_trans [OF w1(1) kept_trans [OF k3]]
        by (auto simp: readable_def)
    qed
  qed
qed

lemma device_descriptor_returns:
  assumes "readable w p"
  shows "\<exists>r raw he. op_get_device_descriptor env p w = Inr (r, raw, he)"
proof (cases "sysfs_has_descriptors w = 0")
  case True
  then show ?thesis using assms
    by (auto simp: op_get_device_descriptor_def readable_def has_descriptor_def copy_bytes_def
        usbfs_get_device_descriptor_def)
next
  case False
  then obtain dir where "priv_sysfs_dir p = Some dir" using assms by (auto simp: readable_def)
  then have "\<exists>r bs. sysfs_get_device_descriptor env p = Inr (r, bs)"
    by (cases "open_read env (sysfs_path dir ''descriptors'')")
      (auto simp: sysfs_get_device_descriptor_def open_sysfs_attr_def split: prod.splits)
  then show ?thesis using False by (auto simp: op_get_device_descriptor_def)
qed

lemma sanitize_kept:
  assumes "refs_ok w rs" "lib_devices w d = Some dv" "readable w (os_priv dv)"
  shows "\<exists>r w'. sanitize_new_device env d w = Inr (r, w') \<and> kept rs w w'"
proof -
  obtain r raw he where "op_get_device_descriptor env (os_priv dv) w = Inr (r, raw, he)"
    using device_descriptor_returns [OF assms(3)] by blast
  then show ?thesis using assms(1,2) kept_refl [OF assms(1)]
      put_device_kept [OF assms(1,2), of "dv\<lparr>num_configurations := _\<rparr>"]
    by (auto simp: sanitize_new_device_def usbi_sanitize_device_def)
qed

lemma make_device_kept:
  assumes "refs_ok w rs" "lib_devices w d = Some dv" "dir_known dir w"
  shows "\<exists>r w'. make_device env d b a dir w = Inr (r, w') \<and> kept rs w w'"
proof -
  obtain r w1 dv1 where i: "initialize_device env d b a dir w = Inr (r, w1)" "kept rs w w1"
    "lib_devices w1 d = Some dv1" "0 \<le> r \<longrightarrow> readable w (os_priv dv1)"
    using initialize_device_kept [OF assms] by blast
  show ?thesis
  proof (cases "r < 0")
    case False
    then have "readable w1 (os_priv dv1)" using i by (simp add: readable_def kept_def)
    from sanitize_kept [OF kept_refs [OF i(2)] i(3) this, of env] show ?thesis
      using False i kept_trans by (auto simp: make_device_def)
  qed (use i in \<open>simp add: make_device_def\<close>)
qed
section \<open>The scans keep the counts right\<close>

lemma append_array:
  assumes "array_ok rs p w" "d \<in># rs \<or> d \<in> dom (lib_devices w)"
  shows "\<exists>q w'. discovered_devs_append p d w = Inr (q, w') \<and> user_same w w'
    \<and> array_ok rs (case q of None \<Rightarrow> p | Some q \<Rightarrow> q) w'
    \<and> sysfs_has_descriptors w' = sysfs_has_descriptors w
    \<and> sysfs_can_relate_devices w' = sysfs_can_relate_devices w"
proof -
  obtain dd where dd: "discs w p = Some dd" "refs_ok w (rs + mset (dd_devices dd))"
    using assms(1) by (auto simp: array_ok_def)
  have "d \<in># rs + mset (dd_devices dd)" using assms(2) dd(2) by (auto simp: refs_ok_def)
  note ref = ref_device_ok [OF _ this]
  have put: "array_ok rs q (w1\<lparr>discs := (discs w1)(q \<mapsto> \<lparr>capacity = c, dd_devices = dd_devices dd @ [d]\<rparr>)\<rparr>)"
    if "refs_ok w1 (add_mset d (rs + mset (dd_devices dd)))" "q < next_addr w1" for q w1 c
    using that by (auto simp: array_ok_def refs_ok_def fresh_above_def)
  have fresh: "p < next_addr w"
    using dd by (auto simp: refs_ok_def fresh_above_def not_le [symmetric])
  show ?thesis
  proof (cases "length (dd_devices dd) < capacity dd")
    case True
    from ref [OF dd(2)] obtain w1 where r: "libusb_ref_device (Some d) w = Inr (d, w1)"
      "refs_ok w1 (add_mset d (rs + mset (dd_devices dd)))" "same_lists w w1" by blast
    have "p < next_addr w1" using fresh r(3) by (simp add: same_lists_def)
    from put [OF r(2) this, of "capacity dd"] show ?thesis using True r(1,3) dd(1)
      by (simp add: discovered_devs_append_def same_lists_def user_same_def)
        (metis (full_types) discovered_devs.surjective discovered_devs.update_convs(2) unit.exhaust)
  next
    case False
    obtain x w1 where nb: "new_block w = (x, w1)" by fastforce
    note k = new_block_kept [OF nb dd(2)]
    show ?thesis
    proof (cases x)
      case None
      then have "array_ok rs p w1" using k dd(1) by (auto simp: array_ok_def kept_def)
      then show ?thesis using False None dd(1) nb k
        by (simp add: discovered_devs_append_def kept_def)
    next
      case (Some q)
      then have q: "q = next_addr w" "next_addr w1 = Suc (next_addr w)"
        using nb by (auto dest!: new_block_Some)
      let ?w = "w1\<lparr>discs := (discs w1)(p := None)\<rparr>"
      have "refs_ok ?w (rs + mset (dd_devices dd))" using k by (auto simp: kept_def refs_ok_def fresh_above_def)
      from ref [OF this] obtain w2 where r: "libusb_ref_device (Some d) ?w = Inr (d, w2)"
        "refs_ok w2 (add_mset d (rs + mset (dd_devices dd)))" "same_lists ?w w2" by blast
      have "q < next_addr w2" using q r(3) by (simp add: same_lists_def)
      from put [OF r(2) this] show ?thesis using False Some r(1,3) dd(1) nb k
        by (simp add: discovered_devs_append_def same_lists_def user_same_def kept_def)
    qed
  qed
qed

text \<open>What a step of a scan leaves: the array holds its references, nothing of the user has changed, and
  a step that failed has left the array where it was.\<close>

definition step_ok :: "addr multiset \<Rightarrow> addr \<Rightarrow> lib_context \<Rightarrow> int \<Rightarrow> addr \<Rightarrow> lib_context \<Rightarrow> bool" where
  "step_ok rs p w r q w' \<longleftrightarrow> user_same w w' \<and> array_ok rs q w' \<and> (r < 0 \<longrightarrow> q = p)
     \<and> sysfs_has_descriptors w' = sysfs_has_descriptors w
     \<and> sysfs_can_relate_devices w' = sysfs_can_relate_devices w"

lemma array_unref:
  assumes "array_ok (add_mset d rs) p w"
  shows "\<exists>w'. libusb_unref_device (Some d) w = Inr w' \<and> array_ok rs p w' \<and> same_lists w w'"
proof -
  obtain dd where dd: "discs w p = Some dd" "refs_ok w (add_mset d rs + mset (dd_devices dd))"
    using assms by (auto simp: array_ok_def)
  from unref_device_ok [OF dd(2), of d] show ?thesis
    using dd(1) by (auto simp: array_ok_def same_lists_def)
qed

lemma session_lookup:
  assumes "refs_ok w rs"
  shows "\<exists>x. usbi_get_device_by_session_id i w = Inr x \<and> (\<forall>d. x = Some d \<longrightarrow> d \<in> dom (lib_devices w))"
proof -
  have "set ds \<subseteq> dom (lib_devices w) \<Longrightarrow>
    \<exists>x. session_loop ds i w = Inr x \<and> (\<forall>d. x = Some d \<longrightarrow> d \<in> dom (lib_devices w))" for ds
    by (induction ds) auto
  then show ?thesis using assms by (simp add: usbi_get_device_by_session_id_def refs_ok_def)
qed

lemma alloc_device:
  assumes "usbi_alloc_device junk i w = (x, w')" "refs_ok w rs"
  shows "case x of None \<Rightarrow> kept rs w w'
    | Some d \<Rightarrow> kept (add_mset d rs) w w' \<and> (\<exists>dv. lib_devices w' d = Some dv)"
proof -
  obtain y w1 where nb: "new_block w = (y, w1)" by fastforce
  note k = new_block_kept [OF nb assms(2)]
  show ?thesis
  proof (cases y)
    case None
    then show ?thesis using assms(1) nb k by (auto simp: usbi_alloc_device_def)
  next
    case (Some d)
    then have d: "d = next_addr w" "next_addr w1 = Suc (next_addr w)" using nb by (auto dest!: new_block_Some)
    then have none: "lib_devices w d = None" using assms(2) by (simp add: refs_ok_def fresh_above_def)
    then have "d \<notin> set_mset rs" "d \<notin> set (usb_devs w)" using assms(2) by (auto simp: refs_ok_def)
    then have new: "lib_devices w d = None" "d \<notin># rs" "d \<notin> set (usb_devs w)" "count rs d = 0"
      using none by (simp_all add: not_in_iff)
    have u: "usb_devs w1 = usb_devs w" using nb Some by (auto dest!: new_block_Some)
    show ?thesis
    proof (cases "mutex_ok w1")
      case True
      then have x: "x = Some d" "w' = (put_device d (junk\<lparr>refcnt := 1, session_data := i, os_priv := zero_priv\<rparr>) w1)
          \<lparr>usb_devs := d # usb_devs w1\<rparr>"
        using assms(1) nb Some by (simp_all add: usbi_alloc_device_def)
      define dv where "dv = junk\<lparr>refcnt := 1, session_data := i, os_priv := zero_priv\<rparr>"
      have dv: "refcnt dv = 1" "lib_devices w' = (lib_devices w)(d \<mapsto> dv)"
        using k unfolding x by (simp_all add: dv_def)
      have rest: "usb_devs w' = d # usb_devs w" "next_addr w' = Suc d" "lib_handles w' = lib_handles w"
        "discs w' = discs w" "dev_arrays w' = dev_arrays w" "sysfs_has_descriptors w' = sysfs_has_descriptors w"
        "sysfs_can_relate_devices w' = sysfs_can_relate_devices w" "user_same w w'"
        using k d u unfolding x by (simp_all add: kept_def user_same_def)
      have "fresh_above w'" using assms(2) d dv rest by (auto simp: refs_ok_def fresh_above_def)
      then have "refs_ok w' (add_mset d rs)" using assms(2) new dv rest(1) by (auto simp: refs_ok_def)
      then show ?thesis using x(1) dv rest by (simp add: kept_def)
    next
      case False
      then show ?thesis using assms(1) nb Some k by (auto simp: usbi_alloc_device_def)
    qed
  qed
qed

lemma add_device_step:
  assumes "if need then array_ok (add_mset d rs) p w else array_ok rs p w \<and> d \<in> dom (lib_devices w)"
  shows "\<exists>r q w'. add_device p d need w = Inr (r, q, w') \<and> step_ok rs p w r q w'"
proof -
  let ?rs = "if need then add_mset d rs else rs"
  obtain q w1 where a: "discovered_devs_append p d w = Inr (q, w1)" "user_same w w1"
    "array_ok ?rs (case q of None \<Rightarrow> p | Some q \<Rightarrow> q) w1"
    "sysfs_has_descriptors w1 = sysfs_has_descriptors w" "sysfs_can_relate_devices w1 = sysfs_can_relate_devices w"
    using append_array [of ?rs p w d] assms by (auto split: if_splits)
  have "\<exists>w2. (if need then libusb_unref_device (Some d) w1 else Inr w1) = Inr w2
    \<and> array_ok rs (case q of None \<Rightarrow> p | Some q \<Rightarrow> q) w2 \<and> same_lists w1 w2"
    using array_unref [of d rs _ w1] a(3) by (cases need) auto
  then obtain w2 where "(if need then libusb_unref_device (Some d) w1 else Inr w1) = Inr w2"
    "array_ok rs (case q of None \<Rightarrow> p | Some q \<Rightarrow> q) w2" "same_lists w1 w2" by blast
  then show ?thesis using a(1,2,4,5) user_same_trans [OF a(2) same_lists_user]
    by (cases q) (auto simp: add_device_def step_ok_def same_lists_def)
qed

lemma enumerate_device_step:
  assumes "array_ok rs p w" "dir_known dir w"
  shows "\<exists>r q w'. enumerate_device env p b a dir w = Inr (r, q, w') \<and> step_ok rs p w r q w'"
proof -
  obtain dd where dd: "discs w p = Some dd" "refs_ok w (rs + mset (dd_devices dd))"
    using assms(1) by (auto simp: array_ok_def)
  define i where "i = uint b * 256 + uint a"
  obtain x where x: "usbi_get_device_by_session_id i w = Inr x" "\<forall>d. x = Some d \<longrightarrow> d \<in> dom (lib_devices w)"
    using session_lookup [OF dd(2)] by blast
  show ?thesis
  proof (cases x)
    case (Some d)
    then show ?thesis using add_device_step [of False d rs p w] assms(1) x
      by (simp add: enumerate_device_def flip: i_def)
  next
    case None
    obtain y w1 where al: "usbi_alloc_device (fresh_device env) i w = (y, w1)" by fastforce
    note k = alloc_device [OF al dd(2)]
    show ?thesis
    proof (cases y)
      case None
      then show ?thesis using \<open>x = None\<close> x(1) al k dd(1)
        by (auto simp: enumerate_device_def step_ok_def kept_def array_ok_def simp flip: i_def)
    next
      case (Some d)
      then obtain dv where w1: "kept (add_mset d (rs + mset (dd_devices dd))) w w1" "lib_devices w1 d = Some dv"
        using k by auto
      have "dir_known dir w1" using assms(2) w1(1) by (simp add: dir_known_def kept_def)
      from make_device_kept [OF kept_refs [OF w1(1)] w1(2) this] obtain r w2 where
        m: "make_device env d b a dir w1 = Inr (r, w2)" "kept (add_mset d (rs + mset (dd_devices dd))) w w2"
        using kept_trans [OF w1(1)] by blast
      have ar: "array_ok (add_mset d rs) p w2" using m(2) dd(1) by (simp add: array_ok_def kept_def)
      show ?thesis
      proof (cases "r < 0")
        case True
        from array_unref [OF ar] obtain w3 where
          "libusb_unref_device (Some d) w2 = Inr w3" "array_ok rs p w3" "same_lists w2 w3" by blast
        then show ?thesis using True \<open>x = None\<close> x(1) al Some m user_same_trans [of w w2 w3] same_lists_user
          by (auto simp: enumerate_device_def step_ok_def kept_def same_lists_def simp flip: i_def)
      next
        case False
        from add_device_step [of True d rs p w2] ar obtain r' q w3 where
          "add_device p d True w2 = Inr (r', q, w3)" "step_ok rs p w2 r' q w3" by auto
        then show ?thesis using False \<open>x = None\<close> x(1) al Some m user_same_trans [of w w2 w3]
          by (auto simp: enumerate_device_def step_ok_def kept_def simp flip: i_def)
      qed
    qed
  qed
qed

section \<open>The scan of sysfs keeps the contract\<close>

text \<open>Where sysfs can be related to usbfs: every device in it has a bus number.\<close>

definition relates :: "linux_env \<Rightarrow> lib_context \<Rightarrow> bool" where
  "relates env w \<longleftrightarrow> sysfs_can_relate_devices w \<noteq> 0 \<and>
     (case dir_entries env SYSFS_DEVICE_PATH of
        None \<Rightarrow> True
      | Some names \<Rightarrow> list_all (\<lambda>name. skip_entry name
            \<or> open_read env (sysfs_path name ''busnum'') \<noteq> Inl ENOENT) names)"

lemma array_ok_cong:
  "usb_devs w' = usb_devs w \<Longrightarrow> lib_devices w' = lib_devices w \<Longrightarrow> lib_handles w' = lib_handles w \<Longrightarrow>
   discs w' = discs w \<Longrightarrow> dev_arrays w' = dev_arrays w \<Longrightarrow> next_addr w' = next_addr w \<Longrightarrow>
   array_ok rs p w' = array_ok rs p w"
  by (simp add: array_ok_def refs_ok_def fresh_above_def)

lemma array_ok_flags [simp]:
  "array_ok rs p (w\<lparr>sysfs_can_relate_devices := x\<rparr>) = array_ok rs p w"
  "array_ok rs p (w\<lparr>sysfs_has_descriptors := x\<rparr>) = array_ok rs p w"
  "array_ok rs p (note_descriptors env name w) = array_ok rs p w"
  by (rule array_ok_cong; simp add: note_descriptors_def)+

lemma user_same_flags [simp]:
  "user_same (w\<lparr>sysfs_can_relate_devices := x\<rparr>) w' = user_same w w'"
  "user_same (note_descriptors env name w) w' = user_same w w'"
  by (simp_all add: user_same_def note_descriptors_def)

lemma sysfs_scan_device_step:
  assumes "array_ok rs p w" "open_read env (sysfs_path name ''busnum'') \<noteq> Inl ENOENT"
  shows "\<exists>r q w'. sysfs_scan_device env p name w = Inr (r, False, q, w') \<and> user_same w w'
    \<and> array_ok rs q w' \<and> (r < 0 \<longrightarrow> q = p)"
proof -
  let ?w = "(note_descriptors env name w)\<lparr>sysfs_can_relate_devices := 1\<rparr>"
  have same: "user_same w (note_descriptors env name w)" "user_same w ?w"
    by (simp_all add: user_same_def note_descriptors_def)
  show ?thesis
  proof (cases "open_read env (sysfs_path name ''busnum'')")
    case (Inl e)
    then show ?thesis using assms same by (simp add: sysfs_scan_device_def Let_def)
  next
    case (Inr f)
    consider b a where "scan_int f = Some b" "read_number env name ''devnum'' = Some a" "\<not> (b > 255 \<or> a > 255)"
      | b a where "scan_int f = Some b" "read_number env name ''devnum'' = Some a" "b > 255 \<or> a > 255"
      | "scan_int f = None \<or> read_number env name ''devnum'' = None"
      by fastforce
    then show ?thesis
    proof cases
      case (1 b a)
      have "array_ok rs p ?w" "dir_known (Some name) ?w" using assms(1) by (simp_all add: dir_known_def)
      from enumerate_device_step [OF this, of env "word_of_int b" "word_of_int a"] obtain r q w' where
        "enumerate_device env p (word_of_int b) (word_of_int a) (Some name) ?w = Inr (r, q, w')"
        "step_ok rs p ?w r q w'" by blast
      then show ?thesis using 1 Inr user_same_trans [OF same(2)]
        by (auto simp: sysfs_scan_device_def Let_def step_ok_def)
    qed (use Inr assms(1) same in \<open>auto simp: sysfs_scan_device_def Let_def split: option.splits\<close>)
  qed
qed

lemma sysfs_loop_steps:
  assumes "array_ok rs p w"
    and "list_all (\<lambda>name. skip_entry name \<or> open_read env (sysfs_path name ''busnum'') \<noteq> Inl ENOENT) names"
  shows "\<exists>r q w'. sysfs_loop env names r0 p w = Inr (r, False, q, w') \<and> user_same w w' \<and> array_ok rs q w'"
  using assms
proof (induction names arbitrary: r0 p w)
  case (Cons name names)
  show ?case
  proof (cases "skip_entry name")
    case False
    with Cons.prems(2) have "open_read env (sysfs_path name ''busnum'') \<noteq> Inl ENOENT" by simp
    from sysfs_scan_device_step [OF Cons.prems(1) this] obtain r q w1 where
      s: "sysfs_scan_device env p name w = Inr (r, False, q, w1)" "user_same w w1" "array_ok rs q w1"
        "r < 0 \<longrightarrow> q = p" by blast
    show ?thesis
    proof (cases "r < 0")
      case True
      then show ?thesis using False s by simp
    next
      case r: False
      have "list_all (\<lambda>name. skip_entry name \<or> open_read env (sysfs_path name ''busnum'') \<noteq> Inl ENOENT) names"
        using Cons.prems(2) by simp
      from Cons.IH [OF s(3) this, of r] obtain r' q' w' where
        "sysfs_loop env names r q w1 = Inr (r', False, q', w')" "user_same w1 w'" "array_ok rs q' w'" by blast
      then show ?thesis using False r s user_same_trans by auto
    qed
  qed (use Cons in simp)
qed simp

lemma relates_alloc:
  assumes "relates env w" "discovered_devs_alloc w = (x, w')"
  shows "relates env w'"
proof -
  have "sysfs_can_relate_devices w' = sysfs_can_relate_devices w" using assms(2)
    by (auto simp: discovered_devs_alloc_def split: prod.splits option.splits
        dest!: new_block_Some new_block_None)
  then show ?thesis using assms(1) by (simp add: relates_def)
qed

interpretation linux: device_scanner "op_get_device_list env" "relates env" for env
proof
  fix w rs p
  assume rel: "relates env w" and ar: "array_ok rs p w"
  show "\<exists>r q w'. op_get_device_list env p w = Inr (r, q, w') \<and> user_same w w' \<and> array_ok rs q w'"
  proof (cases "dir_entries env SYSFS_DEVICE_PATH")
    case (Some names)
    have "list_all (\<lambda>name. skip_entry name \<or> open_read env (sysfs_path name ''busnum'') \<noteq> Inl ENOENT) names"
      using rel Some by (simp add: relates_def)
    from sysfs_loop_steps [OF ar this, of 0] obtain r q w' where
      "sysfs_loop env names 0 p w = Inr (r, False, q, w')" "user_same w w'" "array_ok rs q w'" by blast
    then show ?thesis using rel Some
      by (simp add: relates_def op_get_device_list_def sysfs_get_device_list_def)
  qed (use rel ar in \<open>simp add: relates_def op_get_device_list_def sysfs_get_device_list_def\<close>)
qed (rule relates_alloc)

section \<open>Properties\<close>

text \<open>C30: the device list and its references. Where every device in sysfs has a bus number, and whatever
  the files, the device nodes and \<open>malloc\<close> answer, \<open>libusb_get_device_list\<close> over the Linux backend
  returns either an error and no array, with every reference count as it was, or a new array that
  holds exactly one reference to each of its devices; \<open>libusb_free_device_list\<close> then gives them all
  back, destroying the devices nobody else refers to.\<close>

theorem device_list_references:
  assumes "relates env w" and "refs_ok w rs"
  shows "\<exists>r lst w'. libusb_get_device_list (op_get_device_list env) w = Inr (r, lst, w')
    \<and> (case lst of
         None \<Rightarrow> r < 0 \<and> refs_ok w' rs
       | Some a \<Rightarrow> \<exists>ds w''. dev_arrays w' a = Some ds \<and> r = int (length ds) \<and> refs_ok w' (rs + mset ds)
           \<and> libusb_free_device_list (Some a) True w' = Inr w'' \<and> refs_ok w'' rs)"
proof -
  from linux.device_list_owned [OF assms] obtain r lst w' where
    l: "libusb_get_device_list (op_get_device_list env) w = Inr (r, lst, w')" "list_result rs w r lst w'" by blast
  show ?thesis
  proof (cases lst)
    case (Some a)
    with l(2) obtain ds where "dev_arrays w' a = Some ds" "r = int (length ds)" "refs_ok w' (rs + mset ds)"
      by (auto simp: list_result_def)
    then show ?thesis using l(1) Some free_device_list_ok [of w' rs ds a] by auto
  qed (use l in \<open>simp add: list_result_def\<close>)
qed

text \<open>C31: opening by vendor and product. In the same circumstances, whatever the descriptors and the
  backend's open answer, \<open>libusb_open_device_with_vid_pid\<close> leaves no reference of the list it made:
  without a handle every count is as it was, and the handle it returns holds one reference, which
  \<open>libusb_close\<close> gives back, leaving the open handles as they were.\<close>

theorem open_by_ids_references:
  assumes "relates env w" and "refs_ok w rs"
  shows "\<exists>h w1. libusb_open_device_with_vid_pid (op_get_device_list env) descr open_rc vid pid w = Inr (h, w1)
    \<and> (case h of
         None \<Rightarrow> refs_ok w1 rs \<and> open_devs w1 = open_devs w
       | Some k \<Rightarrow> \<exists>d w2. refs_ok w1 (add_mset d rs) \<and> lib_handles w1 k = Some \<lparr>claimed_interfaces = 0, handle_dev = d\<rparr>
           \<and> libusb_close (Some k) w1 = Inr w2 \<and> refs_ok w2 rs \<and> open_devs w2 = open_devs w
           \<and> pollfd_modify w2 = pollfd_modify w1)"
proof -
  from linux.open_vid_pid_ok [OF assms] obtain h w1 where
    o: "libusb_open_device_with_vid_pid (op_get_device_list env) descr open_rc vid pid w = Inr (h, w1)"
      "opened rs w h w1" by blast
  show ?thesis
  proof (cases h)
    case (Some k)
    with o(2) obtain d where d: "refs_ok w1 (add_mset d rs)" "open_devs w1 = k # open_devs w"
      "lib_handles w1 = (lib_handles w)(k \<mapsto> \<lparr>claimed_interfaces = 0, handle_dev = d\<rparr>)"
      by (auto simp: opened_def)
    then show ?thesis using o(1) Some close_ok [of w1 "\<lparr>claimed_interfaces = 0, handle_dev = d\<rparr>" rs k]
      by auto
  qed (use o in \<open>simp add: opened_def\<close>)
qed

definition list_env :: linux_env where
  "list_env = (sample_env [])\<lparr>dir_entries := (\<lambda>_. Some [''1-0:1.0'', ''1-2'']),
     open_read := (\<lambda>path.
       if path = sysfs_path ''1-2'' ''busnum'' then Inr \<lparr>file_bytes = str_bytes ''1'', file_bad = False\<rparr>
       else if path = sysfs_path ''1-2'' ''devnum'' then Inr \<lparr>file_bytes = str_bytes ''4'', file_bad = False\<rparr>
       else Inr \<lparr>file_bytes = replicate 18 1, file_bad = False\<rparr>)\<rparr>"

lemma list_env_relates: "relates list_env one_handle"
  by (simp add: relates_def list_env_def one_handle_def)

lemma one_handle_refs: "refs_ok one_handle {#1#}"
  by (auto simp: refs_ok_def fresh_above_def one_handle_def)

theorem device_list_references_witness:
  "\<exists>r lst w'. libusb_get_device_list (op_get_device_list list_env) one_handle = Inr (r, lst, w')
    \<and> (case lst of
         None \<Rightarrow> r < 0 \<and> refs_ok w' {#1#}
       | Some a \<Rightarrow> \<exists>ds w''. dev_arrays w' a = Some ds \<and> r = int (length ds) \<and> refs_ok w' ({#1#} + mset ds)
           \<and> libusb_free_device_list (Some a) True w' = Inr w'' \<and> refs_ok w'' {#1#})"
  by (rule device_list_references [OF list_env_relates one_handle_refs])

theorem open_by_ids_references_witness:
  "\<exists>h w1. libusb_open_device_with_vid_pid (op_get_device_list list_env) (\<lambda>_. (0, None)) 0 1 1 one_handle
      = Inr (h, w1)
    \<and> (case h of
         None \<Rightarrow> refs_ok w1 {#1#} \<and> open_devs w1 = open_devs one_handle
       | Some k \<Rightarrow> \<exists>d w2. refs_ok w1 (add_mset d {#1#})
           \<and> lib_handles w1 k = Some \<lparr>claimed_interfaces = 0, handle_dev = d\<rparr>
           \<and> libusb_close (Some k) w1 = Inr w2 \<and> refs_ok w2 {#1#} \<and> open_devs w2 = open_devs one_handle
           \<and> pollfd_modify w2 = pollfd_modify w1)"
  by (rule open_by_ids_references [OF list_env_relates one_handle_refs])

text \<open>Falling back on usbfs crashes where sysfs has descriptors. When the first device in sysfs has a
  \<open>descriptors\<close> file but no bus number (it was unplugged in between, or the kernel is too old), the
  backend scans usbfs instead, but goes on to read descriptors from sysfs: the first new device has no
  directory there, and printing it follows a null pointer.\<close>

theorem usbfs_fallback_crashes:
  assumes "sysfs_can_relate_devices w \<noteq> 0" and "sysfs_has_descriptors w = -1"
    and "dir_entries env SYSFS_DEVICE_PATH = Some (name # names)" and "\<not> skip_entry name"
    and "is_regular env (sysfs_path name ''descriptors'')"
    and "open_read env (sysfs_path name ''busnum'') = Inl ENOENT"
    and "dir_entries env (usbfs_path env) = Some (bus # buses)" and "take 1 bus \<noteq> ''.''" and "atoi bus \<noteq> 0"
    and "dir_entries env (snprintf_s PATH_MAX (usbfs_path env @ ''/'' @ pad3 (word_of_int (atoi bus))))
      = Some (dev # devs)" and "take 1 dev \<noteq> ''.''" and "atoi dev \<noteq> 0"
    and "usb_devs w = []" and "mem w = []" and "mutex_ok w"
  shows "op_get_device_list env p w = Inl NullDeref"
proof -
  let ?b = "word_of_int (atoi bus)" and ?a = "word_of_int (atoi dev)"
  let ?w = "w\<lparr>sysfs_has_descriptors := 1, sysfs_can_relate_devices := 0\<rparr>"
  have "enumerate_device env p ?b ?a None ?w = Inl NullDeref"
    using assms(13-15)
    by (simp add: enumerate_device_def usbi_get_device_by_session_id_def usbi_alloc_device_def new_block_def
        make_device_def initialize_device_def keep_sysfs_dir_def sanitize_new_device_def zero_priv_def
        op_get_device_descriptor_def sysfs_get_device_descriptor_def open_sysfs_attr_def Let_def)
  then have "buses_loop env (bus # buses) 0 p ?w = Inl NullDeref"
    using assms(8-12) by (simp add: usbfs_scan_busdir_def)
  then show ?thesis using assms(1-7)
    by (simp add: op_get_device_list_def sysfs_get_device_list_def sysfs_scan_device_def
        note_descriptors_def Let_def usbfs_get_device_list_def rc.simps)
qed

definition unplugged_env :: linux_env where
  "unplugged_env = (sample_env [])\<lparr>dir_entries := (\<lambda>path.
       if path = SYSFS_DEVICE_PATH then Some [''1-2''] else Some [''001'']),
     open_read := (\<lambda>_. Inl ENOENT)\<rparr>"

definition empty_context :: lib_context where
  "empty_context = \<lparr>usb_devs = [], open_devs = [], lib_devices = Map.empty, lib_handles = Map.empty,
     discs = Map.empty, dev_arrays = Map.empty, next_addr = 1, mem = [], mutex_ok = True, destroyed = [],
     pollfd_modify = 0, sysfs_has_descriptors = -1, sysfs_can_relate_devices = -1\<rparr>"

theorem usbfs_fallback_crashes_witness:
  "op_get_device_list unplugged_env 9 empty_context = Inl NullDeref"
proof (rule usbfs_fallback_crashes)
  show "\<not> skip_entry ''1-2''" by code_simp
  show "atoi ''001'' \<noteq> 0" "atoi ''001'' \<noteq> 0" by code_simp+
qed (simp_all add: unplugged_env_def empty_context_def sample_env_def snprintf_s_def PATH_MAX_def
    SYSFS_DEVICE_PATH_def pad3_def)

text \<open>A bus with ten devices, nine of them known: the ninth moves the array, the tenth fails, and the
  caller frees the array where it was.\<close>

definition crowded :: lib_context where
  "crowded = empty_context\<lparr>usb_devs := [1..<10], lib_devices := (\<lambda>d. if 1 \<le> d \<and> d \<le> 9
       then Some \<lparr>refcnt = 1, bus_number = 1, device_address = of_nat d, num_configurations = 1,
         session_data = 256 + int d, os_priv = zero_priv\<rparr> else None),
     next_addr := 10, sysfs_has_descriptors := 0, sysfs_can_relate_devices := 0\<rparr>"

definition crowded_env :: linux_env where
  "crowded_env = (sample_env [])\<lparr>dir_entries := (\<lambda>path.
       if path = ''/dev/bus/usb'' then Some [''001'']
       else Some [''001'', ''002'', ''003'', ''004'', ''005'', ''006'', ''007'', ''008'', ''009'', ''010'']),
     open_write := (\<lambda>_. Inl ENODEV)\<rparr>"

lemma moved_array_used_after_free:
  "libusb_get_device_list (op_get_device_list crowded_env) crowded = Inl UseAfterFree"
proof -
  have "case libusb_get_device_list (op_get_device_list crowded_env) crowded of
      Inl e \<Rightarrow> e = UseAfterFree | Inr _ \<Rightarrow> False"
    by code_simp
  then show ?thesis by (simp split: sum.splits)
qed

text \<open>A kernel of a later series counts as one without bulk continuation.\<close>

lemma later_kernels_lose_flag:
  "take 4 release \<noteq> ''2.6.'' \<Longrightarrow> check_flag_bulk_continuation (Some release) = 0"
  by (simp add: check_flag_bulk_continuation_def)

end
