(* ===== verification/Endpoints.thy ===== *)
theory Endpoints
  imports Sysfs
begin

text \<open>
  The packet sizes of endpoints (\<open>core.c\<close>): the search for an endpoint in the active configuration,
  and the two functions that fetch the configuration for it. A pointer to endpoints that was never
  set is the empty list; following it is \<open>Inl NullDeref\<close>.
\<close>

section \<open>The search\<close>

text \<open>The three loops of \<open>find_endpoint\<close>, with \<open>k\<close> rounds left.\<close>

fun endpoint_loop :: "endpoint_descriptor list \<Rightarrow> nat \<Rightarrow> nat \<Rightarrow> u8 \<Rightarrow> fault + endpoint_descriptor option" where
  "endpoint_loop eps i 0 ep = Inr None"
| "endpoint_loop eps i (Suc k) ep =
     (if eps = [] then Inl NullDeref
      else if length eps \<le> i then Inl OutOfBounds
      else if bEndpointAddress (eps ! i) = ep then Inr (Some (eps ! i))
      else endpoint_loop eps (Suc i) k ep)"

fun setting_loop :: "interface_descriptor list \<Rightarrow> nat \<Rightarrow> nat \<Rightarrow> u8 \<Rightarrow> fault + endpoint_descriptor option" where
  "setting_loop alts i 0 ep = Inr None"
| "setting_loop alts i (Suc k) ep =
     (if alts = [] then Inl NullDeref
      else if length alts \<le> i then Inl OutOfBounds
      else bindF (endpoint_loop (endpoint (alts ! i)) 0 (unat (bNumEndpoints (alts ! i))) ep) (\<lambda>e.
        if e \<noteq> None then Inr e else setting_loop alts (Suc i) k ep))"

fun iface_loop :: "usb_interface list \<Rightarrow> nat \<Rightarrow> nat \<Rightarrow> u8 \<Rightarrow> fault + endpoint_descriptor option" where
  "iface_loop ifs i 0 ep = Inr None"
| "iface_loop ifs i (Suc k) ep =
     (if ifs = [] then Inl NullDeref
      else if length ifs \<le> i then Inl OutOfBounds
      else bindF (setting_loop (altsetting (ifs ! i)) 0 (num_altsetting (ifs ! i)) ep) (\<lambda>e.
        if e \<noteq> None then Inr e else iface_loop ifs (Suc i) k ep))"

definition find_endpoint :: "parsed_config \<Rightarrow> u8 \<Rightarrow> fault + endpoint_descriptor option" where
  "find_endpoint c ep = iface_loop (interface c) 0 (unat (bNumInterfaces c)) ep"

text \<open>The configuration is freed only when the endpoint was found.\<close>

definition libusb_get_max_packet_size ::
    "bool \<Rightarrow> backend \<Rightarrow> (nat \<Rightarrow> u8) \<Rightarrow> u8 \<Rightarrow> allocs \<Rightarrow> fault + int \<times> allocs" where
  "libusb_get_max_packet_size big ask junk ep h =
     bindF (libusb_get_active_config_descriptor big ask junk h) (\<lambda>(r, config, h1).
       if r < 0 then Inr (rc LIBUSB_ERROR_OTHER, h1)
       else case config of
         None \<Rightarrow> Inl NullDeref
       | Some c \<Rightarrow> bindF (find_endpoint c ep) (\<lambda>e. case e of
             None \<Rightarrow> Inr (rc LIBUSB_ERROR_NOT_FOUND, h1)
           | Some e \<Rightarrow> bindF (libusb_free_config_descriptor (Some c) h1) (\<lambda>h2.
               Inr (uint (wMaxPacketSize e), h2))))"

definition iso_size :: "u16 \<Rightarrow> u8 \<Rightarrow> int" where
  "iso_size val ep_type =
     (let r = uint (val AND 0x07ff)
      in if ep_type = TRANSFER_TYPE_ISOCHRONOUS \<or> ep_type = TRANSFER_TYPE_INTERRUPT
         then r * (1 + uint (drop_bit 11 val AND 3)) else r)"

definition libusb_get_max_iso_packet_size ::
    "bool \<Rightarrow> backend \<Rightarrow> (nat \<Rightarrow> u8) \<Rightarrow> u8 \<Rightarrow> allocs \<Rightarrow> fault + int \<times> allocs" where
  "libusb_get_max_iso_packet_size big ask junk ep h =
     bindF (libusb_get_active_config_descriptor big ask junk h) (\<lambda>(r, config, h1).
       if r < 0 then Inr (rc LIBUSB_ERROR_OTHER, h1)
       else case config of
         None \<Rightarrow> Inl NullDeref
       | Some c \<Rightarrow> bindF (find_endpoint c ep) (\<lambda>e. case e of
             None \<Rightarrow> Inr (rc LIBUSB_ERROR_NOT_FOUND, h1)
           | Some e \<Rightarrow> bindF (libusb_free_config_descriptor (Some c) h1) (\<lambda>h2.
               Inr (iso_size (wMaxPacketSize e) (bmAttributes e AND 3), h2))))"

section \<open>The search finds the first endpoint with the address\<close>

definition all_endpoints :: "parsed_config \<Rightarrow> endpoint_descriptor list" where
  "all_endpoints c = concat (map endpoint (concat (map altsetting (interface c))))"

abbreviation first_with :: "u8 \<Rightarrow> endpoint_descriptor list \<Rightarrow> endpoint_descriptor option" where
  "first_with ep \<equiv> List.find (\<lambda>e. bEndpointAddress e = ep)"

lemma find_append: "List.find P (xs @ ys) = (case List.find P xs of None \<Rightarrow> List.find P ys | Some x \<Rightarrow> Some x)"
  by (induction xs) auto

lemma endpoint_loop_find:
  "i + k = length eps \<Longrightarrow> endpoint_loop eps i k ep = Inr (first_with ep (drop i eps))"
proof (induction k arbitrary: i)
  case (Suc k)
  then have "drop i eps = eps ! i # drop (Suc i) eps" "eps \<noteq> []" "i < length eps"
    by (auto simp: Cons_nth_drop_Suc)
  then show ?case using Suc.IH [of "Suc i"] Suc.prems by simp
qed simp

text \<open>A setting whose count of endpoints is the number it has.\<close>

definition full_setting :: "interface_descriptor \<Rightarrow> bool" where
  "full_setting a \<longleftrightarrow> unat (bNumEndpoints a) = length (endpoint a)"

lemma setting_loop_find:
  assumes "list_all full_setting alts"
  shows "i + k = length alts \<Longrightarrow>
    setting_loop alts i k ep = Inr (first_with ep (concat (map endpoint (drop i alts))))"
proof (induction k arbitrary: i)
  case (Suc k)
  then have d: "drop i alts = alts ! i # drop (Suc i) alts" "alts \<noteq> []" "i < length alts"
    by (auto simp: Cons_nth_drop_Suc)
  then have "endpoint_loop (endpoint (alts ! i)) 0 (unat (bNumEndpoints (alts ! i))) ep
      = Inr (first_with ep (endpoint (alts ! i)))"
    using assms endpoint_loop_find [of 0] by (simp add: list_all_length full_setting_def)
  then show ?case using Suc.IH [of "Suc i"] Suc.prems d by (simp add: find_append split: option.splits)
qed simp

lemma iface_loop_find:
  assumes "list_all (\<lambda>ifc. num_altsetting ifc = length (altsetting ifc)
      \<and> list_all full_setting (altsetting ifc)) ifs"
  shows "i + k = length ifs \<Longrightarrow> iface_loop ifs i k ep
    = Inr (first_with ep (concat (map endpoint (concat (map altsetting (drop i ifs))))))"
proof (induction k arbitrary: i)
  case (Suc k)
  then have d: "drop i ifs = ifs ! i # drop (Suc i) ifs" "ifs \<noteq> []" "i < length ifs"
    by (auto simp: Cons_nth_drop_Suc)
  then have "setting_loop (altsetting (ifs ! i)) 0 (num_altsetting (ifs ! i)) ep
      = Inr (first_with ep (concat (map endpoint (altsetting (ifs ! i)))))"
    using assms setting_loop_find [of "altsetting (ifs ! i)" 0] by (simp add: list_all_length)
  then show ?case using Suc.IH [of "Suc i"] Suc.prems d by (simp add: find_append split: option.splits)
qed simp

lemma find_endpoint_good:
  assumes "good_config c"
  shows "find_endpoint c ep = Inr (first_with ep (all_endpoints c))"
proof -
  have "list_all (\<lambda>ifc. num_altsetting ifc = length (altsetting ifc)
      \<and> list_all full_setting (altsetting ifc)) (interface c)"
    using assms by (auto simp: good_config_def good_interface_def good_setting_def full_setting_def list_all_iff)
  then show ?thesis using assms iface_loop_find [of "interface c" 0]
    by (simp add: find_endpoint_def all_endpoints_def good_config_def)
qed

section \<open>Properties\<close>

lemma parsed_then_freed:
  assumes "good_config c" "endpoint (last_setting c) \<noteq> []" "grant h = []"
  shows "\<exists>h1. libusb_get_active_config_descriptor big (device_with c i) junk h = Inr (0, Some c, h1)
    \<and> live h1 = live h + (1 + owned_config c) \<and> grant h1 = []
    \<and> libusb_free_config_descriptor (Some c) h1 = Inr h"
proof -
  let ?h = "h\<lparr>live := live h + (1 + owned_config c)\<rparr>"
  have run: "libusb_get_active_config_descriptor big (device_with c i) junk h = Inr (0, Some c, ?h)"
    using get_active_run [OF assms(1,3)] assms(2) by (simp add: algebra_simps)
  moreover have "wf_config c" using get_active_live [OF run] by simp
  ultimately show ?thesis using assms(3)
    by (auto simp: libusb_free_config_descriptor_def clear_configuration_eq)
qed

lemma and_low_bits: "(x :: int) AND (2 ^ n - 1) = x mod 2 ^ n"
  by (simp flip: take_bit_eq_mod add: take_bit_eq_mask mask_eq_exp_minus_1)

text \<open>C37: packet sizes. For a device with a well-formed configuration, whose last setting has an
  endpoint, and which has an endpoint with the address asked for, \<open>libusb_get_max_packet_size\<close> gives the packet size of the first such endpoint, and
  \<open>libusb_get_max_iso_packet_size\<close> the size in its low 11 bits, times the number of transactions of a
  microframe if the endpoint is isochronous or an interrupt endpoint; both give back every block
  they allocate.\<close>

theorem max_packet_sizes:
  assumes "good_config c" and "endpoint (last_setting c) \<noteq> []" and "grant h = []"
    and "List.find (\<lambda>e. bEndpointAddress e = ep) (all_endpoints c) = Some e"
  shows "libusb_get_max_packet_size big (device_with c i) junk ep h = Inr (uint (wMaxPacketSize e), h)
    \<and> libusb_get_max_iso_packet_size big (device_with c i) junk ep h
      = Inr (uint (wMaxPacketSize e) mod 2048 *
          (if bmAttributes e AND 3 \<in> {1, 3} then 1 + uint (wMaxPacketSize e) div 2048 mod 4 else 1), h)"
proof -
  have t: "take_bit 16 (uint w) = uint w" for w :: u16
    using uint_lt2p [of w] by (simp add: take_bit_int_eq_self)
  have "uint (w AND 0x07ff :: u16) = uint w mod 2048" "uint (drop_bit 11 w AND 3 :: u16) = uint w div 2048 mod 4" for w
    using and_low_bits [of "uint w" 11] and_low_bits [of "uint w div 2048" 2]
    by (simp_all add: uint_and unsigned_drop_bit_eq) (simp_all add: drop_bit_eq_div t)
  then have "iso_size (wMaxPacketSize e) (bmAttributes e AND 3) = uint (wMaxPacketSize e) mod 2048 *
      (if bmAttributes e AND 3 \<in> {1, 3} then 1 + uint (wMaxPacketSize e) div 2048 mod 4 else 1)"
    by (simp add: iso_size_def Let_def TRANSFER_TYPE_ISOCHRONOUS_def TRANSFER_TYPE_INTERRUPT_def)
  then show ?thesis using parsed_then_freed [OF assms(1-3), of big i junk] find_endpoint_good [OF assms(1)] assms(4)
    by (auto simp: libusb_get_max_packet_size_def libusb_get_max_iso_packet_size_def)
qed
lemma sample_endpoint: "List.find (\<lambda>e. bEndpointAddress e = 0x81) (all_endpoints sample_parsed)
    = Some (hd (all_endpoints sample_parsed))"
  "uint (wMaxPacketSize (hd (all_endpoints sample_parsed))) = 512"
  "bmAttributes (hd (all_endpoints sample_parsed)) AND 3 \<notin> {1, 3}"
  "List.find (\<lambda>e. bEndpointAddress e = 2) (all_endpoints sample_parsed) = None"
  by (simp_all add: all_endpoints_def sample_parsed_def)

theorem max_packet_sizes_witness:
  "libusb_get_max_iso_packet_size False (device_with sample_parsed 0) (\<lambda>_. 0) 0x81 \<lparr>grant = [], live = 3\<rparr>
    = Inr (512, \<lparr>grant = [], live = 3\<rparr>)"
  using max_packet_sizes [OF sample_good sample_value(2) _ sample_endpoint(1), of "\<lparr>grant = [], live = 3\<rparr>"]
    sample_endpoint(2,3) by simp

text \<open>Asking for an endpoint that does not exist leaks the configuration. The result is
  \<open>LIBUSB_ERROR_NOT_FOUND\<close>, and all the blocks of the configuration that was fetched stay allocated.\<close>

theorem missing_endpoint_leaks:
  assumes "good_config c" and "endpoint (last_setting c) \<noteq> []" and "grant h = []"
    and "List.find (\<lambda>e. bEndpointAddress e = ep) (all_endpoints c) = None"
  shows "\<exists>h'. libusb_get_max_packet_size big (device_with c i) junk ep h = Inr (rc LIBUSB_ERROR_NOT_FOUND, h')
    \<and> libusb_get_max_iso_packet_size big (device_with c i) junk ep h = Inr (rc LIBUSB_ERROR_NOT_FOUND, h')
    \<and> live h' = live h + (1 + owned_config c) \<and> live h < live h'"
  using parsed_then_freed [OF assms(1-3), of big i junk] find_endpoint_good [OF assms(1)] assms(4)
    owned_config_nonneg [of c]
  by (auto simp: libusb_get_max_packet_size_def libusb_get_max_iso_packet_size_def)

theorem missing_endpoint_leaks_witness:
  "\<exists>h'. libusb_get_max_packet_size False (device_with sample_parsed 0) (\<lambda>_. 0) 2 \<lparr>grant = [], live = 3\<rparr>
     = Inr (rc LIBUSB_ERROR_NOT_FOUND, h') \<and> live h' = 8"
proof -
  obtain h' where "libusb_get_max_packet_size False (device_with sample_parsed 0) (\<lambda>_. 0) 2 \<lparr>grant = [], live = 3\<rparr>
     = Inr (rc LIBUSB_ERROR_NOT_FOUND, h')" "live h' = 3 + (1 + owned_config sample_parsed)"
    using missing_endpoint_leaks [OF sample_good sample_value(2) _ sample_endpoint(4), of "\<lparr>grant = [], live = 3\<rparr>"]
    by fastforce
  then show ?thesis using sample_value(3) by auto
qed

text \<open>An interface that promises an endpoint but is followed by a configuration header is accepted
  without its array of endpoints; the search then follows a null pointer.\<close>

definition promised_endpoint :: "u8 list" where
  "promised_endpoint = [9, 2, 20, 0, 1, 1, 0, 0x80, 50,  9, 4, 0, 0, 1, 0xff, 0, 0, 0,  9, 2]"

lemma promised_endpoint_crashes:
  "libusb_get_max_packet_size False (\<lambda>n. (0, take n promised_endpoint, False)) (\<lambda>_. 0) 0x81
     \<lparr>grant = [], live = 0\<rparr> = Inl NullDeref"
proof -
  have "case libusb_get_max_packet_size False (\<lambda>n. (0, take n promised_endpoint, False)) (\<lambda>_. 0) 0x81
      \<lparr>grant = [], live = 0\<rparr> of Inl e \<Rightarrow> e = NullDeref | Inr _ \<Rightarrow> False"
    by code_simp
  then show ?thesis by (simp split: sum.splits)
qed

end
