(* ===== verification/Handles.thy ===== *)
theory Handles
  imports Enumerate
begin

text \<open>
  Operations on an open device: those of the Linux backend (\<open>linux_usbfs.c\<close>), which are requests to the
  device node, and the functions of \<open>core.c\<close> over them. What a request answers is a pair, the result of
  \<open>ioctl\<close> and \<open>errno\<close>.
\<close>

section \<open>Requests and their errors\<close>

type_synonym answer = "int \<times> int"

definition EBUSY :: int where "EBUSY = 16"
definition ENODATA :: int where "ENODATA = 61"
definition REQUEST_GET_CONFIGURATION :: u8 where "REQUEST_GET_CONFIGURATION = 0x08"

definition op_claim_interface :: "answer \<Rightarrow> int" where
  "op_claim_interface a = (case a of (r, e) \<Rightarrow>
     if r \<noteq> 0
     then if e = ENOENT then rc LIBUSB_ERROR_NOT_FOUND
       else if e = EBUSY then rc LIBUSB_ERROR_BUSY
       else if e = ENODEV then rc LIBUSB_ERROR_NO_DEVICE
       else rc LIBUSB_ERROR_OTHER
     else 0)"

definition op_release_interface :: "answer \<Rightarrow> int" where
  "op_release_interface a = (case a of (r, e) \<Rightarrow>
     if r \<noteq> 0 then if e = ENODEV then rc LIBUSB_ERROR_NO_DEVICE else rc LIBUSB_ERROR_OTHER
     else 0)"

definition op_set_interface :: "answer \<Rightarrow> int" where
  "op_set_interface a = (case a of (r, e) \<Rightarrow>
     if r \<noteq> 0
     then if e = EINVAL then rc LIBUSB_ERROR_NOT_FOUND
       else if e = ENODEV then rc LIBUSB_ERROR_NO_DEVICE
       else rc LIBUSB_ERROR_OTHER
     else 0)"

definition op_clear_halt :: "answer \<Rightarrow> int" where
  "op_clear_halt a = (case a of (r, e) \<Rightarrow>
     if r \<noteq> 0
     then if e = ENOENT then rc LIBUSB_ERROR_NOT_FOUND
       else if e = ENODEV then rc LIBUSB_ERROR_NO_DEVICE
       else rc LIBUSB_ERROR_OTHER
     else 0)"

definition op_reset_device :: "answer \<Rightarrow> int" where
  "op_reset_device a = (case a of (r, e) \<Rightarrow>
     if r \<noteq> 0 then if e = ENODEV then rc LIBUSB_ERROR_NOT_FOUND else rc LIBUSB_ERROR_OTHER
     else 0)"

definition op_kernel_driver_active :: "answer \<Rightarrow> int" where
  "op_kernel_driver_active a = (case a of (r, e) \<Rightarrow>
     if r \<noteq> 0
     then if e = ENODATA then 0
       else if e = ENODEV then rc LIBUSB_ERROR_NO_DEVICE
       else rc LIBUSB_ERROR_OTHER
     else 1)"

definition op_detach_kernel_driver :: "answer \<Rightarrow> int" where
  "op_detach_kernel_driver a = (case a of (r, e) \<Rightarrow>
     if r \<noteq> 0
     then if e = ENODATA then rc LIBUSB_ERROR_NOT_FOUND
       else if e = EINVAL then rc LIBUSB_ERROR_INVALID_PARAM
       else if e = ENODEV then rc LIBUSB_ERROR_NO_DEVICE
       else rc LIBUSB_ERROR_OTHER
     else 0)"

definition op_attach_kernel_driver :: "answer \<Rightarrow> int" where
  "op_attach_kernel_driver a = (case a of (r, e) \<Rightarrow>
     if r < 0
     then if e = ENODATA then rc LIBUSB_ERROR_NOT_FOUND
       else if e = EINVAL then rc LIBUSB_ERROR_INVALID_PARAM
       else if e = ENODEV then rc LIBUSB_ERROR_NO_DEVICE
       else if e = EBUSY then rc LIBUSB_ERROR_BUSY
       else rc LIBUSB_ERROR_OTHER
     else if r = 0 then rc LIBUSB_ERROR_NOT_FOUND
     else 0)"

section \<open>Opening and the configuration\<close>

text \<open>The code and the file that is open afterwards: a node whose descriptor cannot be added to the poll
  set stays open. \<open>add_rc\<close> is what \<open>usbi_add_pollfd\<close> answers.\<close>

definition op_open :: "linux_env \<Rightarrow> int \<Rightarrow> lib_device \<Rightarrow> int \<times> file_des option" where
  "op_open env add_rc dv =
     (case open_write env (get_usbfs_path env (bus_number dv) (device_address dv)) of
        Inl e \<Rightarrow>
          if e = EACCES then (rc LIBUSB_ERROR_ACCESS, None)
          else if e = ENOENT then (rc LIBUSB_ERROR_NO_DEVICE, None)
          else (rc LIBUSB_ERROR_IO, None)
      | Inr f \<Rightarrow> (add_rc, Some (opened_file f)))"

text \<open>The code, and the variable of the caller, which holds \<open>config0\<close> before.\<close>

definition op_get_configuration ::
    "linux_env \<Rightarrow> linux_device_priv \<Rightarrow> lib_context \<Rightarrow> int \<Rightarrow> fault + int \<times> int" where
  "op_get_configuration env priv w config0 =
     (if sysfs_can_relate_devices w \<noteq> 1 then Inr (rc LIBUSB_ERROR_NOT_SUPPORTED, config0)
      else bindF (sysfs_get_active_config env priv) (\<lambda>(r, c).
        let config = (case c of None \<Rightarrow> config0 | Some v \<Rightarrow> v)
        in Inr (0, if config = -1 then 0 else config)))"

definition libusb_get_configuration ::
    "linux_env \<Rightarrow> addr \<Rightarrow> linux_device_priv \<Rightarrow> lib_context \<Rightarrow> int \<Rightarrow> u8 list \<Rightarrow> sync_env \<Rightarrow> fault + int \<times> int" where
  "libusb_get_configuration env dev priv w config0 incoming senv =
     bindF (op_get_configuration env priv w config0) (\<lambda>(r, config).
       if r = rc LIBUSB_ERROR_NOT_SUPPORTED
       then bindF (libusb_control_transfer dev ENDPOINT_IN REQUEST_GET_CONFIGURATION 0 0 [0] 1 1000 incoming senv)
         (\<lambda>(res, bs).
           let tmp = (case bs of [] \<Rightarrow> 0 | b # _ \<Rightarrow> b)
           in if ret res = 0 then Inr (rc LIBUSB_ERROR_IO, config)
              else if ret res = 1 then Inr (0, uint tmp)
              else Inr (ret res, config))
       else Inr (r, config))"

text \<open>After a change of configuration the copy of the active one is renewed; that this may fail is only
  reported.\<close>

definition op_set_configuration ::
    "linux_env \<Rightarrow> answer \<Rightarrow> addr \<Rightarrow> file_des \<Rightarrow> int \<Rightarrow> lib_context \<Rightarrow> fault + int \<times> lib_context" where
  "op_set_configuration env a d f config w =
     (case a of (r, e) \<Rightarrow>
        if r \<noteq> 0
        then Inr (if e = EINVAL then rc LIBUSB_ERROR_NOT_FOUND
          else if e = EBUSY then rc LIBUSB_ERROR_BUSY
          else if e = ENODEV then rc LIBUSB_ERROR_NO_DEVICE
          else rc LIBUSB_ERROR_OTHER, w)
        else if sysfs_has_descriptors w = 0
        then if config = -1
          then bindF (set_priv d (\<lambda>p. p\<lparr>priv_config_descriptor := None\<rparr>) w) (\<lambda>w1. Inr (0, w1))
          else bindF (cache_active_config env d f config w) (\<lambda>(r, w1). Inr (0, w1))
        else Inr (0, w))"

definition libusb_set_configuration ::
    "linux_env \<Rightarrow> answer \<Rightarrow> addr \<Rightarrow> file_des \<Rightarrow> int \<Rightarrow> lib_context \<Rightarrow> fault + int \<times> lib_context" where
  "libusb_set_configuration env a d f configuration w = op_set_configuration env a d f configuration w"

text \<open>The other functions of \<open>core.c\<close> hand the request to the backend.\<close>

definition libusb_clear_halt :: "answer \<Rightarrow> int" where
  "libusb_clear_halt a = op_clear_halt a"

definition libusb_reset_device :: "answer \<Rightarrow> int" where
  "libusb_reset_device a = op_reset_device a"

definition libusb_kernel_driver_active :: "answer \<Rightarrow> int" where
  "libusb_kernel_driver_active a = op_kernel_driver_active a"

definition libusb_detach_kernel_driver :: "answer \<Rightarrow> int" where
  "libusb_detach_kernel_driver a = op_detach_kernel_driver a"

definition libusb_attach_kernel_driver :: "answer \<Rightarrow> int" where
  "libusb_attach_kernel_driver a = op_attach_kernel_driver a"

section \<open>The index of a configuration\<close>

lemma config_index_find:
  assumes ask: "\<And>k. k < length cfgs \<Longrightarrow> ask k 6 = (0, take 6 (config_bytes (cfgs ! k)), False)"
    and good: "list_all good_config cfgs"
  shows "i + k = length cfgs \<Longrightarrow> config_index_loop ask junk v i k =
    (0, if List.find (\<lambda>c. bConfigurationValue c = v) (drop i cfgs) = None then -1
        else int (i + length (takeWhile (\<lambda>c. bConfigurationValue c \<noteq> v) (drop i cfgs))))"
proof (induction k arbitrary: i)
  case (Suc k)
  then have d: "drop i cfgs = cfgs ! i # drop (Suc i) cfgs" and i: "i < length cfgs"
    by (simp_all add: Cons_nth_drop_Suc)
  have g: "good_config (cfgs ! i)" using good i by (simp add: list_all_length)
  then have "filled junk 6 (take 6 (config_bytes (cfgs ! i))) ! 5 = bConfigurationValue (cfgs ! i)"
    using good_config_image [OF g] by (simp add: filled_def)
  then show ?case using Suc.IH [of "Suc i"] Suc.prems d ask [OF i] by simp
qed simp

lemma find_nth:
  "List.find P xs = Some x \<Longrightarrow> length (takeWhile (\<lambda>y. \<not> P y) xs) < length xs
     \<and> xs ! length (takeWhile (\<lambda>y. \<not> P y) xs) = x"
  by (induction xs) (auto split: if_splits)

section \<open>Properties\<close>

text \<open>A device node of usbfs, without descriptors in sysfs.\<close>

definition usbfs_node :: "linux_env \<Rightarrow> lib_device \<Rightarrow> parsed_config list \<Rightarrow> file_des \<Rightarrow> bool" where
  "usbfs_node env dv cfgs f \<longleftrightarrow> (\<exists>desc. length desc = DEVICE_DESC_LENGTH
     \<and> open_read env (get_usbfs_path env (bus_number dv) (device_address dv))
         = Inr \<lparr>file_bytes = desc @ concat (map config_bytes cfgs), file_bad = False\<rparr>
     \<and> f = opened_file \<lparr>file_bytes = desc @ concat (map config_bytes cfgs), file_bad = False\<rparr>)
     \<and> unat (num_configurations dv) = length cfgs \<and> list_all good_config cfgs"

lemma cache_active_value:
  assumes node: "usbfs_node env dv cfgs f" and dv: "lib_devices w d = Some dv" and m: "mem w = []"
    and c: "List.find (\<lambda>c. bConfigurationValue c = v) cfgs = Some c"
  shows "\<exists>w'. cache_active_config env d f (uint v) w = Inr (0, w')
    \<and> lib_devices w' d = Some (dv\<lparr>os_priv := (os_priv dv)\<lparr>priv_config_descriptor := Some (config_bytes c)\<rparr>\<rparr>)
    \<and> sysfs_has_descriptors w' = sysfs_has_descriptors w"
proof -
  obtain desc where n: "length desc = DEVICE_DESC_LENGTH"
    "open_read env (get_usbfs_path env (bus_number dv) (device_address dv))
       = Inr \<lparr>file_bytes = desc @ concat (map config_bytes cfgs), file_bad = False\<rparr>"
    "f = opened_file \<lparr>file_bytes = desc @ concat (map config_bytes cfgs), file_bad = False\<rparr>"
    "unat (num_configurations dv) = length cfgs" "list_all good_config cfgs"
    using node by (auto simp: usbfs_node_def)
  have images: "list_all good_image (map config_bytes cfgs)"
    using n(5) good_config_image(1) by (auto simp: list_all_iff)
  define i where "i = length (takeWhile (\<lambda>c. bConfigurationValue c \<noteq> v) cfgs)"
  have i: "i < length cfgs" "cfgs ! i = c" using find_nth [OF c] by (simp_all add: i_def)
  have g: "good_config c" using n(5) i by (auto simp: list_all_length)
  have read: "get_config_descriptor big f k n = Inr (0, take n (config_bytes (cfgs ! k)))"
    if "k < length cfgs" "n \<le> length (config_bytes (cfgs ! k))" for big k n
    using get_config_images [OF images n(1), of k n big] that unfolding n(3) by simp
  have six: "6 \<le> length (config_bytes (cfgs ! k))" if "k < length cfgs" for k
    using good_config_image(2) [of "cfgs ! k"] n(5) that by (simp add: list_all_length)
  have "config_index_loop (\<lambda>k. config_backend (\<lambda>n. Some (op_get_config_descriptor env dv k n)))
      (stack_bytes env) v 0 (length cfgs) = (0, int i)"
    using config_index_find [of cfgs _ 0 "length cfgs" "stack_bytes env" v] n(5) c read six
    by (simp add: i_def config_backend_def op_get_config_descriptor_def n(2) flip: n(3))
  moreover have "uint v \<noteq> -1" using uint_ge_0 [of v] by linarith
  ultimately have idx: "active_index env dv (uint v) = (0, int i)"
    by (simp add: active_index_def usbi_get_config_index_by_value_def n(4))
  have i8: "unat (word_of_int (int i) :: u8) = i"
    using i(1) n(4) u8_less [of "num_configurations dv"] by (simp add: unsigned_of_nat take_bit_nat_eq_self)
  have l9: "9 \<le> length (config_bytes c)" using good_config_image(2) [OF g] .
  have "usbi_parse_descriptor big (take 8 (config_bytes c)) 0 ''bbw'' False
      = Inr ([Byte (cd_bLength c), Byte (cd_bDescriptorType c), Half (wTotalLength c)], 4)" for big
    by (simp add: config_bytes_def rd_def le16_def of_le16_bytes)
  moreover have "unat (wTotalLength c) = length (config_bytes c)" using g by (simp add: good_config_def)
  ultimately show ?thesis using read [of i] i l9 idx i8 dv m
    by (simp add: cache_active_config_def set_priv_def new_block_def del: usbi_parse_descriptor.simps)
qed

text \<open>C36: a change of configuration is seen by those who ask for the active one. When the kernel accepts
  \<open>libusb_set_configuration\<close> for a value the device has, of a configuration whose last setting has an
  endpoint, and descriptors are kept in memory, what \<open>libusb_get_active_config_descriptor\<close> hands out
  afterwards is the configuration with that value.\<close>

theorem set_configuration_seen:
  assumes "usbfs_node env dv cfgs f" and "lib_devices w d = Some dv" and "mem w = []"
    and "sysfs_has_descriptors w = 0" and "List.find (\<lambda>c. bConfigurationValue c = v) cfgs = Some c"
    and "endpoint (last_setting c) \<noteq> []" and "grant h = []"
  shows "\<exists>w' dv'. libusb_set_configuration env (0, e) d f (uint v) w = Inr (0, w') \<and> lib_devices w' d = Some dv'
    \<and> libusb_get_active_config_descriptor big
        (config_backend (op_get_active_config_descriptor env (os_priv dv') w')) junk h
      = Inr (0, Some c, h\<lparr>live := live h + (1 + owned_config c)\<rparr>)"
proof -
  from cache_active_value [OF assms(1-3,5)] obtain w' where w':
    "cache_active_config env d f (uint v) w = Inr (0, w')"
    "lib_devices w' d = Some (dv\<lparr>os_priv := (os_priv dv)\<lparr>priv_config_descriptor := Some (config_bytes c)\<rparr>\<rparr>)"
    "sysfs_has_descriptors w' = 0" using assms(4) by auto
  have "c \<in> set cfgs" using find_split [OF assms(5)] by (metis in_set_conv_decomp)
  then have good: "good_config c" using assms(1) by (auto simp: usbfs_node_def list_all_iff)
  let ?priv = "(os_priv dv)\<lparr>priv_config_descriptor := Some (config_bytes c)\<rparr>"
  have "\<exists>r\<ge>0. config_backend (op_get_active_config_descriptor env ?priv w') n
      = (r, take n (config_bytes c), False)" if "n \<le> length (config_bytes c)" for n
    using that w'(3) by (simp add: config_backend_def op_get_active_config_descriptor_def
        usbfs_get_active_config_descriptor_def copy_bytes_def)
  from get_active_answers [OF good this] have "libusb_get_active_config_descriptor big
      (config_backend (op_get_active_config_descriptor env ?priv w')) junk h
    = Inr (0, Some c, h\<lparr>live := live h + (1 + owned_config c)\<rparr>)"
    using get_active_run [OF good assms(7), of big 0 junk] assms(6) by (simp add: algebra_simps)
  moreover have "uint v \<noteq> -1" using uint_ge_0 [of v] by linarith
  ultimately show ?thesis using w' assms(4)
    by (simp add: libusb_set_configuration_def op_set_configuration_def)
qed

definition node_file :: "u8 list \<Rightarrow> file_des" where
  "node_file configs = opened_file \<lparr>file_bytes = replicate 18 1 @ configs, file_bad = False\<rparr>"

lemma sample_usbfs_node:
  "usbfs_node (sample_env (concat (map config_bytes [other_parsed, sample_parsed]))) sample_dev
     [other_parsed, sample_parsed] (node_file (concat (map config_bytes [other_parsed, sample_parsed])))"
proof -
  let ?e = "sample_env (concat (map config_bytes [other_parsed, sample_parsed]))"
  have "open_read ?e (get_usbfs_path ?e (bus_number sample_dev) (device_address sample_dev))
      = Inr \<lparr>file_bytes = replicate 18 1 @ concat (map config_bytes [other_parsed, sample_parsed]),
             file_bad = False\<rparr>"
    by (simp add: sample_dev_def sample_node)
      (simp add: sample_env_def sysfs_path_def snprintf_s_def SYSFS_DEVICE_PATH_def PATH_MAX_def)
  then show ?thesis using sample_good other_good
    by (auto simp: usbfs_node_def node_file_def sample_dev_def DEVICE_DESC_LENGTH_def
        intro!: exI [of _ "replicate 18 1"])
qed

definition one_device :: lib_context where
  "one_device = empty_context\<lparr>usb_devs := [1], lib_devices := [1 \<mapsto> sample_dev], sysfs_has_descriptors := 0\<rparr>"

theorem set_configuration_seen_witness:
  "\<exists>w' dv'. libusb_set_configuration (sample_env (concat (map config_bytes [other_parsed, sample_parsed])))
      (0, 0) 1 (node_file (concat (map config_bytes [other_parsed, sample_parsed]))) 1 one_device = Inr (0, w')
    \<and> lib_devices w' 1 = Some dv'
    \<and> libusb_get_active_config_descriptor False (config_backend (op_get_active_config_descriptor
        (sample_env (concat (map config_bytes [other_parsed, sample_parsed]))) (os_priv dv') w'))
        (\<lambda>_. 0) \<lparr>grant = [], live = 0\<rparr>
      = Inr (0, Some sample_parsed, \<lparr>grant = [], live = 5\<rparr>)"
proof -
  have w: "lib_devices one_device 1 = Some sample_dev" "mem one_device = []" "sysfs_has_descriptors one_device = 0"
    by (simp_all add: one_device_def empty_context_def)
  have f: "List.find (\<lambda>c. bConfigurationValue c = 1) [other_parsed, sample_parsed] = Some sample_parsed"
    using sample_value(1) by (simp add: other_parsed_def)
  show ?thesis
    using set_configuration_seen [OF sample_usbfs_node w f sample_value(2), of "\<lparr>grant = [], live = 0\<rparr>" 0 False "\<lambda>_. 0"]
      sample_value(3) by simp
qed

text \<open>The configuration reported. Where sysfs can be related to usbfs, \<open>libusb_get_configuration\<close>
  reports the value sysfs shows if it is below 100. A longer one cannot be read, but the error is
  dropped: the call succeeds and leaves the caller's variable as it was.\<close>

theorem get_configuration_reports:
  assumes "sysfs_can_relate_devices w = 1" and "value_file env priv v" and "v < 256"
  shows "libusb_get_configuration env dev priv w config0 incoming senv
    = Inr (0, if v < 100 then int v else if config0 = -1 then 0 else config0)"
  using active_config_value [OF assms(2,3)] assms(1)
  by (simp add: libusb_get_configuration_def op_get_configuration_def Let_def)

theorem get_configuration_reports_witness:
  "libusb_get_configuration (sample_env []) 2 sample_priv one_handle 0x5555 [] \<lparr>alloc_ok = True, buf_ok = True,
      submit_rc = 0, polls = []\<rparr> = Inr (0, 1)"
proof -
  have "sysfs_can_relate_devices one_handle = 1" by (simp add: one_handle_def)
  moreover have "value_file (sample_env []) sample_priv 1"
    using sample_sysfs_device [of "[]"] by (simp add: sysfs_device_def)
  ultimately show ?thesis using get_configuration_reports [of one_handle "sample_env []" sample_priv 1] by simp
qed

text \<open>Requests to claim and release interfaces, with what the kernel answers when it is asked. The kernel
  keeps the set of interfaces it has granted to the open file.\<close>

datatype iface_op = Claim nat answer | Release nat answer

fun op_iface :: "iface_op \<Rightarrow> nat" where
  "op_iface (Claim n a) = n"
| "op_iface (Release n a) = n"

fun iface_step :: "addr \<Rightarrow> iface_op \<Rightarrow> nat set \<times> lib_context \<Rightarrow> fault + nat set \<times> lib_context" where
  "iface_step h (Claim n a) (K, w) =
     bindF (deref (lib_handles w) (Some h)) (\<lambda>(_, hr).
     bindF (libusb_claim_interface (op_claim_interface a) (Some h) (int n) w) (\<lambda>(r, w').
       Inr (if n \<notin> claimed hr \<and> fst a = 0 then insert n K else K, w')))"
| "iface_step h (Release n a) (K, w) =
     bindF (deref (lib_handles w) (Some h)) (\<lambda>(_, hr).
     bindF (libusb_release_interface (op_release_interface a) (Some h) (int n) w) (\<lambda>(r, w').
       Inr (if n \<in> claimed hr \<and> fst a = 0 then K - {n} else K, w')))"

fun iface_run :: "addr \<Rightarrow> iface_op list \<Rightarrow> nat set \<times> lib_context \<Rightarrow> fault + nat set \<times> lib_context" where
  "iface_run h [] s = Inr s"
| "iface_run h (x # xs) s = bindF (iface_step h x s) (iface_run h xs)"

lemma claim_code: "op_claim_interface a = 0 \<longleftrightarrow> fst a = 0" "op_release_interface a = 0 \<longleftrightarrow> fst a = 0"
  by (cases a; simp add: op_claim_interface_def op_release_interface_def)+

lemma iface_step_tracks:
  assumes "lib_handles w h = Some hr" "op_iface x < 31"
  shows "\<exists>K w' hr'. iface_step h x (claimed hr, w) = Inr (K, w') \<and> lib_handles w' h = Some hr' \<and> claimed hr' = K"
proof (cases x)
  case (Claim n a)
  obtain w' hr' where "libusb_claim_interface (op_claim_interface a) (Some h) (int n) w
      = Inr (if n \<in> claimed hr then 0 else op_claim_interface a, w')"
    "lib_handles w' h = Some hr'" "claimed hr' = (if fst a = 0 then insert n (claimed hr) else claimed hr)"
    using claim_run [OF assms(1), of "int n" "op_claim_interface a"] assms(2) Claim
    by (auto simp: claim_code)
  then show ?thesis using Claim assms(1) by (auto simp: insert_absorb)
next
  case (Release n a)
  obtain w' hr' r where "libusb_release_interface (op_release_interface a) (Some h) (int n) w = Inr (r, w')"
    "lib_handles w' h = Some hr'" "claimed hr' = (if fst a = 0 then claimed hr - {n} else claimed hr)"
    using release_run [OF assms(1), of "int n" "op_release_interface a"] assms(2) Release
    by (auto simp: claim_code)
  then show ?thesis using Release assms(1) by auto
qed

text \<open>C35: libusb and the kernel agree on the claimed interfaces. Through any sequence of claims and
  releases of interfaces below 31, whatever the kernel answers to those that reach it, the set the
  handle counts as claimed is the set the kernel has granted.\<close>

theorem claims_track_kernel:
  assumes "lib_handles w h = Some hr" and "list_all (\<lambda>x. op_iface x < 31) xs"
  shows "\<exists>K w' hr'. iface_run h xs (claimed hr, w) = Inr (K, w') \<and> lib_handles w' h = Some hr' \<and> claimed hr' = K"
  using assms
proof (induction xs arbitrary: w hr)
  case (Cons x xs)
  from iface_step_tracks [OF Cons.prems(1), of x] Cons.prems(2) obtain w1 hr1 where
    "iface_step h x (claimed hr, w) = Inr (claimed hr1, w1)" "lib_handles w1 h = Some hr1" by auto
  with Cons.IH [of w1 hr1] Cons.prems(2) show ?case by simp
qed simp

theorem claims_track_kernel_witness:
  "\<exists>K w' hr'. iface_run 2 [Claim 0 (0, 0), Claim 3 (-1, EBUSY), Release 0 (0, 0), Claim 3 (0, 0)] ({}, one_handle)
     = Inr (K, w') \<and> lib_handles w' 2 = Some hr' \<and> claimed hr' = K"
proof -
  have "lib_handles one_handle 2 = Some \<lparr>claimed_interfaces = 0, handle_dev = 1\<rparr>"
    "claimed \<lparr>claimed_interfaces = 0, handle_dev = 1\<rparr> = {}"
    by (simp_all add: one_handle_def claimed_def)
  with claims_track_kernel [of one_handle 2 _
      "[Claim 0 (0, 0), Claim 3 (-1, EBUSY), Release 0 (0, 0), Claim 3 (0, 0)]"] show ?thesis by auto
qed

end
