(* ===== verification/Isochronous.thy ===== *)
theory Isochronous
  imports Usbfs
begin

text \<open>
  Isochronous transfers of the Linux backend (\<open>os/linux_usbfs.c\<close>): how the packets of a transfer are
  distributed over requests to the kernel, and how the results of the packets are put back. A request
  holds the lengths of its packets; its buffer is an offset into the buffer of the transfer.
\<close>

section \<open>Requests\<close>

definition MAX_ISO_BUFFER_LENGTH :: int where "MAX_ISO_BUFFER_LENGTH = 32768"
definition URB_ISO_ASAP :: u32 where "URB_ISO_ASAP = 2"
definition URB_TYPE_ISO :: u8 where "URB_TYPE_ISO = 0"

record iso_urb =
  iu_type :: u8
  iu_endpoint :: u8
  iu_flags :: u32
  iu_buffer :: nat
  iu_packets :: "u32 list"

text \<open>What is reported of a packet.\<close>

record iso_result =
  ir_actual :: u32
  ir_status :: u32

record iso_priv =
  iso_urbs :: "(nat \<times> iso_urb list) option"
  iso_num_urbs :: int
  iso_num_retired :: int
  iso_action :: reap_action
  iso_packet_offset :: nat

text \<open>The state of \<open>Usbfs\<close>, with the private data of isochronous transfers and the results in the packet
  descriptors of each.\<close>

record iso_fs =
  fs :: usbfs
  iso_privs :: "addr \<rightharpoonup> iso_priv"
  packet_results :: "addr \<rightharpoonup> iso_result list"

definition set_iso :: "addr \<Rightarrow> iso_priv \<Rightarrow> iso_fs \<Rightarrow> iso_fs" where
  "set_iso t p s = s\<lparr>iso_privs := (iso_privs s)(t \<mapsto> p)\<rparr>"

text \<open>The loop that counts the requests. The lengths are unsigned, the room left is an \<open>int\<close>: they are
  compared as unsigned numbers.\<close>

definition as_u32 :: "int \<Rightarrow> u32" where "as_u32 n = word_of_int n"

fun count_loop :: "u32 list \<Rightarrow> int \<Rightarrow> int \<Rightarrow> int" where
  "count_loop [] this_urb_len n = n"
| "count_loop (packet_len # ls) this_urb_len n =
     (if packet_len > as_u32 (MAX_ISO_BUFFER_LENGTH - this_urb_len)
      then count_loop ls (sint packet_len) (n + 1)
      else count_loop ls (sint (as_u32 this_urb_len + packet_len)) n)"

text \<open>The packets that fit into a request, and those left.\<close>

fun take_packets :: "int \<Rightarrow> u32 list \<Rightarrow> u32 list \<times> u32 list" where
  "take_packets space [] = ([], [])"
| "take_packets space (packet_len # ls) =
     (if packet_len \<le> as_u32 space
      then case take_packets (sint (as_u32 space - packet_len)) ls of (taken, rest) \<Rightarrow> (packet_len # taken, rest)
      else ([], packet_len # ls))"

fun fill_urbs :: "u8 \<Rightarrow> nat \<Rightarrow> nat \<Rightarrow> u32 list \<Rightarrow> iso_urb list" where
  "fill_urbs ep 0 urb_buffer ls = []"
| "fill_urbs ep (Suc k) urb_buffer ls =
     (case take_packets MAX_ISO_BUFFER_LENGTH ls of (taken, rest) \<Rightarrow>
        \<lparr>iu_type = URB_TYPE_ISO, iu_endpoint = ep, iu_flags = URB_ISO_ASAP, iu_buffer = urb_buffer,
         iu_packets = taken\<rparr>
        # fill_urbs ep k (urb_buffer + sum_list (map unat taken)) rest)"

section \<open>Submission\<close>

fun iso_submit_loop ::
    "(nat \<Rightarrow> submit_answer) \<Rightarrow> addr \<Rightarrow> nat \<Rightarrow> nat list \<Rightarrow> iso_priv \<Rightarrow> iso_fs \<Rightarrow> int \<times> iso_fs" where
  "iso_submit_loop answer t b [] p s = (0, set_iso t p s)"
| "iso_submit_loop answer t b (i # is) p s =
     (if answer i = Accepted
      then iso_submit_loop answer t b is p (s\<lparr>fs := (fs s)\<lparr>pending := pending (fs s) @ [(t, b, i)]\<rparr>\<rparr>)
      else if i = 0 then (submit_error (answer i), set_iso t (p\<lparr>iso_urbs := None\<rparr>) s)
      else (0, set_iso t (p\<lparr>iso_action := SUBMIT_FAILED, iso_num_retired := iso_num_urbs p - int i\<rparr>)
                 (s\<lparr>fs := (fs s)\<lparr>discards := discards (fs s) @ map (\<lambda>j. (t, b, j)) [0..<i]\<rparr>\<rparr>)))"

text \<open>\<open>granted\<close> says which of the allocations succeed: number 0 is the array, \<open>Suc i\<close> the \<open>i\<close>-th request.\<close>

definition submit_iso_transfer ::
    "(nat \<Rightarrow> bool) \<Rightarrow> (nat \<Rightarrow> submit_answer) \<Rightarrow> addr \<Rightarrow> iso_fs \<Rightarrow> fault + int \<times> iso_fs" where
  "submit_iso_transfer granted answer t s =
     bindF (deref (itransfers (uctx (fs s))) (Some t)) (\<lambda>(_, it).
     bindF (deref (iso_privs s) (Some t)) (\<lambda>(_, p).
       let u = user it; ls = iso_packet_desc u
       in if iso_urbs p \<noteq> None then Inr (rc LIBUSB_ERROR_BUSY, s)
          else if num_iso_packets u > int (length ls) then Inl OutOfBounds
          else
            let packets = take (nat (num_iso_packets u)) ls;
                n = count_loop packets 0 1
            in if \<not> granted 0 then Inr (rc LIBUSB_ERROR_NO_MEM, s)
               else
                 let b = next_block (fs s);
                     us = fill_urbs (xendpoint u) (nat n) 0 packets;
                     p1 = p\<lparr>iso_urbs := Some (b, us), iso_num_urbs := n, iso_num_retired := 0,
                            iso_action := NORMAL, iso_packet_offset := 0\<rparr>;
                     s1 = s\<lparr>fs := (fs s)\<lparr>next_block := Suc b\<rparr>\<rparr>
                 in if \<exists>i\<in>{0..<nat n}. \<not> granted (Suc i)
                    then Inr (rc LIBUSB_ERROR_NO_MEM, set_iso t (p1\<lparr>iso_urbs := None\<rparr>) s1)
                    else Inr (iso_submit_loop answer t b [0..<nat n] p1 s1)))"

definition cancel_iso_transfer :: "addr \<Rightarrow> iso_fs \<Rightarrow> fault + int \<times> iso_fs" where
  "cancel_iso_transfer t s =
     bindF (deref (iso_privs s) (Some t)) (\<lambda>(_, p). case iso_urbs p of
         None \<Rightarrow> Inr (rc LIBUSB_ERROR_NOT_FOUND, s)
       | Some (b, us) \<Rightarrow> Inr (0, set_iso t (p\<lparr>iso_action := CANCELLED\<rparr>)
           (s\<lparr>fs := (fs s)\<lparr>discards := discards (fs s)
              @ map (\<lambda>i. (t, b, i)) [0..<nat (iso_num_urbs p)]\<rparr>\<rparr>)))"

text \<open>Freeing the requests reads the array, which must still be there when it has entries.\<close>

definition free_iso_urbs :: "iso_priv \<Rightarrow> fault + iso_priv" where
  "free_iso_urbs p =
     (if iso_urbs p = None \<and> iso_num_urbs p > 0 then Inl NullDeref else Inr (p\<lparr>iso_urbs := None\<rparr>))"

section \<open>Completion\<close>

text \<open>What the kernel reports of a request: its status and the results of its packets.\<close>

record iso_reaped =
  is_status :: int
  is_packets :: "iso_result list"

fun copy_results :: "iso_result list \<Rightarrow> nat \<Rightarrow> iso_result list \<Rightarrow> fault + iso_result list" where
  "copy_results [] off rs = Inr rs"
| "copy_results (x # xs) off rs =
     (if off < length rs then copy_results xs (Suc off) (rs[off := x]) else Inl OutOfBounds)"

definition iso_finish ::
    "addr \<Rightarrow> iso_priv \<Rightarrow> iso_fs \<Rightarrow> (usb_context \<Rightarrow> fault + int \<times> usb_context) \<Rightarrow> fault + int \<times> iso_fs" where
  "iso_finish t p s complete =
     bindF (free_iso_urbs p) (\<lambda>p1.
     bindF (complete (uctx (fs s))) (\<lambda>(r, ctx).
       let s1 = set_iso t p1 s
       in Inr (r, s1\<lparr>fs := (fs s1)\<lparr>uctx := ctx\<rparr>,
                     iso_privs := (\<lambda>a. if itransfers ctx a = None then None else iso_privs s1 a)\<rparr>)))"

text \<open>The request is looked up by its address in the array of the transfer. Results are copied only when
  the request as a whole succeeded, and only then does the place for the next ones move on.\<close>

definition handle_iso_completion ::
    "addr \<times> nat \<times> nat \<Rightarrow> iso_reaped \<Rightarrow> iso_fs \<Rightarrow> fault + int \<times> iso_fs" where
  "handle_iso_completion key a s0 = (case key of (t, b, i) \<Rightarrow>
     let s = s0\<lparr>fs := (fs s0)\<lparr>pending := remove1 (t, b, i) (pending (fs s0))\<rparr>\<rparr>
     in bindF (deref (iso_privs s) (Some t)) (\<lambda>(_, p).
     case iso_urbs p of
       None \<Rightarrow> if iso_num_urbs p > 0 then Inl NullDeref else Inr (rc LIBUSB_ERROR_NOT_FOUND, s)
     | Some (b', us) \<Rightarrow>
         if b' \<noteq> b \<or> \<not> int i < iso_num_urbs p then Inr (rc LIBUSB_ERROR_NOT_FOUND, s)
         else bindF (deref (packet_results s) (Some t)) (\<lambda>(_, rs).
           let n = length (iu_packets (us ! i))
           in bindF (if is_status a = 0 then copy_results (take n (is_packets a)) (iso_packet_offset p) rs
                     else Inr rs) (\<lambda>rs1.
           let p1 = p\<lparr>iso_packet_offset := (if is_status a = 0 then iso_packet_offset p + n else iso_packet_offset p),
                      iso_num_retired := iso_num_retired p + 1\<rparr>;
               s1 = s\<lparr>packet_results := (packet_results s)(t \<mapsto> rs1)\<rparr>
           in if iso_action p1 \<noteq> NORMAL
              then if iso_num_retired p1 = iso_num_urbs p1
                   then if iso_action p1 = CANCELLED
                        then iso_finish t p1 s1 (usbi_handle_transfer_cancellation t)
                        else iso_finish t p1 s1 (usbi_handle_transfer_completion t TRANSFER_ERROR)
                   else Inr (0, set_iso t p1 s1)
              else if int i + 1 = iso_num_urbs p1
                   then iso_finish t p1 s1 (usbi_handle_transfer_completion t TRANSFER_COMPLETED)
                   else Inr (0, set_iso t p1 s1)))))"

section \<open>The requests hold all the packets\<close>

lemma uint_as_u32: "0 \<le> n \<Longrightarrow> n < 2 ^ 31 \<Longrightarrow> uint (as_u32 n) = n"
  by (simp add: as_u32_def unsigned_of_int take_bit_int_eq_self)

lemma sint_small: "uint (w :: u32) < 2 ^ 31 \<Longrightarrow> sint w = uint w"
  using order_trans [OF _ uint_ge_0, of "-2147483648" w]
  by (simp add: sint_uint signed_take_bit_int_eq_self)

lemma fits_iff: "0 \<le> n \<Longrightarrow> n < 2 ^ 31 \<Longrightarrow> l \<le> as_u32 n \<longleftrightarrow> uint l \<le> n"
  "0 \<le> n \<Longrightarrow> n < 2 ^ 31 \<Longrightarrow> as_u32 n < l \<longleftrightarrow> n < uint l"
  by (simp_all add: word_le_def word_less_def uint_as_u32)

lemma small_mod:
  fixes x n :: int
  shows "0 \<le> x \<Longrightarrow> x \<le> n \<Longrightarrow> n \<le> 32768 \<Longrightarrow> (n - x) mod 4294967296 = n - x"
    and "0 \<le> x \<Longrightarrow> x \<le> 32768 \<Longrightarrow> 0 \<le> n \<Longrightarrow> n \<le> 32768 \<Longrightarrow> (n + x) mod 4294967296 = n + x"
  by simp_all

lemma room_left:
  assumes "0 \<le> n" "n \<le> 32768" "uint l \<le> n"
  shows "sint (as_u32 n - l) = n - uint l"
proof -
  have "uint (as_u32 n - l) = n - uint l"
    using small_mod(1) [OF uint_ge_0 assms(3,2)] assms(1,2) by (simp add: uint_word_ariths uint_as_u32)
  moreover have "n - uint l < 2147483648" using uint_ge_0 [of l] assms(2) by linarith
  ultimately show ?thesis using sint_small [of "as_u32 n - l"] by simp
qed

lemma room_used:
  assumes "0 \<le> n" "n \<le> 32768" "uint l \<le> 32768"
  shows "sint (as_u32 n + l) = n + uint l"
proof -
  have "uint (as_u32 n + l) = n + uint l"
    using small_mod(2) [OF uint_ge_0 assms(3,1,2)] assms(1,2) by (simp add: uint_word_ariths uint_as_u32)
  then show ?thesis using assms by (subst sint_small) simp_all
qed

definition small :: "u32 list \<Rightarrow> bool" where
  "small ls \<longleftrightarrow> list_all (\<lambda>l. uint l \<le> 32768) ls"

definition total :: "u32 list \<Rightarrow> int" where
  "total ls = sum_list (map uint ls)"

lemma total_simps [simp]: "total [] = 0" "total (l # ls) = uint l + total ls"
  by (simp_all add: total_def)

lemma take_packets_split:
  assumes "take_packets space ls = (tk, rest)" "0 \<le> space" "space \<le> 32768"
  shows "ls = tk @ rest \<and> total tk \<le> space"
  using assms
proof (induction space ls arbitrary: tk rest rule: take_packets.induct)
  case (2 space l ls)
  then show ?case using uint_ge_0 [of l] order_trans [of "space - uint l" space 32768]
    by (auto simp: fits_iff room_left split: if_splits prod.splits)
qed simp

text \<open>Counting is filling: behind the packets that fit a new request is begun.\<close>

lemma count_loop_add: "count_loop ls this (n + m) = count_loop ls this n + m"
proof (induction ls this n rule: count_loop.induct)
  case (2 l ls this n)
  then show ?case by (simp add: ac_simps)
qed simp

lemma count_loop_take:
  assumes "small ls" "0 \<le> this" "this \<le> 32768" "take_packets (32768 - this) ls = (tk, rest)"
  shows "count_loop ls this n = (if rest = [] then n else count_loop rest 0 (n + 1))"
  using assms
proof (induction ls arbitrary: this n tk)
  case (Cons l ls)
  have l: "uint l \<le> 32768" "small ls" using Cons.prems(1) by (simp_all add: small_def)
  show ?case
  proof (cases "uint l \<le> 32768 - this")
    case True
    then obtain tk' where "take_packets (32768 - (this + uint l)) ls = (tk', rest)"
      using Cons.prems by (auto simp: fits_iff room_left algebra_simps split: prod.splits)
    from Cons.IH [OF l(2) _ _ this, of n] show ?thesis using True Cons.prems l(1)
      by (simp add: MAX_ISO_BUFFER_LENGTH_def fits_iff room_used)
  next
    case False
    then have "rest = l # ls" using Cons.prems by (auto simp: fits_iff)
    then show ?thesis using False Cons.prems(2,3) l(1)
      by (simp add: MAX_ISO_BUFFER_LENGTH_def fits_iff room_used sint_small)
  qed
qed simp

lemma count_loop_ge: "n \<le> count_loop ls this n"
  by (induction ls this n rule: count_loop.induct) auto

lemma fill_all:
  assumes "small ls"
  shows "concat (map iu_packets (fill_urbs ep (nat (count_loop ls 0 1)) buf ls)) = ls
    \<and> list_all (\<lambda>u. total (iu_packets u) \<le> 32768) (fill_urbs ep (nat (count_loop ls 0 1)) buf ls)"
  using assms
proof (induction "length ls" arbitrary: ls buf rule: less_induct)
  case less
  obtain tk rest where t: "take_packets 32768 ls = (tk, rest)" by fastforce
  note split = take_packets_split [OF t]
  have count: "count_loop ls 0 1 = (if rest = [] then 1 else count_loop rest 0 1 + 1)"
    using count_loop_take [OF less.prems, of 0 tk rest 1] t count_loop_add [of rest 0 1 1] by simp
  show ?case
  proof (cases "rest = []")
    case True
    then show ?thesis using t split count by (simp add: MAX_ISO_BUFFER_LENGTH_def)
  next
    case False
    have "tk \<noteq> []"
    proof
      assume "tk = []"
      then obtain l ls' where "ls = l # ls'" "rest = l # ls'" using split False by (cases ls) auto
      then show False using t less.prems \<open>tk = []\<close> by (auto simp: small_def fits_iff split: if_splits prod.splits)
    qed
    then have len: "length rest < length ls" using split by auto
    have "small rest" using less.prems split by (auto simp: small_def)
    from less.hyps [OF len this, of "buf + sum_list (map unat tk)"]
    have IH: "concat (map iu_packets (fill_urbs ep (nat (count_loop rest 0 1)) (buf + sum_list (map unat tk)) rest)) = rest
      \<and> list_all (\<lambda>u. total (iu_packets u) \<le> 32768)
           (fill_urbs ep (nat (count_loop rest 0 1)) (buf + sum_list (map unat tk)) rest)" .
    have "nat (count_loop ls 0 1) = Suc (nat (count_loop rest 0 1))"
      using count False count_loop_ge [of 1 rest 0] by simp
    then show ?thesis using IH t split by (simp add: MAX_ISO_BUFFER_LENGTH_def)
  qed
qed

lemma fill_length: "length (fill_urbs ep k buf ls) = k"
  by (induction k arbitrary: buf ls) (auto split: prod.splits)

lemma fill_buffer:
  "i < k \<Longrightarrow> iu_buffer (fill_urbs ep k buf ls ! i)
     = buf + sum_list (map unat (concat (map iu_packets (take i (fill_urbs ep k buf ls)))))"
proof (induction k arbitrary: i buf ls)
  case (Suc k)
  obtain tk rest where t: "take_packets MAX_ISO_BUFFER_LENGTH ls = (tk, rest)" by fastforce
  then show ?case using Suc.IH [of "i - 1" "buf + sum_list (map unat tk)" rest] Suc.prems
    by (cases i) simp_all
qed simp

lemma iso_submit_accepted:
  "iso_submit_loop (\<lambda>_. Accepted) t b is p s
    = (0, set_iso t p (s\<lparr>fs := (fs s)\<lparr>pending := pending (fs s) @ map (\<lambda>i. (t, b, i)) is\<rparr>\<rparr>))"
proof (induction "is" arbitrary: s)
  case Nil
  show ?case by simp
qed simp

section \<open>Properties\<close>

text \<open>C33: isochronous transfers are cut into requests that hold all their packets. When no packet is
  longer than 32768 bytes and the kernel accepts them, the requests submitted hold the packets of the
  transfer in their order, each no more than 32768 bytes of them, and the buffer of each begins where
  the packets of those before it end.\<close>

theorem iso_requests_cover:
  assumes "itransfers (uctx (fs s)) t = Some it" and "iso_privs s t = Some p" and "iso_urbs p = None"
    and "num_iso_packets (user it) = int (length (iso_packet_desc (user it)))"
    and "\<forall>l\<in>set (iso_packet_desc (user it)). uint l \<le> 32768"
  shows "\<exists>us p' s'. submit_iso_transfer (\<lambda>_. True) (\<lambda>_. Accepted) t s = Inr (0, s')
    \<and> iso_privs s' t = Some p' \<and> iso_urbs p' = Some (next_block (fs s), us) \<and> iso_num_urbs p' = int (length us)
    \<and> concat (map iu_packets us) = iso_packet_desc (user it)
    \<and> (\<forall>u\<in>set us. sum_list (map uint (iu_packets u)) \<le> 32768)
    \<and> (\<forall>i<length us. iu_buffer (us ! i) = sum_list (map unat (concat (map iu_packets (take i us)))))
    \<and> pending (fs s') = pending (fs s) @ map (\<lambda>i. (t, next_block (fs s), i)) [0..<length us]"
proof -
  let ?ls = "iso_packet_desc (user it)"
  define n where "n = count_loop ?ls 0 1"
  define us where "us = fill_urbs (xendpoint (user it)) (nat n) 0 ?ls"
  have n: "1 \<le> n" "length us = nat n" using count_loop_ge [of 1 ?ls 0] by (simp_all add: n_def us_def fill_length)
  have "small ?ls" using assms(5) by (simp add: small_def list_all_iff)
  from fill_all [OF this, of "xendpoint (user it)" 0] have all: "concat (map iu_packets us) = ?ls"
    "\<forall>u\<in>set us. sum_list (map uint (iu_packets u)) \<le> 32768"
    by (simp_all add: us_def n_def list_all_iff total_def)
  have buf: "\<forall>i<length us. iu_buffer (us ! i) = sum_list (map unat (concat (map iu_packets (take i us))))"
    using fill_buffer [of _ "nat n" "xendpoint (user it)" 0 ?ls] unfolding n(2) by (simp add: us_def)
  let ?p = "p\<lparr>iso_urbs := Some (next_block (fs s), us), iso_num_urbs := n, iso_num_retired := 0,
      iso_action := NORMAL, iso_packet_offset := 0\<rparr>"
  have "submit_iso_transfer (\<lambda>_. True) (\<lambda>_. Accepted) t s = Inr (iso_submit_loop (\<lambda>_. Accepted) t
      (next_block (fs s)) [0..<nat n] ?p (s\<lparr>fs := (fs s)\<lparr>next_block := Suc (next_block (fs s))\<rparr>\<rparr>))"
    using assms(1-4) by (simp add: submit_iso_transfer_def Let_def n_def us_def)
  then show ?thesis using n all buf by (auto simp: iso_submit_accepted set_iso_def)
qed

definition one_iso :: "u32 list \<Rightarrow> iso_fs" where
  "one_iso ls = \<lparr>fs = \<lparr>uctx = \<lparr>flying = [1], itransfers = [1 \<mapsto> \<lparr>deadline = \<lparr>tv_sec = 0, tv_usec = 0\<rparr>,
         timed_out = False, i_transferred = 0, user = zero_transfer\<lparr>xtype := TRANSFER_TYPE_ISOCHRONOUS,
           xendpoint := 0x81, num_iso_packets := int (length ls), iso_packet_desc := ls\<rparr>\<rparr>],
       timerfd_built = False, using_timerfd = False, timer_ok = True, armed = None, cancelled = [],
       callbacks = [], pollfds = [], pollfds_locked = False\<rparr>,
     privs = Map.empty, next_block = 5, pending = [], discards = []\<rparr>,
     iso_privs = [1 \<mapsto> \<lparr>iso_urbs = None, iso_num_urbs = 0, iso_num_retired = 0, iso_action = NORMAL,
         iso_packet_offset = 0\<rparr>],
     packet_results = [1 \<mapsto> replicate (length ls) \<lparr>ir_actual = 0, ir_status = 0\<rparr>]\<rparr>"

theorem iso_requests_cover_witness:
  "\<exists>(us :: iso_urb list) s'. submit_iso_transfer (\<lambda>_. True) (\<lambda>_. Accepted) 1 (one_iso [32000, 1000, 20000]) = Inr (0, s')
    \<and> concat (map iu_packets us) = [32000, 1000, 20000]
    \<and> pending (fs s') = map (\<lambda>i. (1, 5, i)) [0..<length us]"
proof -
  have "itransfers (uctx (fs (one_iso ls))) 1 = Some \<lparr>deadline = \<lparr>tv_sec = 0, tv_usec = 0\<rparr>,
         timed_out = False, i_transferred = 0, user = zero_transfer\<lparr>xtype := TRANSFER_TYPE_ISOCHRONOUS,
           xendpoint := 0x81, num_iso_packets := int (length ls), iso_packet_desc := ls\<rparr>\<rparr>"
    "iso_privs (one_iso ls) 1 = Some \<lparr>iso_urbs = None, iso_num_urbs = 0, iso_num_retired = 0, iso_action = NORMAL,
         iso_packet_offset = 0\<rparr>"
    "next_block (fs (one_iso ls)) = 5" "pending (fs (one_iso ls)) = []" for ls
    by (simp_all add: one_iso_def)
  note o = this [of "[32000, 1000, 20000]"]
  have "\<exists>us p' s'. submit_iso_transfer (\<lambda>_. True) (\<lambda>_. Accepted) 1 (one_iso [32000, 1000, 20000]) = Inr (0, s')
    \<and> iso_privs s' 1 = Some p' \<and> iso_urbs p' = Some (5, us) \<and> iso_num_urbs p' = int (length us)
    \<and> concat (map iu_packets us) = [32000, 1000, 20000]
    \<and> (\<forall>u\<in>set us. sum_list (map uint (iu_packets u)) \<le> 32768)
    \<and> (\<forall>i<length us. iu_buffer (us ! i) = sum_list (map unat (concat (map iu_packets (take i us)))))
    \<and> pending (fs s') = [] @ map (\<lambda>i. (1, 5, i)) [0..<length us]"
    using iso_requests_cover [OF o(1,2)] unfolding o(3,4) by simp
  then show ?thesis unfolding append.left_neutral by blast
qed

section \<open>The results are put where they belong\<close>

lemma copy_results_eq:
  "off + length xs \<le> length rs \<Longrightarrow> copy_results xs off rs = Inr (take off rs @ xs @ drop (off + length xs) rs)"
proof (induction xs arbitrary: off rs)
  case (Cons x xs)
  then have off: "off < length rs" by simp
  have "take (Suc off) (rs[off := x]) = take off rs @ [x]"
    using off by (simp add: take_Suc_conv_app_nth)
  then show ?case using Cons.IH [of "Suc off" "rs[off := x]"] Cons.prems off by simp
qed simp

text \<open>The requests of a transfer are reaped in their order; the codes are those of the calls.\<close>

fun reap_in_order :: "addr \<Rightarrow> nat \<Rightarrow> nat \<Rightarrow> iso_reaped list \<Rightarrow> iso_fs \<Rightarrow> fault + int list \<times> iso_fs" where
  "reap_in_order t b i [] s = Inr ([], s)"
| "reap_in_order t b i (a # as) s = bindF (handle_iso_completion (t, b, i) a s) (\<lambda>(r, s1).
     bindF (reap_in_order t b (Suc i) as s1) (\<lambda>(rs, s2). Inr (r # rs, s2)))"

definition iso_at :: "addr \<Rightarrow> nat \<Rightarrow> iso_urb list \<Rightarrow> nat \<Rightarrow> iso_result list \<Rightarrow> iso_fs \<Rightarrow> bool" where
  "iso_at t b us i results s \<longleftrightarrow> (\<exists>p. iso_privs s t = Some p \<and> iso_urbs p = Some (b, us)
     \<and> iso_num_urbs p = int (length us) \<and> iso_action p = NORMAL
     \<and> iso_packet_offset p = length (concat (map iu_packets (take i us))))
     \<and> packet_results s t = Some results \<and> length results = length (concat (map iu_packets us))"


text \<open>A request that succeeded, of a transfer that goes on.\<close>

lemma handle_iso_success:
  assumes "iso_privs s t = Some p" "iso_urbs p = Some (b, us)" "iso_num_urbs p = int (length us)" "i < length us"
    "iso_action p = NORMAL" "packet_results s t = Some rs" "is_status a = 0"
    "copy_results (take (length (iu_packets (us ! i))) (is_packets a)) (iso_packet_offset p) rs = Inr rs1"
  defines "p1 \<equiv> p\<lparr>iso_packet_offset := iso_packet_offset p + length (iu_packets (us ! i)),
      iso_num_retired := iso_num_retired p + 1\<rparr>"
    and "s1 \<equiv> s\<lparr>fs := (fs s)\<lparr>pending := remove1 (t, b, i) (pending (fs s))\<rparr>,
      packet_results := (packet_results s)(t \<mapsto> rs1)\<rparr>"
  shows "handle_iso_completion (t, b, i) a s =
    (if Suc i = length us then iso_finish t p1 s1 (usbi_handle_transfer_completion t TRANSFER_COMPLETED)
     else Inr (0, set_iso t p1 s1))"
proof -
  have "int i + 1 = int (length us) \<longleftrightarrow> Suc i = length us" by linarith
  then show ?thesis using assms by (simp add: handle_iso_completion_def Let_def)
qed

lemma reap_step:
  assumes s: "iso_at t b us i results s" and i: "i < length us"
    and a: "is_status a = 0" "length (is_packets a) = length (iu_packets (us ! i))"
  defines "off \<equiv> length (concat (map iu_packets (take i us)))"
  defines "results1 \<equiv> take off results @ is_packets a @ drop (off + length (is_packets a)) results"
  shows "Suc i < length us \<Longrightarrow> \<exists>s1. handle_iso_completion (t, b, i) a s = Inr (0, s1) \<and> uctx (fs s1) = uctx (fs s)
      \<and> iso_at t b us (Suc i) results1 s1"
    and "\<lbrakk>Suc i = length us; usbi_handle_transfer_completion t TRANSFER_COMPLETED (uctx (fs s)) = Inr (r, ctx)\<rbrakk>
      \<Longrightarrow> \<exists>s1. handle_iso_completion (t, b, i) a s = Inr (r, s1) \<and> uctx (fs s1) = ctx
      \<and> packet_results s1 t = Some results1"
proof -
  obtain p where p: "iso_privs s t = Some p" "iso_urbs p = Some (b, us)" "iso_num_urbs p = int (length us)"
    "iso_action p = NORMAL" "iso_packet_offset p = off" "packet_results s t = Some results"
    and len: "length results = length (concat (map iu_packets us))"
    using s by (auto simp: iso_at_def off_def)
  have us: "us = take i us @ us ! i # drop (Suc i) us" using i by (simp add: id_take_nth_drop)
  have next_off: "length (concat (map iu_packets (take (Suc i) us))) = off + length (iu_packets (us ! i))"
    using i by (simp add: take_Suc_conv_app_nth off_def)
  have "length (concat (map iu_packets us)) = off + length (iu_packets (us ! i))
      + length (concat (map iu_packets (drop (Suc i) us)))"
    by (subst us) (simp add: off_def)
  then have fits: "off + length (is_packets a) \<le> length results" using len a(2) by simp
  then have copy: "copy_results (take (length (iu_packets (us ! i))) (is_packets a)) off results = Inr results1"
    using copy_results_eq [OF fits] a(2) by (simp add: results1_def)
  note run = handle_iso_success [OF p(1-3) i p(4,6) a(1) copy [folded p(5)]]
  have len1: "length results1 = length results" using fits by (simp add: results1_def)
  show "\<exists>s1. handle_iso_completion (t, b, i) a s = Inr (0, s1) \<and> uctx (fs s1) = uctx (fs s)
      \<and> iso_at t b us (Suc i) results1 s1" if "Suc i < length us"
    using that p(2-5) len len1 next_off unfolding run by (simp add: iso_at_def set_iso_def)
  show "\<exists>s1. handle_iso_completion (t, b, i) a s = Inr (r, s1) \<and> uctx (fs s1) = ctx
      \<and> packet_results s1 t = Some results1"
    if "Suc i = length us" "usbi_handle_transfer_completion t TRANSFER_COMPLETED (uctx (fs s)) = Inr (r, ctx)"
    unfolding run using that p(2) by (simp add: iso_finish_def free_iso_urbs_def set_iso_def)
qed


abbreviation answers :: "iso_reaped \<Rightarrow> iso_urb \<Rightarrow> bool" where
  "answers \<equiv> \<lambda>a u. is_status a = 0 \<and> length (is_packets a) = length (iu_packets u)"

lemma reap_in_order_results:
  assumes "iso_at t b us i results s" "i < length us" "list_all2 answers as (drop i us)"
    and "usbi_handle_transfer_completion t TRANSFER_COMPLETED (uctx (fs s)) = Inr (r, ctx)"
  shows "\<exists>s'. reap_in_order t b i as s = Inr (replicate (length as - 1) 0 @ [r], s') \<and> uctx (fs s') = ctx
    \<and> packet_results s' t = Some (take (length (concat (map iu_packets (take i us)))) results
        @ concat (map is_packets as))"
  using assms
proof (induction "as" arbitrary: i results s)
  case Nil
  then show ?case by simp
next
  case (Cons a as)
  let ?off = "length (concat (map iu_packets (take i us)))"
  let ?results1 = "take ?off results @ is_packets a @ drop (?off + length (is_packets a)) results"
  have "drop i us = us ! i # drop (Suc i) us" using Cons.prems(2) by (rule Cons_nth_drop_Suc [symmetric])
  then have a: "is_status a = 0" "length (is_packets a) = length (iu_packets (us ! i))"
    and rest: "list_all2 answers as (drop (Suc i) us)"
    using Cons.prems(3) by simp_all
  have off: "length (concat (map iu_packets (take (Suc i) us))) = ?off + length (is_packets a)"
    using a(2) Cons.prems(2) by (simp add: take_Suc_conv_app_nth)
  have len: "length results = length (concat (map iu_packets us))" using Cons.prems(1) by (simp add: iso_at_def)
  have "us = take i us @ drop i us" by simp
  then have "length (concat (map iu_packets us)) = ?off + length (concat (map iu_packets (drop i us)))"
    by (metis concat_append length_append map_append)
  then have "?off \<le> length results" using len by simp
  then have keep: "take (?off + length (is_packets a)) ?results1 = take ?off results @ is_packets a" by simp
  note step = reap_step [OF Cons.prems(1,2) a]
  show ?case
  proof (cases "Suc i < length us")
    case True
    obtain s1 where s1: "handle_iso_completion (t, b, i) a s = Inr (0, s1)" "uctx (fs s1) = uctx (fs s)"
      "iso_at t b us (Suc i) ?results1 s1"
      using step(1) [OF True] by blast
    have "as \<noteq> []" using rest True by auto
    have "usbi_handle_transfer_completion t TRANSFER_COMPLETED (uctx (fs s1)) = Inr (r, ctx)"
      using Cons.prems(4) s1(2) by simp
    from Cons.IH [OF s1(3) True rest this] show ?thesis
      using s1(1) \<open>as \<noteq> []\<close> unfolding off keep by (cases "as") auto
  next
    case False
    then have last: "Suc i = length us" using Cons.prems(2) by simp
    then have "as = []" using rest by simp
    obtain s1 where s1: "handle_iso_completion (t, b, i) a s = Inr (r, s1)" "uctx (fs s1) = ctx"
      "packet_results s1 t = Some ?results1"
      using step(2) [OF last Cons.prems(4)] by blast
    have "?off + length (is_packets a) = length results" using off len last by simp
    then have "drop (?off + length (is_packets a)) results = []" by simp
    then show ?thesis using s1 \<open>as = []\<close> by simp
  qed
qed

text \<open>C34: the results of isochronous packets are put where they belong. When the kernel gives the requests
  of a transfer back in their order, all successful and with the results of all their packets, every
  call but the last returns 0, the last ends the transfer as completed, and the descriptors of the
  transfer then hold the results of its packets in their order.\<close>

theorem iso_results_in_place:
  assumes "iso_privs s t = Some p" and "iso_urbs p = Some (b, us)" and "iso_num_urbs p = int (length us)"
    and "us \<noteq> []" and "iso_action p = NORMAL" and "iso_packet_offset p = 0"
    and "packet_results s t = Some results" and "length results = length (concat (map iu_packets us))"
    and "list_all2 (\<lambda>a u. is_status a = 0 \<and> length (is_packets a) = length (iu_packets u)) as us"
    and "usbi_handle_transfer_completion t TRANSFER_COMPLETED (uctx (fs s)) = Inr (r, ctx)"
  shows "\<exists>s'. reap_in_order t b 0 as s = Inr (replicate (length as - 1) 0 @ [r], s') \<and> uctx (fs s') = ctx
    \<and> packet_results s' t = Some (concat (map is_packets as))"
proof -
  have "iso_at t b us 0 results s" using assms(1-8) by (simp add: iso_at_def)
  moreover have "list_all2 answers as (drop 0 us)" using assms(9) by simp
  ultimately show ?thesis
    using reap_in_order_results [of t b us 0 results s "as" r ctx] assms(4,10) by simp
qed

text \<open>Two requests, of two packets and of one, given back in their order.\<close>

definition three_packets :: "iso_urb list" where
  "three_packets = fill_urbs 0x81 2 0 [32000, 100, 20000]"

definition iso_running :: iso_fs where
  "iso_running = (one_iso [32000, 100, 20000])\<lparr>iso_privs := [1 \<mapsto> \<lparr>iso_urbs = Some (5, three_packets), iso_num_urbs = 2,
     iso_num_retired = 0, iso_action = NORMAL, iso_packet_offset = 0\<rparr>]\<rparr>"

lemma three_packets_eq: "three_packets = [\<lparr>iu_type = 0, iu_endpoint = 0x81, iu_flags = 2, iu_buffer = 0,
    iu_packets = [32000, 100]\<rparr>, \<lparr>iu_type = 0, iu_endpoint = 0x81, iu_flags = 2, iu_buffer = 32100, iu_packets = [20000]\<rparr>]"
proof -
  have "take_packets 32768 [32000, 100, 20000] = ([32000, 100], [20000])" "take_packets 32768 [20000] = ([20000], [])"
    by code_simp+
  moreover have "fill_urbs ep 2 = fill_urbs ep (Suc (Suc 0))" for ep by (simp add: numeral_2_eq_2)
  ultimately show ?thesis
    by (simp add: three_packets_def MAX_ISO_BUFFER_LENGTH_def URB_TYPE_ISO_def URB_ISO_ASAP_def)
qed

lemma iso_running_completes:
  "\<exists>r ctx. usbi_handle_transfer_completion 1 TRANSFER_COMPLETED (uctx (fs iso_running)) = Inr (r, ctx)"
  by (simp add: iso_running_def one_iso_def usbi_handle_transfer_completion_def arm_timerfd_for_next_timeout_def
      disarm_timerfd_def)

theorem iso_results_in_place_witness:
  "\<exists>r s'. reap_in_order 1 5 0
       [\<lparr>is_status = 0, is_packets = [\<lparr>ir_actual = 7, ir_status = 0\<rparr>, \<lparr>ir_actual = 8, ir_status = 1\<rparr>]\<rparr>,
        \<lparr>is_status = 0, is_packets = [\<lparr>ir_actual = 9, ir_status = 0\<rparr>]\<rparr>] iso_running = Inr ([0, r], s')
     \<and> map_option (map ir_actual) (packet_results s' 1) = Some [7, 8, 9]"
proof -
  obtain r ctx where c: "usbi_handle_transfer_completion 1 TRANSFER_COMPLETED (uctx (fs iso_running)) = Inr (r, ctx)"
    using iso_running_completes by blast
  have p: "iso_privs iso_running 1 = Some \<lparr>iso_urbs = Some (5, three_packets), iso_num_urbs = 2,
      iso_num_retired = 0, iso_action = NORMAL, iso_packet_offset = 0\<rparr>"
    "packet_results iso_running 1 = Some (replicate 3 \<lparr>ir_actual = 0, ir_status = 0\<rparr>)"
    by (simp_all add: iso_running_def one_iso_def numeral_3_eq_3)
  let ?as = "[\<lparr>is_status = 0, is_packets = [\<lparr>ir_actual = 7, ir_status = 0\<rparr>, \<lparr>ir_actual = 8, ir_status = 1\<rparr>]\<rparr>,
        \<lparr>is_status = 0, is_packets = [\<lparr>ir_actual = 9, ir_status = 0\<rparr>]\<rparr>]"
  have "\<exists>s'. reap_in_order 1 5 0 ?as iso_running = Inr (replicate (length ?as - 1) 0 @ [r], s') \<and> uctx (fs s') = ctx
    \<and> packet_results s' 1 = Some (concat (map is_packets ?as))"
    by (rule iso_results_in_place [OF p(1) _ _ _ _ _ p(2) _ _ c, where us = three_packets]) (simp_all add: three_packets_eq)
  then show ?thesis by force
qed

text \<open>When a request before the last one fails, nothing keeps the place of its packets free: the results of
  the next request are put there. Of the three packets only the third was transferred, with 9 bytes,
  and the transfer ends with them in the descriptor of the first.\<close>

lemma failed_request_shifts_results:
  "case reap_in_order 1 5 0 [\<lparr>is_status = - EPROTO, is_packets = [\<lparr>ir_actual = 0, ir_status = 1\<rparr>, \<lparr>ir_actual = 0, ir_status = 1\<rparr>]\<rparr>,
        \<lparr>is_status = 0, is_packets = [\<lparr>ir_actual = 9, ir_status = 0\<rparr>]\<rparr>] iso_running of
     Inl e \<Rightarrow> False | Inr (rs, s') \<Rightarrow> rs = [0, 0] \<and> map_option (map ir_actual) (packet_results s' 1) = Some [9, 0, 0]
       \<and> callbacks (uctx (fs s')) = [(1, TRANSFER_COMPLETED, 0)]"
  by (simp add: iso_running_def one_iso_def three_packets_eq handle_iso_completion_def set_iso_def iso_finish_def
      free_iso_urbs_def usbi_handle_transfer_completion_def arm_timerfd_for_next_timeout_def disarm_timerfd_def
      complete_user_def reported_status_def zero_transfer_def Let_def EPROTO_def numeral_3_eq_3)

text \<open>A packet longer than the limit is in no request: the request behind the packets before it is empty,
  and is submitted all the same.\<close>

lemma long_packet_left_out:
  "map iu_packets (fill_urbs 0x81 (nat (count_loop [1000, 40000, 2000] 0 1)) 0 [1000, 40000, 2000]) = [[1000], []]"
  by code_simp

end
