(* ===== verification/Event_Locks.thy ===== *)
theory Event_Locks
  imports Libusb_Types
begin

text \<open>
  How threads share the handling of events (\<open>io.c\<close>) and how opening and closing a device interrupts it
  (\<open>core.c\<close>). Each function is cut into the steps between which other threads may run: taking or
  releasing a lock, reading or writing a shared variable, a byte of the control pipe. A step is a
  function of the place the thread is at and of the shared state; \<open>None\<close> is a thread that is blocked,
  \<open>Inl\<close> the next place in the function, \<open>Inr\<close> its result. The system is any number of threads that
  handle events or open and close devices, interleaved in any order.
\<close>

section \<open>The shared state\<close>

text \<open>The fields of \<open>struct libusb_context\<close> that take part: a lock knows the thread that has it, a condition
  variable the threads that wait on it, the control pipe the number of its bytes.\<close>

record event_locks =
  pollfd_modify :: u32
  events_lock :: "nat option"
  event_handler_active :: int
  event_waiters_lock :: "nat option"
  event_waiters_cond :: "nat list"
  ctrl_pipe :: nat

definition no_locks :: event_locks where
  "no_locks = \<lparr>pollfd_modify = 0, events_lock = None, event_handler_active = 0, event_waiters_lock = None,
     event_waiters_cond = [], ctrl_pipe = 0\<rparr>"

text \<open>What the surroundings do in a step: nothing, an event of a device or the end of a timeout, or the
  failure of a system call.\<close>

datatype outside = Quiet | Event | Fails

section \<open>The lock of the event handler\<close>

datatype try_at = Try_modify | Try_mutex | Try_active

fun libusb_try_lock_events :: "nat \<Rightarrow> try_at \<Rightarrow> event_locks \<Rightarrow> (try_at + int) \<times> event_locks" where
  "libusb_try_lock_events i Try_modify s = (if pollfd_modify s \<noteq> 0 then Inr 1 else Inl Try_mutex, s)"
| "libusb_try_lock_events i Try_mutex s =
     (if events_lock s \<noteq> None then (Inr 1, s) else (Inl Try_active, s\<lparr>events_lock := Some i\<rparr>))"
| "libusb_try_lock_events i Try_active s = (Inr 0, s\<lparr>event_handler_active := 1\<rparr>)"

datatype lock_at = Lock_mutex | Lock_active

fun libusb_lock_events :: "nat \<Rightarrow> lock_at \<Rightarrow> event_locks \<Rightarrow> ((lock_at + unit) \<times> event_locks) option" where
  "libusb_lock_events i Lock_mutex s =
     (if events_lock s \<noteq> None then None else Some (Inl Lock_active, s\<lparr>events_lock := Some i\<rparr>))"
| "libusb_lock_events i Lock_active s = Some (Inr (), s\<lparr>event_handler_active := 1\<rparr>)"

datatype unlock_at = Unlock_active | Unlock_mutex | Unlock_broadcast

fun libusb_unlock_events :: "unlock_at \<Rightarrow> event_locks \<Rightarrow> ((unlock_at + unit) \<times> event_locks) option" where
  "libusb_unlock_events Unlock_active s = Some (Inl Unlock_mutex, s\<lparr>event_handler_active := 0\<rparr>)"
| "libusb_unlock_events Unlock_mutex s = Some (Inl Unlock_broadcast, s\<lparr>events_lock := None\<rparr>)"
| "libusb_unlock_events Unlock_broadcast s =
     (if event_waiters_lock s \<noteq> None then None else Some (Inr (), s\<lparr>event_waiters_cond := []\<rparr>))"

definition libusb_event_handling_ok :: "event_locks \<Rightarrow> int" where
  "libusb_event_handling_ok s = (if pollfd_modify s \<noteq> 0 then 0 else 1)"

datatype active_at = Active_modify | Active_flag

fun libusb_event_handler_active :: "active_at \<Rightarrow> event_locks \<Rightarrow> active_at + int" where
  "libusb_event_handler_active Active_modify s = (if pollfd_modify s \<noteq> 0 then Inr 1 else Inl Active_flag)"
| "libusb_event_handler_active Active_flag s = Inr (event_handler_active s)"

section \<open>Waiting for another thread\<close>

definition libusb_lock_event_waiters :: "nat \<Rightarrow> event_locks \<Rightarrow> event_locks option" where
  "libusb_lock_event_waiters i s =
     (if event_waiters_lock s \<noteq> None then None else Some (s\<lparr>event_waiters_lock := Some i\<rparr>))"

definition libusb_unlock_event_waiters :: "event_locks \<Rightarrow> event_locks" where
  "libusb_unlock_event_waiters s = s\<lparr>event_waiters_lock := None\<rparr>"

text \<open>Waiting gives up the lock and takes it again before it returns, with 1 if the time was over. The
  clock may fail to be read.\<close>

datatype wait_at = Wait_sleep | Wait_asleep | Wait_relock int

fun libusb_wait_for_event ::
    "nat \<Rightarrow> outside \<Rightarrow> wait_at \<Rightarrow> event_locks \<Rightarrow> ((wait_at + int) \<times> event_locks) option" where
  "libusb_wait_for_event i c Wait_sleep s =
     (if c = Fails then Some (Inr (rc LIBUSB_ERROR_OTHER), s)
      else Some (Inl Wait_asleep, s\<lparr>event_waiters_cond := i # event_waiters_cond s, event_waiters_lock := None\<rparr>))"
| "libusb_wait_for_event i c Wait_asleep s =
     (if i \<notin> set (event_waiters_cond s) then Some (Inl (Wait_relock 0), s)
      else if c = Event
      then Some (Inl (Wait_relock 1), s\<lparr>event_waiters_cond := removeAll i (event_waiters_cond s)\<rparr>)
      else None)"
| "libusb_wait_for_event i c (Wait_relock r) s =
     (if event_waiters_lock s \<noteq> None then None else Some (Inr r, s\<lparr>event_waiters_lock := Some i\<rparr>))"

section \<open>Handling events\<close>

text \<open>The part of \<open>libusb_handle_events_timeout\<close> behind the look at the next deadline. \<open>H_events\<close> is the call of
  \<open>poll\<close> in \<open>handle_events\<close>: it returns if there is a byte in the control pipe, an event or a timeout.
  \<open>H_leave\<close> releases the lock of the waiters before the result of the wait is looked at.\<close>

datatype handle_at = H_try try_at | H_events | H_unlock unlock_at | H_waiters | H_active active_at | H_retry
  | H_wait wait_at | H_leave int

fun libusb_handle_events_timeout ::
    "nat \<Rightarrow> outside \<Rightarrow> handle_at \<Rightarrow> event_locks \<Rightarrow> ((handle_at + unit) \<times> event_locks) option" where
  "libusb_handle_events_timeout i c (H_try a) s =
     (case libusb_try_lock_events i a s of
        (Inl a', s') \<Rightarrow> Some (Inl (H_try a'), s')
      | (Inr r, s') \<Rightarrow> Some (Inl (if r = 0 then H_events else H_waiters), s'))"
| "libusb_handle_events_timeout i c H_events s =
     (if ctrl_pipe s = 0 \<and> c = Quiet then None else Some (Inl (H_unlock Unlock_active), s))"
| "libusb_handle_events_timeout i c (H_unlock a) s =
     map_option (map_prod (map_sum H_unlock id) id) (libusb_unlock_events a s)"
| "libusb_handle_events_timeout i c H_waiters s =
     map_option (\<lambda>s'. (Inl (H_active Active_modify), s')) (libusb_lock_event_waiters i s)"
| "libusb_handle_events_timeout i c (H_active a) s =
     (case libusb_event_handler_active a s of
        Inl a' \<Rightarrow> Some (Inl (H_active a'), s)
      | Inr r \<Rightarrow> Some (Inl (if r = 0 then H_retry else H_wait Wait_sleep), s))"
| "libusb_handle_events_timeout i c H_retry s = Some (Inl (H_try Try_modify), libusb_unlock_event_waiters s)"
| "libusb_handle_events_timeout i c (H_wait a) s =
     (case libusb_wait_for_event i c a s of
        None \<Rightarrow> None
      | Some (Inl a', s') \<Rightarrow> Some (Inl (H_wait a'), s')
      | Some (Inr r, s') \<Rightarrow> Some (Inl (H_leave r), s'))"
| "libusb_handle_events_timeout i c (H_leave r) s = Some (Inr (), libusb_unlock_event_waiters s)"

section \<open>Changing the set of polled files\<close>

text \<open>What \<open>libusb_close\<close> and, behind the opening itself, \<open>libusb_open\<close> do to interrupt the thread that
  handles events. Only closing changes the set of files here, in \<open>do_close\<close>; it does so without the lock
  when nothing can be written to the control pipe. A byte that cannot be read stays in the pipe, and
  the thread goes on.\<close>

datatype modify_at = M_announce | M_write | M_lock lock_at | M_read | M_close | M_done | M_unlock unlock_at
  | M_close_anyway | M_failed

fun interrupt_handlers ::
    "bool \<Rightarrow> nat \<Rightarrow> outside \<Rightarrow> modify_at \<Rightarrow> event_locks \<Rightarrow> ((modify_at + unit) \<times> event_locks) option" where
  "interrupt_handlers closing i c M_announce s = Some (Inl M_write, s\<lparr>pollfd_modify := pollfd_modify s + 1\<rparr>)"
| "interrupt_handlers closing i c M_write s =
     (if c = Fails then Some (Inl (if closing then M_close_anyway else M_failed), s)
      else Some (Inl (M_lock Lock_mutex), s\<lparr>ctrl_pipe := ctrl_pipe s + 1\<rparr>))"
| "interrupt_handlers closing i c (M_lock a) s =
     (case libusb_lock_events i a s of
        None \<Rightarrow> None
      | Some (Inl a', s') \<Rightarrow> Some (Inl (M_lock a'), s')
      | Some (Inr _, s') \<Rightarrow> Some (Inl M_read, s'))"
| "interrupt_handlers closing i c M_read s =
     (if c = Fails then Some (Inl (if closing then M_close else M_done), s)
      else if ctrl_pipe s = 0 then None
      else Some (Inl (if closing then M_close else M_done), s\<lparr>ctrl_pipe := ctrl_pipe s - 1\<rparr>))"
| "interrupt_handlers closing i c M_close s = Some (Inl M_done, s)"
| "interrupt_handlers closing i c M_done s =
     Some (Inl (M_unlock Unlock_active), s\<lparr>pollfd_modify := pollfd_modify s - 1\<rparr>)"
| "interrupt_handlers closing i c (M_unlock a) s =
     map_option (map_prod (map_sum M_unlock id) id) (libusb_unlock_events a s)"
| "interrupt_handlers closing i c M_close_anyway s = Some (Inl M_failed, s)"
| "interrupt_handlers closing i c M_failed s = Some (Inr (), s\<lparr>pollfd_modify := pollfd_modify s - 1\<rparr>)"

section \<open>Threads\<close>

datatype thread = Idle | Handling handle_at | Modifying bool modify_at

fun now_handling :: "handle_at + unit \<Rightarrow> thread" where
  "now_handling (Inl a) = Handling a"
| "now_handling (Inr _) = Idle"

fun now_modifying :: "bool \<Rightarrow> modify_at + unit \<Rightarrow> thread" where
  "now_modifying closing (Inl a) = Modifying closing a"
| "now_modifying closing (Inr _) = Idle"

fun thread_step :: "nat \<Rightarrow> outside \<Rightarrow> thread \<Rightarrow> event_locks \<Rightarrow> (thread \<times> event_locks) option" where
  "thread_step i c Idle s = None"
| "thread_step i c (Handling a) s =
     map_option (map_prod now_handling id) (libusb_handle_events_timeout i c a s)"
| "thread_step i c (Modifying closing a) s =
     map_option (map_prod (now_modifying closing) id) (interrupt_handlers closing i c a s)"

text \<open>\<open>may_fail\<close> says whether system calls may fail.\<close>

inductive event_step :: "bool \<Rightarrow> thread list \<times> event_locks \<Rightarrow> thread list \<times> event_locks \<Rightarrow> bool"
  for may_fail where
  handle: "\<lbrakk>i < length ts; ts ! i = Idle\<rbrakk>
     \<Longrightarrow> event_step may_fail (ts, s) (ts[i := Handling (H_try Try_modify)], s)"
| modify: "\<lbrakk>i < length ts; ts ! i = Idle\<rbrakk> \<Longrightarrow> event_step may_fail (ts, s) (ts[i := Modifying closing M_announce], s)"
| move: "\<lbrakk>i < length ts; c = Fails \<Longrightarrow> may_fail; thread_step i c (ts ! i) s = Some (t, s')\<rbrakk>
     \<Longrightarrow> event_step may_fail (ts, s) (ts[i := t], s')"

inductive event_reachable :: "bool \<Rightarrow> nat \<Rightarrow> thread list \<times> event_locks \<Rightarrow> bool" for may_fail n where
  start: "event_reachable may_fail n (replicate n Idle, no_locks)"
| step: "\<lbrakk>event_reachable may_fail n x; event_step may_fail x y\<rbrakk> \<Longrightarrow> event_reachable may_fail n y"


section \<open>What a step of one thread changes\<close>

text \<open>Who has the lock of the event handler, and who has set the flag.\<close>

fun has_events :: "thread \<Rightarrow> bool" where
  "has_events (Handling (H_try Try_active)) = True"
| "has_events (Handling H_events) = True"
| "has_events (Handling (H_unlock a)) = (a \<noteq> Unlock_broadcast)"
| "has_events (Modifying _ (M_lock Lock_active)) = True"
| "has_events (Modifying _ M_read) = True"
| "has_events (Modifying _ M_close) = True"
| "has_events (Modifying _ M_done) = True"
| "has_events (Modifying _ (M_unlock a)) = (a \<noteq> Unlock_broadcast)"
| "has_events _ = False"

fun flagged :: "thread \<Rightarrow> bool" where
  "flagged (Handling H_events) = True"
| "flagged (Handling (H_unlock a)) = (a = Unlock_active)"
| "flagged (Modifying _ M_read) = True"
| "flagged (Modifying _ M_close) = True"
| "flagged (Modifying _ M_done) = True"
| "flagged (Modifying _ (M_unlock a)) = (a = Unlock_active)"
| "flagged _ = False"

fun has_waiters :: "thread \<Rightarrow> bool" where
  "has_waiters (Handling (H_active _)) = True"
| "has_waiters (Handling H_retry) = True"
| "has_waiters (Handling (H_wait Wait_sleep)) = True"
| "has_waiters (Handling (H_leave _)) = True"
| "has_waiters _ = False"

text \<open>Who counts in \<open>pollfd_modify\<close>, and whose byte is in the control pipe.\<close>

fun announced :: "thread \<Rightarrow> bool" where
  "announced (Modifying _ M_announce) = False"
| "announced (Modifying _ (M_unlock _)) = False"
| "announced (Modifying _ _) = True"
| "announced _ = False"

fun wrote :: "thread \<Rightarrow> bool" where
  "wrote (Modifying _ (M_lock _)) = True"
| "wrote (Modifying _ M_read) = True"
| "wrote _ = False"

text \<open>Who will wake the waiting threads before it is done: this is so of a thread that has the lock of the
  events or is on the way to it with no failure to come.\<close>

fun will_wake :: "thread \<Rightarrow> bool" where
  "will_wake (Handling (H_try Try_active)) = True"
| "will_wake (Handling H_events) = True"
| "will_wake (Handling (H_unlock _)) = True"
| "will_wake (Modifying _ a) = (a \<noteq> M_announce \<and> a \<noteq> M_close_anyway \<and> a \<noteq> M_failed)"
| "will_wake _ = False"

lemma thread_cases:
  assumes "P Idle" "P (Handling (H_try Try_modify))" "P (Handling (H_try Try_mutex))"
    "P (Handling (H_try Try_active))" "P (Handling H_events)" "P (Handling (H_unlock Unlock_active))"
    "P (Handling (H_unlock Unlock_mutex))" "P (Handling (H_unlock Unlock_broadcast))"
    "P (Handling H_waiters)" "P (Handling (H_active Active_modify))" "P (Handling (H_active Active_flag))"
    "P (Handling H_retry)" "P (Handling (H_wait Wait_sleep))" "P (Handling (H_wait Wait_asleep))"
    "\<And>r. P (Handling (H_wait (Wait_relock r)))" "\<And>r. P (Handling (H_leave r))"
    "\<And>b. P (Modifying b M_announce)" "\<And>b. P (Modifying b M_write)"
    "\<And>b. P (Modifying b (M_lock Lock_mutex))" "\<And>b. P (Modifying b (M_lock Lock_active))"
    "\<And>b. P (Modifying b M_read)" "\<And>b. P (Modifying b M_close)" "\<And>b. P (Modifying b M_done)"
    "\<And>b. P (Modifying b (M_unlock Unlock_active))" "\<And>b. P (Modifying b (M_unlock Unlock_mutex))"
    "\<And>b. P (Modifying b (M_unlock Unlock_broadcast))" "\<And>b. P (Modifying b M_close_anyway)"
    "\<And>b. P (Modifying b M_failed)"
  shows "P t"
proof (cases t)
  case (Handling a)
  have "P (Handling (H_try x))" for x using assms by (cases x) auto
  moreover have "P (Handling (H_unlock x))" for x using assms by (cases x) auto
  moreover have "P (Handling (H_active x))" for x using assms by (cases x) auto
  moreover have "P (Handling (H_wait x))" for x using assms by (cases x) auto
  ultimately show ?thesis using Handling assms by (cases a) auto
next
  case (Modifying b a)
  have "P (Modifying b (M_lock x))" for x using assms by (cases x) auto
  moreover have "P (Modifying b (M_unlock x))" for x using assms by (cases x) auto
  ultimately show ?thesis using Modifying assms by (cases a) auto
qed (use assms in simp)

lemmas waiters_defs = libusb_lock_event_waiters_def libusb_unlock_event_waiters_def

lemma step_events_lock:
  assumes "thread_step i c t s = Some (t', s')"
  shows "events_lock s' = (if has_events t = has_events t' then events_lock s else if has_events t' then Some i else None)
    \<and> (\<not> has_events t \<and> has_events t' \<longrightarrow> events_lock s = None)"
  using assms by (induction t rule: thread_cases) (auto split: if_splits simp: waiters_defs)

lemma step_waiters_lock:
  assumes "thread_step i c t s = Some (t', s')"
  shows "event_waiters_lock s' = (if has_waiters t = has_waiters t' then event_waiters_lock s
      else if has_waiters t' then Some i else None)
    \<and> (\<not> has_waiters t \<and> has_waiters t' \<longrightarrow> event_waiters_lock s = None)"
  using assms by (induction t rule: thread_cases)
    (auto split: if_splits simp: waiters_defs)

lemma step_modify:
  assumes "thread_step i c t s = Some (t', s')"
  shows "pollfd_modify s' + (if announced t then 1 else 0) = pollfd_modify s + (if announced t' then 1 else 0)"
  using assms by (induction t rule: thread_cases)
    (auto split: if_splits simp: waiters_defs)

lemma step_pipe:
  assumes "thread_step i c t s = Some (t', s')"
  shows "ctrl_pipe s + (if wrote t' then 1 else 0) \<le> ctrl_pipe s' + (if wrote t then 1 else 0)"
  using assms by (induction t rule: thread_cases)
    (auto split: if_splits simp: waiters_defs)

lemma step_flag:
  assumes "thread_step i c t s = Some (t', s')"
  shows "event_handler_active s' = (if flagged t = flagged t' then event_handler_active s else if flagged t' then 1 else 0)"
  using assms by (induction t rule: thread_cases)
    (auto split: if_splits simp: waiters_defs)

fun failed :: "thread \<Rightarrow> bool" where
  "failed (Modifying _ M_close_anyway) = True"
| "failed (Modifying _ M_failed) = True"
| "failed _ = False"

lemma step_wake:
  assumes "thread_step i c t s = Some (t', s')"
  shows "c \<noteq> Fails \<Longrightarrow> \<not> failed t \<Longrightarrow> \<not> failed t'"
    and "c \<noteq> Fails \<Longrightarrow> will_wake t \<Longrightarrow> will_wake t' \<or> event_waiters_cond s' = [] \<and> event_waiters_lock s = None"
    and "t' = Handling (H_wait Wait_sleep) \<Longrightarrow> \<not> announced t \<and> \<not> flagged t
      \<and> (pollfd_modify s \<noteq> 0 \<or> event_handler_active s \<noteq> 0)"
    and "t' = Handling (H_wait Wait_asleep) \<Longrightarrow> t = Handling (H_wait Wait_sleep)"
    and "j \<in> set (event_waiters_cond s') \<Longrightarrow> j \<noteq> i \<Longrightarrow> j \<in> set (event_waiters_cond s)"
  using assms by (induction t rule: thread_cases; auto split: if_splits simp: waiters_defs)+

lemma flagged_owns: "flagged t \<Longrightarrow> has_events t"
  by (induction t rule: thread_cases) auto

lemma will_wake_if: "flagged t \<Longrightarrow> will_wake t" "announced t \<Longrightarrow> \<not> failed t \<Longrightarrow> will_wake t"
  by (induction t rule: thread_cases; simp)+

section \<open>What holds of all the threads\<close>

text \<open>A lock belongs to the one thread that is where it holds it.\<close>

definition lock_owner :: "(thread \<Rightarrow> bool) \<Rightarrow> nat option \<Rightarrow> thread list \<Rightarrow> bool" where
  "lock_owner P l ts \<longleftrightarrow> (\<forall>i. l = Some i \<longleftrightarrow> i < length ts \<and> P (ts ! i))"

lemma lock_owner_update:
  assumes "lock_owner P l ts" "i < length ts"
    and "l' = (if P (ts ! i) = P t then l else if P t then Some i else None) \<and> (\<not> P (ts ! i) \<and> P t \<longrightarrow> l = None)"
  shows "lock_owner P l' (ts[i := t])"
proof -
  have own: "l = Some k \<longleftrightarrow> k < length ts \<and> P (ts ! k)" for k using assms(1) by (simp add: lock_owner_def)
  have "l' = Some k \<longleftrightarrow> k < length ts \<and> P (ts[i := t] ! k)" for k
    using own [of k] own [of i] assms(2,3) by (cases "k = i") (auto split: if_splits)
  then show ?thesis by (simp add: lock_owner_def)
qed

definition count :: "(thread \<Rightarrow> bool) \<Rightarrow> thread list \<Rightarrow> nat" where
  "count P ts = length (filter P ts)"

lemma count_update:
  "i < length ts \<Longrightarrow> count P (ts[i := t]) + (if P (ts ! i) then 1 else 0) = count P ts + (if P t then 1 else 0)"
proof (induction ts arbitrary: i)
  case (Cons x ts)
  then show ?case by (cases i) (auto simp: count_def)
qed simp

lemma count_pos: "count P ts \<noteq> 0 \<longleftrightarrow> (\<exists>i<length ts. P (ts ! i))"
  by (simp add: count_def filter_empty_conv) (metis in_set_conv_nth)

definition locks_inv :: "thread list \<times> event_locks \<Rightarrow> bool" where
  "locks_inv x \<longleftrightarrow> (case x of (ts, s) \<Rightarrow>
     lock_owner has_events (events_lock s) ts \<and> lock_owner has_waiters (event_waiters_lock s) ts
     \<and> pollfd_modify s = of_nat (count announced ts) \<and> count wrote ts \<le> ctrl_pipe s
     \<and> event_handler_active s = (if count flagged ts = 0 then 0 else 1))"

lemma step_counts:
  assumes "locks_inv (ts, s)" "i < length ts" "thread_step i c (ts ! i) s = Some (t, s')"
  shows "pollfd_modify s' = of_nat (count announced (ts[i := t]))" "count wrote (ts[i := t]) \<le> ctrl_pipe s'"
proof -
  have "of_nat (count announced (ts[i := t])) + (if announced (ts ! i) then 1 else 0 :: u32)
      = of_nat (count announced ts) + (if announced t then 1 else 0)"
    using arg_cong [OF count_update [OF assms(2), of announced t], of "of_nat :: nat \<Rightarrow> u32"] by (simp split: if_splits)
  moreover have "pollfd_modify s = of_nat (count announced ts)" using assms(1) by (simp add: locks_inv_def)
  ultimately show "pollfd_modify s' = of_nat (count announced (ts[i := t]))"
    using step_modify [OF assms(3)] by (metis add_right_cancel)
  show "count wrote (ts[i := t]) \<le> ctrl_pipe s'"
    using step_pipe [OF assms(3)] count_update [OF assms(2), of wrote t] assms(1) by (simp add: locks_inv_def split: if_splits)
qed

lemma step_flag_count:
  assumes "locks_inv (ts, s)" "i < length ts" "thread_step i c (ts ! i) s = Some (t, s')"
  shows "event_handler_active s' = (if count flagged (ts[i := t]) = 0 then 0 else 1)"
proof -
  have own: "lock_owner has_events (events_lock s) ts" "event_handler_active s = (if count flagged ts = 0 then 0 else 1)"
    using assms(1) by (simp_all add: locks_inv_def)
  have "count flagged (ts[i := t]) = 0" if "flagged (ts ! i)" "\<not> flagged t"
  proof (rule ccontr)
    assume "count flagged (ts[i := t]) \<noteq> 0"
    then obtain j where j: "j < length ts" "flagged (ts[i := t] ! j)" using count_pos [of flagged "ts[i := t]"] by auto
    then have "j \<noteq> i" using that(2) by auto
    then have "has_events (ts ! j)" "has_events (ts ! i)" using j that(1) flagged_owns by simp_all
    then have "events_lock s = Some j" "events_lock s = Some i" using own(1) j(1) assms(2) by (simp_all add: lock_owner_def)
    then show False using \<open>j \<noteq> i\<close> by simp
  qed
  then show ?thesis
    using step_flag [OF assms(3)] count_update [OF assms(2), of flagged t] own(2) by (auto split: if_splits)
qed

lemma locks_inv_step:
  assumes "locks_inv (ts, s)" "i < length ts" "thread_step i c (ts ! i) s = Some (t, s')"
  shows "locks_inv (ts[i := t], s')"
proof -
  have "lock_owner has_events (events_lock s) ts" "lock_owner has_waiters (event_waiters_lock s) ts"
    using assms(1) by (simp_all add: locks_inv_def)
  note this(1) [THEN lock_owner_update, OF assms(2) step_events_lock [OF assms(3)]]
    this(2) [THEN lock_owner_update, OF assms(2) step_waiters_lock [OF assms(3)]]
  then show ?thesis using step_counts [OF assms] step_flag_count [OF assms] by (simp add: locks_inv_def)
qed

text \<open>A thread that begins changes nothing that counts.\<close>

lemma locks_inv_start:
  assumes "locks_inv (ts, s)" "i < length ts" "ts ! i = Idle"
    and "t = Handling (H_try Try_modify) \<or> t = Modifying closing M_announce"
  shows "locks_inv (ts[i := t], s)"
proof -
  have none: "\<not> has_events t" "\<not> has_waiters t" "\<not> announced t" "\<not> wrote t" "\<not> flagged t" using assms(4) by auto
  have "lock_owner P l (ts[i := t])" if "lock_owner P l ts" "\<not> P t" "\<not> P Idle" for P l
    using lock_owner_update [OF that(1) assms(2), of l t] that(2,3) assms(3) by simp
  moreover have "count P (ts[i := t]) = count P ts" if "\<not> P t" "\<not> P Idle" for P
    using count_update [OF assms(2), of P t] that assms(3) by simp
  ultimately show ?thesis using assms(1) none by (simp add: locks_inv_def)
qed

lemma event_step_length: "event_step f (ts, s) (ts', s') \<Longrightarrow> length ts' = length ts"
  by (auto elim: event_step.cases)

lemma reachable_inv:
  assumes "event_reachable f n x"
  shows "locks_inv x \<and> length (fst x) = n"
  using assms
proof (induction rule: event_reachable.induct)
  case start
  show ?case by (simp add: locks_inv_def no_locks_def lock_owner_def count_def)
next
  case (step x y)
  from step.hyps(2) show ?case
    using step.IH by cases (auto intro: locks_inv_step locks_inv_start)
qed


section \<open>Nobody sleeps for nothing\<close>

definition sleeping :: "event_locks \<Rightarrow> nat \<Rightarrow> thread \<Rightarrow> bool" where
  "sleeping s i t \<longleftrightarrow> t = Handling (H_wait Wait_sleep)
     \<or> t = Handling (H_wait Wait_asleep) \<and> i \<in> set (event_waiters_cond s)"

definition wake_inv :: "thread list \<times> event_locks \<Rightarrow> bool" where
  "wake_inv x \<longleftrightarrow> (case x of (ts, s) \<Rightarrow> (\<forall>i<length ts. \<not> failed (ts ! i))
     \<and> (\<forall>i<length ts. sleeping s i (ts ! i) \<longrightarrow> (\<exists>j<length ts. will_wake (ts ! j))))"

lemma counted_will_wake:
  assumes "locks_inv (ts, s)" "\<forall>i<length ts. \<not> failed (ts ! i)"
    and "pollfd_modify s \<noteq> 0 \<or> event_handler_active s \<noteq> 0"
  shows "\<exists>j<length ts. (announced (ts ! j) \<or> flagged (ts ! j)) \<and> will_wake (ts ! j)"
proof -
  have "count announced ts \<noteq> 0 \<or> count flagged ts \<noteq> 0"
    using assms(1,3) by (cases "count announced ts = 0") (auto simp: locks_inv_def split: if_splits)
  then obtain j where "j < length ts" "announced (ts ! j) \<or> flagged (ts ! j)" unfolding count_pos by blast
  then show ?thesis using assms(2) will_wake_if by blast
qed

lemma wake_inv_step:
  assumes inv: "locks_inv (ts, s)" "wake_inv (ts, s)" and i: "i < length ts" and c: "c \<noteq> Fails"
    and run: "thread_step i c (ts ! i) s = Some (t, s')"
  shows "wake_inv (ts[i := t], s')"
proof -
  have ok: "\<forall>i<length ts. \<not> failed (ts ! i)"
    and old: "j < length ts \<Longrightarrow> sleeping s j (ts ! j) \<Longrightarrow> \<exists>k<length ts. will_wake (ts ! k)" for j
    using inv(2) by (auto simp: wake_inv_def)
  note w = step_wake [OF run]
  have "\<exists>k<length ts. will_wake (ts[i := t] ! k)" if j: "j < length ts" "sleeping s' j (ts[i := t] ! j)" for j
  proof (cases "j = i")
    case True
    then have "t = Handling (H_wait Wait_sleep) \<or> t = Handling (H_wait Wait_asleep)"
      using j i by (auto simp: sleeping_def)
    then obtain k where k: "k < length ts" "will_wake (ts ! k)" "k \<noteq> i"
    proof
      assume "t = Handling (H_wait Wait_sleep)"
      with w(3) counted_will_wake [OF inv(1) ok] show thesis using that by blast
    next
      assume "t = Handling (H_wait Wait_asleep)"
      then have "ts ! i = Handling (H_wait Wait_sleep)" by (rule w(4))
      with old [OF i] show thesis using that by (force simp: sleeping_def)
    qed
    then show ?thesis by (intro exI [of _ k]) simp
  next
    case False
    then have "sleeping s j (ts ! j)" using j w(5) [of j] by (auto simp: sleeping_def)
    from old [OF j(1) this] obtain k where k: "k < length ts" "will_wake (ts ! k)" by blast
    show ?thesis
    proof (cases "k = i \<and> \<not> will_wake t")
      case True
      then have woken: "event_waiters_cond s' = []" "event_waiters_lock s = None" using w(2) [OF c] k(2) by auto
      then have "ts ! j = Handling (H_wait Wait_sleep)" using j False by (auto simp: sleeping_def)
      then have "event_waiters_lock s = Some j" using inv(1) j(1) by (simp add: locks_inv_def lock_owner_def)
      then show ?thesis using woken(2) by simp
    qed (use k i in \<open>auto simp: nth_list_update intro!: exI [of _ k]\<close>)
  qed
  moreover have "\<forall>j<length ts. \<not> failed (ts[i := t] ! j)" using ok w(1) [OF c] i by (simp add: nth_list_update)
  ultimately show ?thesis by (simp add: wake_inv_def)
qed

lemma wake_inv_start:
  assumes "wake_inv (ts, s)" "i < length ts" "ts ! i = Idle"
    and "t = Handling (H_try Try_modify) \<or> t = Modifying closing M_announce"
  shows "wake_inv (ts[i := t], s)"
proof -
  have t: "\<not> failed t" "\<not> sleeping s i t" using assms(4) by (auto simp: sleeping_def)
  have "\<exists>k<length ts. will_wake (ts[i := t] ! k)" if j: "j < length ts" "sleeping s j (ts[i := t] ! j)" for j
  proof -
    have "j \<noteq> i" using j t(2) assms(2) by auto
    then have "sleeping s j (ts ! j)" using j(2) by simp
    then obtain k where "k < length ts" "will_wake (ts ! k)" using assms(1) j(1) by (auto simp: wake_inv_def)
    moreover from this have "k \<noteq> i" using assms(3) by auto
    ultimately show ?thesis by (intro exI [of _ k]) simp
  qed
  then show ?thesis using assms(1,2) t(1) by (simp add: wake_inv_def nth_list_update)
qed

lemma reachable_wake_inv:
  assumes "event_reachable False n x"
  shows "wake_inv x"
  using assms
proof (induction rule: event_reachable.induct)
  case start
  show ?case by (simp add: wake_inv_def sleeping_def)
next
  case (step x y)
  from step.hyps(2) show ?case
    using step.IH reachable_inv [OF step.hyps(1)] by cases (auto intro: wake_inv_step wake_inv_start)
qed

section \<open>Properties\<close>

text \<open>C4: events are handled by one thread at a time. In every reachable state of any number of threads at
  most one is between taking and releasing the lock of the event handler: while a thread is in \<open>poll\<close>
  no other is, and none that has the lock closes a device.\<close>

theorem events_exclusive:
  assumes "event_reachable may_fail n (ts, s)" and "i < n" and "j < n"
    and "has_events (ts ! i)" and "has_events (ts ! j)"
  shows "i = j"
proof -
  from reachable_inv [OF assms(1)] have "lock_owner has_events (events_lock s) ts" "length ts = n"
    by (simp_all add: locks_inv_def)
  with assms(2-5) have "events_lock s = Some i" "events_lock s = Some j" by (simp_all add: lock_owner_def)
  then show ?thesis by simp
qed

text \<open>C3: no wake-up is lost. As long as no system call fails, whenever a thread sleeps until an event has
  been handled there is a thread that will wake it: one that handles events or changes the set of
  files, and that stays one until it has woken all that sleep.\<close>

theorem no_lost_wakeup:
  assumes "event_reachable False n (ts, s)" and "i < n"
    and "ts ! i = Handling (H_wait Wait_asleep)" and "i \<in> set (event_waiters_cond s)"
  shows "\<exists>j<n. will_wake (ts ! j) \<and> (\<forall>c t s'. c \<noteq> Fails \<and> thread_step j c (ts ! j) s = Some (t, s')
    \<longrightarrow> will_wake t \<or> event_waiters_cond s' = [])"
proof -
  have "length ts = n" using reachable_inv [OF assms(1)] by simp
  moreover have "sleeping s i (ts ! i)" using assms(3,4) by (simp add: sleeping_def)
  ultimately obtain j where "j < n" "will_wake (ts ! j)"
    using reachable_wake_inv [OF assms(1)] assms(2) by (auto simp: wake_inv_def)
  then show ?thesis using step_wake(2) by blast
qed

lemma holder_moves:
  "has_events t \<Longrightarrow> ctrl_pipe s \<noteq> 0 \<Longrightarrow> \<exists>t' s'. thread_step j Quiet t s = Some (t', s')"
  by (induction t rule: thread_cases) auto

lemma announced_moves:
  "announced t \<Longrightarrow> (\<And>b. t = Modifying b (M_lock Lock_mutex) \<Longrightarrow> events_lock s = None) \<Longrightarrow> (wrote t \<Longrightarrow> ctrl_pipe s \<noteq> 0)
    \<Longrightarrow> \<exists>t' s'. thread_step j Quiet t s = Some (t', s')"
  by (induction t rule: thread_cases) auto

text \<open>C5: whoever opens or closes a device is not kept waiting by the handling of events. From the moment it
  has announced itself, a thread that begins to try for the lock is turned away, those that handle events
  are told to stop (a thread that is past the test of \<open>pollfd_modify\<close> may still take the lock; the byte
  in the control pipe, once it is written, ends its \<open>poll\<close>), and one of the threads involved can go on without an event or a timeout: it itself, or the
  one that has the lock, whose \<open>poll\<close> returns because of the byte in the control pipe.\<close>

theorem closing_goes_on:
  assumes "event_reachable may_fail n (ts, s)" and "n < 2 ^ 32" and "i < n" and "announced (ts ! i)"
  shows "libusb_event_handling_ok s = 0 \<and> libusb_try_lock_events k Try_modify s = (Inr 1, s)
    \<and> (\<exists>j<n. (j = i \<or> has_events (ts ! j)) \<and> (\<exists>t s'. thread_step j Quiet (ts ! j) s = Some (t, s')))"
proof -
  from reachable_inv [OF assms(1)] have inv: "lock_owner has_events (events_lock s) ts"
    "pollfd_modify s = of_nat (count announced ts)" "count wrote ts \<le> ctrl_pipe s" and n: "length ts = n"
    by (simp_all add: locks_inv_def)
  have "count announced ts \<noteq> 0" using assms(3,4) n unfolding count_pos by auto
  moreover have "count announced ts < 2 ^ 32" using assms(2) n length_filter_le [of announced ts] by (simp add: count_def)
  ultimately have "pollfd_modify s \<noteq> 0" using inv(2) by (simp add: word_of_nat_eq_0_iff nat_dvd_not_less)
  moreover have pipe: "ctrl_pipe s \<noteq> 0" if "wrote (ts ! i)"
  proof -
    have "count wrote ts \<noteq> 0" unfolding count_pos using that assms(3) n by blast
    then show ?thesis using inv(3) by simp
  qed
  moreover have "\<exists>j<n. (j = i \<or> has_events (ts ! j)) \<and> (\<exists>t s'. thread_step j Quiet (ts ! j) s = Some (t, s'))"
  proof (cases "events_lock s")
    case None
    then have "\<exists>t s'. thread_step i Quiet (ts ! i) s = Some (t, s')" by (rule announced_moves [OF assms(4) _ pipe])
    then show ?thesis using assms(3) by blast
  next
    case (Some j)
    have "\<forall>k. events_lock s = Some k \<longleftrightarrow> k < n \<and> has_events (ts ! k)" using inv(1) n by (simp add: lock_owner_def)
    with Some have j: "j < n" "has_events (ts ! j)" by blast+
    show ?thesis
    proof (cases "\<exists>b. ts ! i = Modifying b (M_lock Lock_mutex)")
      case True
      then have "ctrl_pipe s \<noteq> 0" using pipe by auto
      from holder_moves [OF j(2) this] j show ?thesis by blast
    next
      case False
      then have "\<exists>t s'. thread_step i Quiet (ts ! i) s = Some (t, s')" by (intro announced_moves [OF assms(4) _ pipe]) auto
      then show ?thesis using assms(3) by blast
    qed
  qed
  ultimately show ?thesis by (simp add: libusb_event_handling_ok_def)
qed

section \<open>Runs\<close>

text \<open>A schedule: which thread begins what, and which one makes a step.\<close>

datatype turn = Handle nat | Modify bool nat | Go nat outside

fun play :: "turn list \<Rightarrow> thread list \<times> event_locks \<Rightarrow> (thread list \<times> event_locks) option" where
  "play [] x = Some x"
| "play (Handle i # ms) (ts, s) =
     (if i < length ts \<and> ts ! i = Idle then play ms (ts[i := Handling (H_try Try_modify)], s) else None)"
| "play (Modify closing i # ms) (ts, s) =
     (if i < length ts \<and> ts ! i = Idle then play ms (ts[i := Modifying closing M_announce], s) else None)"
| "play (Go i c # ms) (ts, s) =
     (if i < length ts then case thread_step i c (ts ! i) s of None \<Rightarrow> None | Some (t, s') \<Rightarrow> play ms (ts[i := t], s')
      else None)"

fun no_failure :: "turn \<Rightarrow> bool" where
  "no_failure (Go _ c) = (c \<noteq> Fails)"
| "no_failure _ = True"

lemma play_reachable:
  "play ms x = Some y \<Longrightarrow> may_fail \<or> list_all no_failure ms \<Longrightarrow> event_reachable may_fail n x \<Longrightarrow> event_reachable may_fail n y"
proof (induction ms x rule: play.induct)
  case (2 i ms ts s)
  then show ?case by (auto split: if_splits intro: event_reachable.step event_step.handle)
next
  case (3 closing i ms ts s)
  then show ?case by (auto split: if_splits intro: event_reachable.step event_step.modify)
next
  case (4 i c ms ts s)
  then obtain t s' where run: "i < length ts" "thread_step i c (ts ! i) s = Some (t, s')"
    "play ms (ts[i := t], s') = Some y" by (auto split: if_splits option.splits)
  moreover have "event_step may_fail (ts, s) (ts[i := t], s')"
    using run(1,2) "4.prems"(2) by (intro event_step.move) auto
  ultimately have "event_reachable may_fail n (ts[i := t], s')" using "4.prems"(3) by (auto intro: event_reachable.step)
  then show ?case using "4.IH" [OF run(1,2) refl run(3)] "4.prems"(2) by auto
qed simp

lemmas played = play_reachable [OF _ _ event_reachable.start]

text \<open>Two threads handle events: the first is in \<open>poll\<close>, the second waits for it.\<close>

definition one_waits :: "turn list" where
  "one_waits = [Handle 0, Go 0 Quiet, Go 0 Quiet, Go 0 Quiet, Handle 1, Go 1 Quiet, Go 1 Quiet, Go 1 Quiet, Go 1 Quiet,
     Go 1 Quiet, Go 1 Quiet]"

definition one_waiting :: "thread list \<times> event_locks" where
  "one_waiting = ([Handling H_events, Handling (H_wait Wait_asleep)],
     no_locks\<lparr>events_lock := Some 0, event_handler_active := 1, event_waiters_cond := [1]\<rparr>)"

lemma one_waits_run: "play one_waits (replicate 2 Idle, no_locks) = Some one_waiting"
  by (simp add: one_waits_def one_waiting_def no_locks_def numeral_2_eq_2 waiters_defs)

theorem events_exclusive_witness: "has_events (fst one_waiting ! 0) \<and> \<not> has_events (fst one_waiting ! 1)"
  using events_exclusive [OF played [OF one_waits_run, of False, unfolded one_waiting_def], of 0 1]
  by (auto simp: one_waits_def one_waiting_def)

theorem no_lost_wakeup_witness: "\<exists>j<2. will_wake (fst one_waiting ! j)"
  using no_lost_wakeup [OF played [OF one_waits_run, of False, unfolded one_waiting_def], of 1]
  by (auto simp: one_waits_def one_waiting_def)

text \<open>A third thread has announced that it closes a device, and its byte is in the control pipe.\<close>

definition closing_turns :: "turn list" where
  "closing_turns = [Handle 0, Go 0 Quiet, Go 0 Quiet, Go 0 Quiet, Modify True 1, Go 1 Quiet, Go 1 Quiet]"

definition closing_waits :: "thread list \<times> event_locks" where
  "closing_waits = ([Handling H_events, Modifying True (M_lock Lock_mutex)],
     no_locks\<lparr>pollfd_modify := 1, events_lock := Some 0, event_handler_active := 1, ctrl_pipe := 1\<rparr>)"

lemma closing_turns_run: "play closing_turns (replicate 2 Idle, no_locks) = Some closing_waits"
  by (simp add: closing_turns_def closing_waits_def no_locks_def numeral_2_eq_2)

theorem closing_goes_on_witness:
  "\<exists>j<2. (j = 1 \<or> has_events (fst closing_waits ! j))
     \<and> (\<exists>t s'. thread_step j Quiet (fst closing_waits ! j) (snd closing_waits) = Some (t, s'))"
  using closing_goes_on [OF played [OF closing_turns_run, of False, unfolded closing_waits_def], of 1]
  by (simp add: closing_turns_def closing_waits_def)

text \<open>When nothing can be written to the control pipe, \<open>libusb_open\<close> takes its announcement back and wakes
  nobody: a thread that found the set of files announced as changing sleeps on although no other
  thread is left.\<close>

lemma failed_write_loses_wakeup:
  "\<exists>s. event_reachable True 2 ([Handling (H_wait Wait_asleep), Idle], s) \<and> 0 \<in> set (event_waiters_cond s)"
proof -
  have "play [Modify False 1, Go 1 Quiet, Handle 0, Go 0 Quiet, Go 0 Quiet, Go 0 Quiet, Go 0 Quiet, Go 1 Fails, Go 1 Quiet]
      (replicate 2 Idle, no_locks) = Some ([Handling (H_wait Wait_asleep), Idle], no_locks\<lparr>event_waiters_cond := [0]\<rparr>)"
    by (simp add: no_locks_def numeral_2_eq_2 waiters_defs)
  from played [OF this, of True] show ?thesis by auto
qed

text \<open>\<open>libusb_close\<close> then closes the device all the same, while another thread polls its file.\<close>

lemma closes_anyway: "\<exists>s. event_reachable True 2 ([Handling H_events, Modifying True M_close_anyway], s)"
proof -
  have "play [Handle 0, Go 0 Quiet, Go 0 Quiet, Go 0 Quiet, Modify True 1, Go 1 Quiet, Go 1 Fails]
      (replicate 2 Idle, no_locks) = Some ([Handling H_events, Modifying True M_close_anyway],
        no_locks\<lparr>pollfd_modify := 1, events_lock := Some 0, event_handler_active := 1\<rparr>)"
    by (simp add: no_locks_def numeral_2_eq_2)
  from played [OF this, of True] show ?thesis by auto
qed

end
