(* ===== verification/Events.thy ===== *)
theory Events
  imports Isochronous Handles
begin

text \<open>
  Handling events by one thread: the set of files polled and the round of \<open>handle_events\<close> (\<open>io.c\<close>), and the
  functions of the Linux backend that a transfer's type selects, down to the requests the kernel gives
  back (\<open>os/linux_usbfs.c\<close>). What \<open>poll\<close>, the clock and the kernel answer are parameters. The open handles
  are a list of each handle with the file of its device. The notifiers an application may set are not
  called.
\<close>

section \<open>The files to poll\<close>

definition POLLERR :: int where "POLLERR = 8"

definition usbi_add_pollfd :: "bool \<Rightarrow> int \<Rightarrow> int \<Rightarrow> usb_context \<Rightarrow> fault + int \<times> usb_context" where
  "usbi_add_pollfd granted fd events ctx =
     (if \<not> granted then Inr (rc LIBUSB_ERROR_NO_MEM, ctx)
      else if pollfds_locked ctx then Inl Blocked
      else Inr (0, ctx\<lparr>pollfds := pollfds ctx @ [(fd, events)]\<rparr>))"

fun remove_fd :: "int \<Rightarrow> (int \<times> int) list \<Rightarrow> (int \<times> int) list" where
  "remove_fd fd [] = []"
| "remove_fd fd (p # ps) = (if fst p = fd then ps else p # remove_fd fd ps)"

definition usbi_remove_pollfd :: "int \<Rightarrow> usb_context \<Rightarrow> fault + usb_context" where
  "usbi_remove_pollfd fd ctx =
     (if pollfds_locked ctx then Inl Blocked else Inr (ctx\<lparr>pollfds := remove_fd fd (pollfds ctx)\<rparr>))"

definition libusb_get_pollfds :: "bool \<Rightarrow> usb_context \<Rightarrow> fault + (int \<times> int) list option" where
  "libusb_get_pollfds granted ctx =
     (if pollfds_locked ctx then Inl Blocked else Inr (if granted then Some (pollfds ctx) else None))"

section \<open>The backend by the type of the transfer\<close>

text \<open>The private data of every kind lies in the block of the transfer.\<close>

definition lift_fs :: "iso_fs \<Rightarrow> fault + int \<times> usbfs \<Rightarrow> fault + int \<times> iso_fs" where
  "lift_fs s m = bindF m (\<lambda>(r, f). Inr (r, s\<lparr>fs := f,
     iso_privs := (\<lambda>a. if itransfers (uctx f) a = None then None else iso_privs s a)\<rparr>))"

definition set_ctx :: "usb_context \<Rightarrow> iso_fs \<Rightarrow> iso_fs" where
  "set_ctx ctx s = s\<lparr>fs := (fs s)\<lparr>uctx := ctx,
       privs := (\<lambda>a. if itransfers ctx a = None then None else privs (fs s) a)\<rparr>,
     iso_privs := (\<lambda>a. if itransfers ctx a = None then None else iso_privs s a)\<rparr>"

definition op_submit_transfer ::
    "int \<Rightarrow> (nat \<Rightarrow> bool) \<Rightarrow> (nat \<Rightarrow> submit_answer) \<Rightarrow> addr \<Rightarrow> iso_fs \<Rightarrow> fault + int \<times> iso_fs" where
  "op_submit_transfer cont granted answer t s =
     bindF (deref (itransfers (uctx (fs s))) (Some t)) (\<lambda>(_, it).
       let ty = xtype (user it)
       in if ty = TRANSFER_TYPE_CONTROL then lift_fs s (submit_control_transfer (granted 0) (answer 0) t (fs s))
          else if ty = TRANSFER_TYPE_BULK
          then lift_fs s (submit_bulk_transfer cont (granted 0) answer t URB_TYPE_BULK (fs s))
          else if ty = TRANSFER_TYPE_INTERRUPT
          then lift_fs s (submit_bulk_transfer cont (granted 0) answer t URB_TYPE_INTERRUPT (fs s))
          else if ty = TRANSFER_TYPE_ISOCHRONOUS then submit_iso_transfer granted answer t s
          else Inr (rc LIBUSB_ERROR_INVALID_PARAM, s))"

definition op_cancel_transfer :: "int \<times> bool \<Rightarrow> addr \<Rightarrow> iso_fs \<Rightarrow> fault + int \<times> iso_fs" where
  "op_cancel_transfer discard t s =
     bindF (deref (itransfers (uctx (fs s))) (Some t)) (\<lambda>(_, it).
       let ty = xtype (user it)
       in if ty = TRANSFER_TYPE_CONTROL then lift_fs s (cancel_control_transfer discard t (fs s))
          else if ty = TRANSFER_TYPE_BULK \<or> ty = TRANSFER_TYPE_INTERRUPT
          then lift_fs s (cancel_bulk_transfer t (fs s))
          else if ty = TRANSFER_TYPE_ISOCHRONOUS then cancel_iso_transfer t s
          else Inr (rc LIBUSB_ERROR_INVALID_PARAM, s))"

definition op_clear_transfer_priv :: "addr \<Rightarrow> iso_fs \<Rightarrow> fault + iso_fs" where
  "op_clear_transfer_priv t s =
     bindF (deref (itransfers (uctx (fs s))) (Some t)) (\<lambda>(_, it).
       let ty = xtype (user it)
       in if ty = TRANSFER_TYPE_CONTROL \<or> ty = TRANSFER_TYPE_BULK \<or> ty = TRANSFER_TYPE_INTERRUPT
          then bindF (deref (privs (fs s)) (Some t)) (\<lambda>(_, p).
            Inr (s\<lparr>fs := Usbfs.set_priv t (p\<lparr>urbs := None\<rparr>) (fs s)\<rparr>))
          else if ty = TRANSFER_TYPE_ISOCHRONOUS
          then bindF (deref (iso_privs s) (Some t)) (\<lambda>(_, p). bindF (free_iso_urbs p) (\<lambda>p1. Inr (set_iso t p1 s)))
          else Inr s)"

section \<open>Requests given back\<close>

text \<open>What the kernel answers when it is asked for a finished request: none yet, an error, or the request,
  with its status and data and the results of its packets.\<close>

datatype reap_answer = Reap_again | Reap_error int | Reaped "addr \<times> nat \<times> nat" reaped "iso_result list"

text \<open>The request itself names its transfer, so its block must still be there.\<close>

definition reap_iso :: "addr \<times> nat \<times> nat \<Rightarrow> reaped \<Rightarrow> iso_result list \<Rightarrow> iso_fs \<Rightarrow> fault + int \<times> iso_fs" where
  "reap_iso key a rs s = (case key of (t, b, i) \<Rightarrow>
     bindF (deref (iso_privs s) (Some t)) (\<lambda>(_, p). case iso_urbs p of
         None \<Rightarrow> Inl UseAfterFree
       | Some (b', us) \<Rightarrow>
           if b' \<noteq> b then Inl UseAfterFree
           else handle_iso_completion key \<lparr>is_status = r_status a, is_packets = rs\<rparr> s))"

text \<open>The data of a control request lies behind its setup packet of 8 bytes.\<close>

definition reap_control :: "addr \<times> nat \<times> nat \<Rightarrow> reaped \<Rightarrow> usbfs \<Rightarrow> fault + int \<times> usbfs" where
  "reap_control key a s = (case key of (t, b, i) \<Rightarrow>
     bindF (deref (itransfers (uctx s)) (Some t)) (\<lambda>(_, it).
     bindF (reap_urb key (a\<lparr>r_data := take 8 (buffer (user it)) @ r_data a\<rparr>) s) (\<lambda>(it1, us, p, s1).
       handle_control_completion t (us ! i) p s1)))"

definition reap_for_handle :: "reap_answer \<Rightarrow> iso_fs \<Rightarrow> fault + int \<times> iso_fs" where
  "reap_for_handle ans s = (case ans of
       Reap_again \<Rightarrow> Inr (1, s)
     | Reap_error e \<Rightarrow> Inr (if e = ENODEV then rc LIBUSB_ERROR_NO_DEVICE else rc LIBUSB_ERROR_IO, s)
     | Reaped key a rs \<Rightarrow>
         bindF (deref (itransfers (uctx (fs s))) (Some (fst key))) (\<lambda>(_, it).
           let ty = xtype (user it)
           in if ty = TRANSFER_TYPE_ISOCHRONOUS then reap_iso key a rs s
              else if ty = TRANSFER_TYPE_BULK \<or> ty = TRANSFER_TYPE_INTERRUPT then lift_fs s (reap_bulk key a (fs s))
              else if ty = TRANSFER_TYPE_CONTROL then lift_fs s (reap_control key a (fs s))
              else Inr (rc LIBUSB_ERROR_OTHER, s)))"

section \<open>Disconnection\<close>

lemma clear_keeps_ctx: "op_clear_transfer_priv t s = Inr s1 \<Longrightarrow> uctx (fs s1) = uctx (fs s)"
  by (auto simp: op_clear_transfer_priv_def Let_def set_iso_def Usbfs.set_priv_def elim!: bindF_InrE split: if_splits)

text \<open>Disconnection: the private data of a transfer is cleared before
  the transfer is completed.\<close>

function usbi_handle_disconnect :: "addr \<Rightarrow> iso_fs \<Rightarrow> fault + iso_fs" where
  "usbi_handle_disconnect h s =
     (let ctx = uctx (fs s)
      in if list_ex (\<lambda>t. itransfers ctx t = None) (takeWhile (\<lambda>t. \<not> flying_of h ctx t) (flying ctx))
         then Inl UseAfterFree
         else case find (flying_of h ctx) (flying ctx) of
             None \<Rightarrow> Inr s
           | Some t \<Rightarrow> bindF (op_clear_transfer_priv t s) (\<lambda>s1.
               bindF (usbi_handle_transfer_completion t TRANSFER_NO_DEVICE (uctx (fs s1))) (\<lambda>(r, ctx').
                 usbi_handle_disconnect h (set_ctx ctx' s1))))"
  by pat_completeness auto
termination
proof (relation "measure (\<lambda>(h, s). length (flying (uctx (fs s))))", goal_cases)
  case (2 h s ctx t s1 res r ctx')
  then have "t \<in> set (flying (uctx (fs s)))" by (auto simp: find_Some_iff)
  moreover have "flying ctx' = remove1 t (flying (uctx (fs s)))"
    using 2 completion_flying [of t TRANSFER_NO_DEVICE "uctx (fs s1)" r ctx'] clear_keeps_ctx [of t s s1] by simp
  moreover have "0 < length (flying (uctx (fs s)))" using calculation(1) by (rule length_pos_if_in_set)
  ultimately show ?case by (simp add: length_remove1 set_ctx_def)
qed simp

declare usbi_handle_disconnect.simps [simp del]

section \<open>A round of events\<close>

text \<open>The files with their events, those left to be served, the open handles and what the kernel gives back
  for each. When no handle has the file, the loop over the handles ends on the head of the list, which
  is no handle.\<close>

fun op_handle_events ::
    "(addr \<times> int) list \<Rightarrow> (addr \<Rightarrow> iso_fs \<Rightarrow> reap_answer) \<Rightarrow> (int \<times> int) list \<Rightarrow> int \<Rightarrow> iso_fs \<Rightarrow> fault + int \<times> iso_fs" where
  "op_handle_events devs gives [] num_ready s = Inr (0, s)"
| "op_handle_events devs gives ((fd, revents) # fds) num_ready s =
     (if num_ready \<le> 0 then Inr (0, s)
      else if revents = 0 then op_handle_events devs gives fds num_ready s
      else case find (\<lambda>d. snd d = fd) devs of
          None \<Rightarrow> Inl OutOfBounds
        | Some (h, _) \<Rightarrow>
            if revents AND POLLERR \<noteq> 0
            then bindF (usbi_remove_pollfd fd (uctx (fs s))) (\<lambda>ctx.
                 bindF (usbi_handle_disconnect h (set_ctx ctx s)) (op_handle_events devs gives fds (num_ready - 1)))
            else bindF (reap_for_handle (gives h s) s) (\<lambda>(r, s1).
                 if r = 1 \<or> r = rc LIBUSB_ERROR_NO_DEVICE then op_handle_events devs gives fds (num_ready - 1) s1
                 else if r < 0 then Inr (r, s1)
                 else op_handle_events devs gives fds (num_ready - 1) s1))"

text \<open>The time given to \<open>poll\<close>, in an \<open>int\<close>, rounded up to the next millisecond.\<close>

definition timeout_ms :: "timeval \<Rightarrow> int" where
  "timeout_ms tv = signed_take_bit 31 (tv_sec tv * 1000 + tv_usec tv div 1000)
     + (if tv_usec tv mod 1000 \<noteq> 0 then 1 else 0)"

text \<open>What \<open>poll\<close> answers: its result, whether \<open>errno\<close> is \<open>EINTR\<close>, and the events of each file.\<close>

record poll_answer =
  p_result :: int
  p_eintr :: bool
  p_revents :: "int list"

definition ctx_result :: "iso_fs \<Rightarrow> fault + int \<times> usb_context \<Rightarrow> fault + int \<times> iso_fs" where
  "ctx_result s m = bindF m (\<lambda>(r, ctx). Inr (r, set_ctx ctx s))"

text \<open>What follows when the control pipe has been looked at: the timer, if there is one, and the devices.\<close>

definition serve_events ::
    "int \<Rightarrow> int \<times> timespec \<Rightarrow> (addr \<times> int) list \<Rightarrow> (addr \<Rightarrow> iso_fs \<Rightarrow> reap_answer) \<Rightarrow> (int \<times> int) list
     \<Rightarrow> int \<Rightarrow> iso_fs \<Rightarrow> fault + int \<times> iso_fs" where
  "serve_events cancel_rc clock devs gives fds r s =
     (let ctx = uctx (fs s)
      in if timerfd_built ctx \<and> using_timerfd ctx
         then if length fds \<le> 1 then Inl OutOfBounds
              else if snd (fds ! 1) \<noteq> 0
              then bindF (handle_timerfd_trigger cancel_rc clock ctx) (\<lambda>(ret, ctx').
                   if ret < 0 then Inr (ret, set_ctx ctx' s)
                   else if r = 1 then Inr (0, set_ctx ctx' s)
                   else op_handle_events devs gives (fds[1 := (fst (fds ! 1), 0)]) (r - 1) (set_ctx ctx' s))
              else op_handle_events devs gives fds r s
         else op_handle_events devs gives fds r s)"

definition handle_events ::
    "bool \<Rightarrow> ((int \<times> int) list \<Rightarrow> int \<Rightarrow> poll_answer) \<Rightarrow> int \<Rightarrow> int \<times> timespec \<Rightarrow> (addr \<times> int) list
     \<Rightarrow> (addr \<Rightarrow> iso_fs \<Rightarrow> reap_answer) \<Rightarrow> timeval \<Rightarrow> iso_fs \<Rightarrow> fault + int \<times> iso_fs" where
  "handle_events granted poll cancel_rc clock devs gives tv s =
     (let ctx = uctx (fs s)
      in if pollfds_locked ctx then Inl Blocked
         else if \<not> granted then Inr (rc LIBUSB_ERROR_NO_MEM, set_ctx (ctx\<lparr>pollfds_locked := True\<rparr>) s)
         else
           let a = poll (pollfds ctx) (timeout_ms tv);
               r = p_result a;
               fds = zip (map fst (pollfds ctx)) (p_revents a)
           in if r = 0 then ctx_result s (handle_timeouts cancel_rc clock ctx)
              else if r = -1 \<and> p_eintr a then Inr (rc LIBUSB_ERROR_INTERRUPTED, s)
              else if r < 0 then Inr (rc LIBUSB_ERROR_IO, s)
              else case fds of
                  [] \<Rightarrow> Inl OutOfBounds
                | (fd, revents) # rest \<Rightarrow>
                    if revents \<noteq> 0
                    then if r = 1 then Inr (0, s)
                         else serve_events cancel_rc clock devs gives ((fd, 0) # rest) (r - 1) s
                    else serve_events cancel_rc clock devs gives fds r s)"

definition libusb_handle_events_locked ::
    "bool \<Rightarrow> ((int \<times> int) list \<Rightarrow> int \<Rightarrow> poll_answer) \<Rightarrow> int \<Rightarrow> int \<times> timespec \<Rightarrow> timeval \<Rightarrow> (addr \<times> int) list
     \<Rightarrow> (addr \<Rightarrow> iso_fs \<Rightarrow> reap_answer) \<Rightarrow> timeval \<Rightarrow> iso_fs \<Rightarrow> fault + int \<times> iso_fs" where
  "libusb_handle_events_locked granted poll cancel_rc clock stack devs gives tv s =
     bindF (get_next_timeout clock stack tv (uctx (fs s))) (\<lambda>(r, poll_timeout).
       if r \<noteq> 0 then ctx_result s (handle_timeouts cancel_rc clock (uctx (fs s)))
       else handle_events granted poll cancel_rc clock devs gives poll_timeout s)"


section \<open>A disconnection as the backend sees it\<close>

text \<open>The private data of a transfer can be cleared if it is there; that of an isochronous transfer also
  needs the array of its requests.\<close>

definition clearable :: "addr \<Rightarrow> iso_fs \<Rightarrow> bool" where
  "clearable t s \<longleftrightarrow> (case itransfers (uctx (fs s)) t of None \<Rightarrow> False | Some it \<Rightarrow>
     if xtype (user it) = TRANSFER_TYPE_ISOCHRONOUS
     then case iso_privs s t of None \<Rightarrow> False | Some p \<Rightarrow> iso_urbs p \<noteq> None \<or> iso_num_urbs p \<le> 0
     else privs (fs s) t \<noteq> None)"

text \<open>No requests are left of a transfer.\<close>

definition cleared :: "addr \<Rightarrow> iso_fs \<Rightarrow> bool" where
  "cleared t s \<longleftrightarrow> (case itransfers (uctx (fs s)) t of None \<Rightarrow> True | Some it \<Rightarrow>
     if xtype (user it) = TRANSFER_TYPE_ISOCHRONOUS
     then case iso_privs s t of None \<Rightarrow> True | Some p \<Rightarrow> iso_urbs p = None
     else case privs (fs s) t of None \<Rightarrow> True | Some p \<Rightarrow> urbs p = None)"

definition known_type :: "u8 \<Rightarrow> bool" where
  "known_type ty \<longleftrightarrow> ty \<in> {TRANSFER_TYPE_CONTROL, TRANSFER_TYPE_ISOCHRONOUS, TRANSFER_TYPE_BULK, TRANSFER_TYPE_INTERRUPT}"

lemmas type_defs = TRANSFER_TYPE_CONTROL_def TRANSFER_TYPE_ISOCHRONOUS_def TRANSFER_TYPE_BULK_def
  TRANSFER_TYPE_INTERRUPT_def

lemma clear_run:
  assumes "itransfers (uctx (fs s)) t = Some it" "known_type (xtype (user it))" "clearable t s"
  shows "\<exists>s1. op_clear_transfer_priv t s = Inr s1 \<and> uctx (fs s1) = uctx (fs s) \<and> cleared t s1
    \<and> (\<forall>x. x \<noteq> t \<longrightarrow> privs (fs s1) x = privs (fs s) x \<and> iso_privs s1 x = iso_privs s x)"
proof (cases "xtype (user it) = TRANSFER_TYPE_ISOCHRONOUS")
  case True
  then obtain p where "iso_privs s t = Some p" "iso_urbs p \<noteq> None \<or> iso_num_urbs p \<le> 0"
    using assms(1,3) by (auto simp: clearable_def split: option.splits)
  then show ?thesis using True assms(1)
    by (auto simp: op_clear_transfer_priv_def type_defs free_iso_urbs_def set_iso_def cleared_def)
next
  case False
  then obtain p where "privs (fs s) t = Some p" using assms(1,3) by (auto simp: clearable_def)
  then show ?thesis using False assms(1,2)
    by (auto simp: op_clear_transfer_priv_def known_type_def type_defs Usbfs.set_priv_def cleared_def)
qed

text \<open>Completing a transfer changes neither the type nor the private data of another one.\<close>

lemma completion_types:
  assumes "usbi_handle_transfer_completion t st ctx = Inr (r, ctx')" "itransfers ctx' x = Some it'"
  shows "\<exists>it. itransfers ctx x = Some it \<and> xtype (user it') = xtype (user it) \<and> (x \<noteq> t \<longrightarrow> it' = it)"
proof -
  from assms(1) obtain it a where "itransfers ctx t = Some it"
    "ctx' = ctx\<lparr>flying := remove1 t (flying ctx), armed := a\<rparr>
       \<or> r = 0 \<and> ctx' = complete_user t it st (ctx\<lparr>flying := remove1 t (flying ctx), armed := a\<rparr>)"
    by (rule completion_effect)
  then show ?thesis using assms(2) by (auto simp: complete_user_def Let_def split: if_splits)
qed

lemma cleared_set_ctx:
  assumes "usbi_handle_transfer_completion t st (uctx (fs s)) = Inr (r, ctx')" "cleared x s"
  shows "cleared x (set_ctx ctx' s)"
  using completion_types [OF assms(1), of x] assms(2)
  by (cases "itransfers ctx' x") (force simp: cleared_def set_ctx_def)+


definition handle_clearable :: "addr \<Rightarrow> iso_fs \<Rightarrow> bool" where
  "handle_clearable h s \<longleftrightarrow> (\<forall>t\<in>set (flying (uctx (fs s))). flying_of h (uctx (fs s)) t \<longrightarrow>
     clearable t s \<and> known_type (xtype (user (the (itransfers (uctx (fs s)) t)))))"

lemma set_ctx_simps [simp]:
  "uctx (fs (set_ctx ctx s)) = ctx" "packet_results (set_ctx ctx s) = packet_results s"
  "itransfers ctx x \<noteq> None \<Longrightarrow> privs (fs (set_ctx ctx s)) x = privs (fs s) x"
  "itransfers ctx x \<noteq> None \<Longrightarrow> iso_privs (set_ctx ctx s) x = iso_privs s x"
  by (auto simp: set_ctx_def)

lemma cleared_other:
  "cleared x s \<Longrightarrow> uctx (fs s1) = uctx (fs s) \<Longrightarrow> privs (fs s1) x = privs (fs s) x \<Longrightarrow> iso_privs s1 x = iso_privs s x
    \<Longrightarrow> cleared x s1"
  by (simp add: cleared_def split: option.splits if_splits)

lemma disconnect_both:
  assumes "ordered (uctx (fs s))" "handle_clearable h s"
  shows "\<exists>s'. usbi_handle_disconnect h s = Inr s' \<and> disconnect_loop h (uctx (fs s)) = Inr (uctx (fs s'))
    \<and> (\<forall>t. cleared t s \<or> t \<in> set (flying (uctx (fs s))) \<and> flying_of h (uctx (fs s)) t \<longrightarrow> cleared t s')"
  using assms
proof (induction "length (flying (uctx (fs s)))" arbitrary: s rule: less_induct)
  case less
  let ?ctx = "uctx (fs s)"
  have ok: "\<not> list_ex (\<lambda>t. itransfers ?ctx t = None) (takeWhile (\<lambda>t. \<not> flying_of h ?ctx t) (flying ?ctx))"
    using less.prems(1) by (auto simp: ordered_def list_ex_iff dest: set_takeWhileD)
  show ?case
  proof (cases "find (flying_of h ?ctx) (flying ?ctx)")
    case None
    then have "usbi_handle_disconnect h s = Inr s" "disconnect_loop h ?ctx = Inr ?ctx"
      using ok by (simp_all add: usbi_handle_disconnect.simps [of h s] disconnect_loop.simps [of h ?ctx])
    moreover have "\<forall>t\<in>set (flying ?ctx). \<not> flying_of h ?ctx t" using None by (simp add: find_None_iff)
    ultimately show ?thesis by auto
  next
    case (Some t)
    from find_SomeD [OF this] have t: "t \<in> set (flying ?ctx)" "flying_of h ?ctx t" by auto
    then obtain it where it: "itransfers ?ctx t = Some it" by (auto simp: flying_of_def split: option.splits)
    from less.prems(2) t it have "clearable t s" "known_type (xtype (user it))"
      by (auto simp: handle_clearable_def)
    from clear_run [OF it this(2,1)] obtain s1 where s1: "op_clear_transfer_priv t s = Inr s1"
      "uctx (fs s1) = ?ctx" "cleared t s1"
      "\<And>x. x \<noteq> t \<Longrightarrow> privs (fs s1) x = privs (fs s) x \<and> iso_privs s1 x = iso_privs s x" by auto
    from completion_ordered [OF less.prems(1) it t(1), of TRANSFER_NO_DEVICE] obtain r ctx1 where
      c: "usbi_handle_transfer_completion t TRANSFER_NO_DEVICE ?ctx = Inr (r, ctx1)" "ordered ctx1"
      "flying ctx1 = remove1 t (flying ?ctx)" "\<And>x. x \<noteq> t \<Longrightarrow> itransfers ctx1 x = itransfers ?ctx x" by auto
    let ?s2 = "set_ctx ctx1 s1"
    have step: "usbi_handle_disconnect h s = usbi_handle_disconnect h ?s2" "disconnect_loop h ?ctx = disconnect_loop h ctx1"
      using Some ok s1(1,2) c(1) by (simp_all add: usbi_handle_disconnect.simps [of h s] disconnect_loop.simps [of h ?ctx])
    have gone: "t \<notin> set (flying ctx1)" using c(3) less.prems(1) by (simp add: ordered_def)
    have other: "x \<noteq> t" "x \<in> set (flying ?ctx)" if "x \<in> set (flying ctx1)" for x
      using that gone c(3) set_remove1_subset [of t "flying ?ctx"] by auto
    have ready: "handle_clearable h ?s2"
      unfolding handle_clearable_def
    proof (intro ballI impI)
      fix x assume x: "x \<in> set (flying (uctx (fs ?s2)))" "flying_of h (uctx (fs ?s2)) x"
      then have "x \<noteq> t" "x \<in> set (flying ?ctx)" using other by auto
      moreover have "flying_of h ?ctx x" "itransfers ctx1 x \<noteq> None"
        using x(2) c(4) [OF \<open>x \<noteq> t\<close>] by (auto simp: flying_of_def split: option.splits)
      ultimately show "clearable x ?s2 \<and> known_type (xtype (user (the (itransfers (uctx (fs ?s2)) x))))"
        using less.prems(2) c(4) [of x] s1(4) [of x] by (auto simp: handle_clearable_def clearable_def)
    qed
    have shorter: "length (flying (uctx (fs ?s2))) < length (flying ?ctx)"
      using c(3) t(1) length_pos_if_in_set [OF t(1)] by (simp add: length_remove1)
    from less.hyps [OF shorter] c(2) ready obtain s' where IH: "usbi_handle_disconnect h ?s2 = Inr s'"
      "disconnect_loop h ctx1 = Inr (uctx (fs s'))"
      "\<And>x. cleared x ?s2 \<or> x \<in> set (flying ctx1) \<and> flying_of h ctx1 x \<Longrightarrow> cleared x s'" by auto
    have "cleared x s'" if x: "cleared x s \<or> x \<in> set (flying ?ctx) \<and> flying_of h ?ctx x" for x
    proof (cases "x = t \<or> cleared x s")
      case True
      then have "cleared x s1" using s1(2,3) s1(4) [of x] cleared_other [of x s s1] by (cases "x = t") simp_all
      then show ?thesis using cleared_set_ctx [of t TRANSFER_NO_DEVICE s1 r ctx1 x] c(1) s1(2) IH(3) by simp
    next
      case False
      then have "x \<in> set (flying ctx1)" "flying_of h ctx1 x"
        using x c(3) c(4) [of x] by (auto simp: flying_of_def)
      then show ?thesis using IH(3) by blast
    qed
    then show ?thesis using IH(1,2) step by auto
  qed
qed

section \<open>A round with one ready file\<close>

lemma remove_fd_map: "distinct (map fst ps) \<Longrightarrow> remove_fd fd ps = filter (\<lambda>p. fst p \<noteq> fd) ps"
proof (induction ps)
  case (Cons p ps)
  then have "fst p \<notin> fst ` set ps" by simp
  then have "filter (\<lambda>q. fst q \<noteq> fst p) ps = ps" by (intro filter_True ballI) (metis image_eqI)
  then show ?case using Cons by auto
qed simp

text \<open>The events \<open>poll\<close> reports when nothing but the file \<open>fd\<close> is ready.\<close>

definition only :: "int \<Rightarrow> int \<Rightarrow> (int \<times> int) list \<Rightarrow> int list" where
  "only fd ev ps = map (\<lambda>p. if fst p = fd then ev else 0) ps"

lemma only_length [simp]: "length (only fd ev ps) = length ps"
  by (simp add: only_def)

lemma serve_none: "op_handle_events devs gives fds 0 = (\<lambda>s. Inr (0, s))"
  by (rule ext, cases fds) auto

lemma serve_first: "op_handle_events devs gives ((fd, ev) # fds) 1 s = op_handle_events devs gives [(fd, ev)] 1 s"
  if "ev \<noteq> 0"
  using that unfolding op_handle_events.simps(2) diff_self serve_none by simp

declare op_handle_events.simps(2) [simp del]

lemma serve_only:
  assumes "fd \<in> fst ` set ps" "ev \<noteq> 0"
  shows "op_handle_events devs gives (zip (map fst ps) (only fd ev ps)) 1 s = op_handle_events devs gives [(fd, ev)] 1 s"
  using assms
proof (induction ps)
  case (Cons p ps)
  show ?case
  proof (cases "fst p = fd")
    case True
    then show ?thesis using serve_first [OF assms(2)] by (simp add: only_def)
  next
    case False
    then show ?thesis using Cons
      by (auto simp: only_def op_handle_events.simps(2) [of devs gives "fst p" 0])
  qed
qed simp

text \<open>The files of the context: the control pipe, the timer if there is one, and then those of the open
  devices, no two of them the same.\<close>

definition polled :: "usb_context \<Rightarrow> int \<Rightarrow> bool" where
  "polled ctx fd \<longleftrightarrow> \<not> pollfds_locked ctx \<and> distinct (map fst (pollfds ctx)) \<and> fd \<in> fst ` set (pollfds ctx)
     \<and> fst (hd (pollfds ctx)) \<noteq> fd
     \<and> (timerfd_built ctx \<and> using_timerfd ctx \<longrightarrow> length (pollfds ctx) > 1 \<and> fst (pollfds ctx ! 1) \<noteq> fd)"

lemma one_ready:
  assumes "polled (uctx (fs s)) fd" "ev \<noteq> 0"
    and "poll (pollfds (uctx (fs s))) (timeout_ms tv) = \<lparr>p_result = 1, p_eintr = e, p_revents = only fd ev (pollfds (uctx (fs s)))\<rparr>"
  shows "handle_events True poll cancel_rc clock devs gives tv s = op_handle_events devs gives [(fd, ev)] 1 s"
proof -
  let ?ctx = "uctx (fs s)"
  obtain p ps where ps: "pollfds ?ctx = p # ps" using assms(1) by (cases "pollfds ?ctx") (auto simp: polled_def)
  then have p: "fst p \<noteq> fd" using assms(1) by (simp add: polled_def)
  have "op_handle_events devs gives (zip (map fst (pollfds ?ctx)) (only fd ev (pollfds ?ctx))) 1 s
      = op_handle_events devs gives [(fd, ev)] 1 s"
    using assms(1,2) by (intro serve_only) (simp_all add: polled_def)
  moreover have "snd (zip (map fst (pollfds ?ctx)) (only fd ev (pollfds ?ctx)) ! 1) = 0"
    "length (zip (map fst (pollfds ?ctx)) (only fd ev (pollfds ?ctx))) > 1" if "timerfd_built ?ctx \<and> using_timerfd ?ctx"
    using that assms(1) by (simp_all add: polled_def only_def)
  ultimately have "serve_events cancel_rc clock devs gives (zip (map fst (pollfds ?ctx)) (only fd ev (pollfds ?ctx))) 1 s
      = op_handle_events devs gives [(fd, ev)] 1 s" by (auto simp: serve_events_def Let_def)
  moreover have "zip (map fst (pollfds ?ctx)) (only fd ev (pollfds ?ctx)) = (fst p, 0) # zip (map fst ps) (only fd ev ps)"
    using ps p by (simp add: only_def)
  ultimately show ?thesis using assms(1,3) by (simp add: handle_events_def Let_def polled_def)
qed

section \<open>Properties\<close>

text \<open>C40: the time given to \<open>poll\<close> is not too short and less than a millisecond too long, for a valid time
  of less than 2147483 seconds.\<close>

theorem poll_waits_long_enough:
  assumes "0 \<le> tv_sec tv" and "tv_sec tv < 2147483" and "0 \<le> tv_usec tv" and "tv_usec tv < 1000000"
  shows "tv_sec tv * 1000000 + tv_usec tv \<le> timeout_ms tv * 1000
    \<and> timeout_ms tv * 1000 < tv_sec tv * 1000000 + tv_usec tv + 1000"
proof -
  define q r where "q = tv_usec tv div 1000" and "r = tv_usec tv mod 1000"
  have usec: "tv_usec tv = q * 1000 + r" "0 \<le> r" "r < 1000" by (simp_all add: q_def r_def)
  have "signed_take_bit 31 (tv_sec tv * 1000 + q) = tv_sec tv * 1000 + q"
    using assms usec by (intro signed_take_bit_int_eq_self) simp_all
  then have "timeout_ms tv = tv_sec tv * 1000 + q + (if r \<noteq> 0 then 1 else 0)"
    by (simp add: timeout_ms_def q_def r_def)
  then show ?thesis using usec by (cases "r = 0") simp_all
qed

theorem poll_waits_long_enough_witness:
  "timeout_ms \<lparr>tv_sec = 60, tv_usec = 1\<rparr> * 1000 < 60001001 \<and> 60000001 \<le> timeout_ms \<lparr>tv_sec = 60, tv_usec = 1\<rparr> * 1000"
  using poll_waits_long_enough [of "\<lparr>tv_sec = 60, tv_usec = 1\<rparr>"] by simp

text \<open>A longer time overflows the \<open>int\<close>: \<open>poll\<close> is given a negative one and waits without end.\<close>

lemma long_timeout_overflows: "timeout_ms \<lparr>tv_sec = 2147484, tv_usec = 0\<rparr> < 0"
  by (simp add: timeout_ms_def)

lemma disconnect_loop_pollfds: "disconnect_loop h ctx = Inr ctx' \<Longrightarrow> pollfds ctx' = pollfds ctx"
proof (induction "length (flying ctx)" arbitrary: ctx rule: less_induct)
  case less
  show ?case
  proof (cases "find (flying_of h ctx) (flying ctx)")
    case None
    then show ?thesis using less.prems by (simp add: disconnect_loop.simps [of h ctx] split: if_splits)
  next
    case (Some t)
    then obtain r ctx1 where c: "usbi_handle_transfer_completion t TRANSFER_NO_DEVICE ctx = Inr (r, ctx1)"
      "disconnect_loop h ctx1 = Inr ctx'"
      using less.prems by (auto simp: disconnect_loop.simps [of h ctx] elim!: bindF_InrE split: if_splits)
    have "t \<in> set (flying ctx)" using find_SomeD [OF Some] by auto
    then have "length (flying ctx1) < length (flying ctx)"
      using completion_flying [OF c(1)] length_pos_if_in_set [of t "flying ctx"] by (simp add: length_remove1)
    moreover have "pollfds ctx1 = pollfds ctx"
      using c(1) by (rule completion_effect) (auto simp: complete_user_def Let_def)
    ultimately show ?thesis using less.hyps c(2) by simp
  qed
qed

text \<open>A device that goes away completes all its transfers. As long as the private data of its transfers is
  there, no transfer of the handle is in flight after \<open>usbi_handle_disconnect\<close> or has requests, the
  others are in flight, in their order; each one removed has been reported once as \<open>TRANSFER_NO_DEVICE\<close>
  with the number of bytes that arrived, in the order of the list, unless timer descriptors are compiled
  in and the one of this context cannot be set: then the transfers vanish and nobody is told.\<close>

lemma disconnect_completes_all:
  assumes "ordered (uctx (fs s))" and "handle_clearable h s"
  shows "\<exists>s'. usbi_handle_disconnect h s = Inr s' \<and> ordered (uctx (fs s')) \<and> pollfds (uctx (fs s')) = pollfds (uctx (fs s))
    \<and> flying (uctx (fs s')) = filter (\<lambda>t. \<not> flying_of h (uctx (fs s)) t) (flying (uctx (fs s)))
    \<and> callbacks (uctx (fs s')) = callbacks (uctx (fs s)) @ (if timer_broken (uctx (fs s)) then []
        else map (\<lambda>t. (t, TRANSFER_NO_DEVICE, i_transferred (the (itransfers (uctx (fs s)) t))))
          (filter (flying_of h (uctx (fs s))) (flying (uctx (fs s)))))
    \<and> (\<forall>t\<in>set (flying (uctx (fs s))). flying_of h (uctx (fs s)) t \<longrightarrow> cleared t s')"
proof -
  from disconnect_both [OF assms] obtain s' where s': "usbi_handle_disconnect h s = Inr s'"
    "disconnect_loop h (uctx (fs s)) = Inr (uctx (fs s'))"
    "\<forall>t. cleared t s \<or> t \<in> set (flying (uctx (fs s))) \<and> flying_of h (uctx (fs s)) t \<longrightarrow> cleared t s'" by blast
  then show ?thesis using disconnect_loop_run [OF assms(1), of h] disconnect_loop_pollfds [OF s'(2)] by auto
qed

lemma only_pollfds:
  fixes ps
  assumes "ordered (uctx (fs s))" "handle_clearable h s"
  defines "s1 \<equiv> set_ctx ((uctx (fs s))\<lparr>pollfds := ps\<rparr>) s"
  shows "ordered (uctx (fs s1)) \<and> handle_clearable h s1 \<and> (flying_of h (uctx (fs s1)) = flying_of h (uctx (fs s)))"
proof -
  have "flying_of h (uctx (fs s1)) = flying_of h (uctx (fs s))" by (auto simp: s1_def flying_of_def)
  then show ?thesis using assms(1,2)
    by (auto simp: s1_def ordered_def handle_clearable_def clearable_def split: option.splits if_splits)
qed

text \<open>C6: a device that is gone. When \<open>poll\<close> reports \<open>POLLERR\<close>, and nothing else, on the file of a device, the round returns 0,
  the file is no longer polled, the transfers of the device are not in flight any more and have no
  requests, each has been reported as \<open>TRANSFER_NO_DEVICE\<close> in its order, unless the timer cannot be
  set, and those of other devices stay in flight.\<close>

theorem device_gone:
  assumes "ordered (uctx (fs s))" and "handle_clearable h s" and "polled (uctx (fs s)) fd"
    and "find (\<lambda>d. snd d = fd) devs = Some (h, fd)"
    and "poll (pollfds (uctx (fs s))) (timeout_ms tv)
      = \<lparr>p_result = 1, p_eintr = e, p_revents = only fd POLLERR (pollfds (uctx (fs s)))\<rparr>"
  shows "\<exists>s'. handle_events True poll cancel_rc clock devs gives tv s = Inr (0, s')
    \<and> pollfds (uctx (fs s')) = filter (\<lambda>p. fst p \<noteq> fd) (pollfds (uctx (fs s)))
    \<and> flying (uctx (fs s')) = filter (\<lambda>t. \<not> flying_of h (uctx (fs s)) t) (flying (uctx (fs s)))
    \<and> callbacks (uctx (fs s')) = callbacks (uctx (fs s)) @ (if timer_broken (uctx (fs s)) then []
        else map (\<lambda>t. (t, TRANSFER_NO_DEVICE, i_transferred (the (itransfers (uctx (fs s)) t))))
          (filter (flying_of h (uctx (fs s))) (flying (uctx (fs s)))))
    \<and> (\<forall>t\<in>set (flying (uctx (fs s))). flying_of h (uctx (fs s)) t \<longrightarrow> cleared t s')"
proof -
  let ?ctx = "uctx (fs s)"
  let ?s1 = "set_ctx (?ctx\<lparr>pollfds := remove_fd fd (pollfds ?ctx)\<rparr>) s"
  note s1 = only_pollfds [OF assms(1,2), of "remove_fd fd (pollfds ?ctx)"]
  have same: "timer_broken (uctx (fs ?s1)) = timer_broken ?ctx" "flying (uctx (fs ?s1)) = flying ?ctx"
    "callbacks (uctx (fs ?s1)) = callbacks ?ctx" "itransfers (uctx (fs ?s1)) = itransfers ?ctx"
    "pollfds (uctx (fs ?s1)) = remove_fd fd (pollfds ?ctx)" "flying_of h (uctx (fs ?s1)) = flying_of h ?ctx"
    using s1 by (simp_all add: timer_broken_def settime_ok_def)
  note all = disconnect_completes_all [OF conjunct1 [OF s1] conjunct1 [OF conjunct2 [OF s1]], unfolded same]
  from all obtain s' where s': "usbi_handle_disconnect h ?s1 = Inr s'"
    "pollfds (uctx (fs s')) = remove_fd fd (pollfds ?ctx)"
    "flying (uctx (fs s')) = filter (\<lambda>t. \<not> flying_of h ?ctx t) (flying ?ctx)"
    "callbacks (uctx (fs s')) = callbacks ?ctx @ (if timer_broken ?ctx then []
        else map (\<lambda>t. (t, TRANSFER_NO_DEVICE, i_transferred (the (itransfers ?ctx t)))) (filter (flying_of h ?ctx) (flying ?ctx)))"
    "\<forall>t\<in>set (flying ?ctx). flying_of h ?ctx t \<longrightarrow> cleared t s'"
    by blast
  have "handle_events True poll cancel_rc clock devs gives tv s = op_handle_events devs gives [(fd, POLLERR)] 1 s"
    by (rule one_ready [where poll = poll and ev = POLLERR and tv = tv and e = e, OF assms(3) _ assms(5)]) (simp add: POLLERR_def)
  also have "\<dots> = Inr (0, s')"
    using assms(3,4) s'(1) by (simp add: op_handle_events.simps(2) POLLERR_def usbi_remove_pollfd_def polled_def)
  finally have "handle_events True poll cancel_rc clock devs gives tv s = Inr (0, s')" .
  moreover have "pollfds (uctx (fs s')) = filter (\<lambda>p. fst p \<noteq> fd) (pollfds ?ctx)"
    using s'(2) assms(3) by (simp add: remove_fd_map polled_def)
  ultimately show ?thesis using s'(3-5) by blast
qed


lemma completion_told:
  assumes "itransfers ctx t = Some it" "set (flying ctx) \<subseteq> dom (itransfers ctx)" "\<not> timer_broken ctx"
  shows "\<exists>a. usbi_handle_transfer_completion t st ctx
    = Inr (0, complete_user t it st (ctx\<lparr>flying := remove1 t (flying ctx), armed := a\<rparr>))"
proof -
  from completion_run [OF assms(1,2), of st] assms(3) obtain r a where
    run: "usbi_handle_transfer_completion t st ctx
      = Inr (r, complete_user t it st (ctx\<lparr>flying := remove1 t (flying ctx), armed := a\<rparr>))" by auto
  have "r = 0"
    using run by (rule completion_effect) (auto simp: complete_user_def Let_def dest: arg_cong [where f = callbacks])
  then show ?thesis using run by auto
qed

text \<open>A control request given back with success: its data is behind the setup packet.\<close>

lemma reap_control_run:
  assumes "itransfers (uctx s) t = Some it" "xtype (user it) = TRANSFER_TYPE_CONTROL"
    and "privs s t = Some p" "urbs p = Some (b, [u])" "u_buffer u = 0" "reap_action p = NORMAL"
    and "r_status a = 0" "8 + length (r_data a) \<le> length (buffer (user it))"
    and "set (flying (uctx s)) \<subseteq> dom (itransfers (uctx s))" "\<not> timer_broken (uctx s)"
  defines "it2 \<equiv> set_buffer it (take 8 (buffer (user it)) @ r_data a @ drop (8 + length (r_data a)) (buffer (user it)))
      \<lparr>i_transferred := r_actual a\<rparr>"
  shows "\<exists>s' ar. reap_control (t, b, 0) a s = Inr (0, s') \<and> pending s' = remove1 (t, b, 0) (pending s)
    \<and> uctx s' = complete_user t it2 TRANSFER_COMPLETED ((uctx s)\<lparr>flying := remove1 t (flying (uctx s)), armed := ar\<rparr>)"
proof -
  let ?buf = "take 8 (buffer (user it)) @ r_data a @ drop (8 + length (r_data a)) (buffer (user it))"
  let ?ctx = "(uctx s)\<lparr>itransfers := (itransfers (uctx s))(t \<mapsto> it2)\<rparr>"
  have len: "min (length (buffer (user it))) 8 = 8" using assms(8) by simp
  have store: "store_at 0 (take 8 (buffer (user it)) @ r_data a) (buffer (user it)) = Inr ?buf"
    using assms(8) len by (simp add: store_at_def add.commute)
  from completion_told [of ?ctx t it2 TRANSFER_COMPLETED] assms(9,10) obtain ar where
    c: "usbi_handle_transfer_completion t TRANSFER_COMPLETED ?ctx
      = Inr (0, complete_user t it2 TRANSFER_COMPLETED (?ctx\<lparr>flying := remove1 t (flying (uctx s)), armed := ar\<rparr>))"
    by (auto simp: timer_broken_def settime_ok_def)
  have same: "complete_user t it2 TRANSFER_COMPLETED (?ctx\<lparr>flying := remove1 t (flying (uctx s)), armed := ar\<rparr>)
      = complete_user t it2 TRANSFER_COMPLETED ((uctx s)\<lparr>flying := remove1 t (flying (uctx s)), armed := ar\<rparr>)"
    by (simp add: complete_user_def Let_def)
  have "set_buffer it ?buf\<lparr>i_transferred := r_actual a\<rparr> = it2" by (simp add: it2_def)
  then show ?thesis using assms(1-7) store c same
    by (auto simp: reap_control_def reap_urb_def handle_control_completion_def Let_def put_itransfer_def
        Usbfs.set_priv_def lift_ctx_def set_buffer_def)
qed

lemma control_round_run:
  assumes "itransfers (uctx (fs s)) t = Some it" and "xtype (user it) = TRANSFER_TYPE_CONTROL"
    and "privs (fs s) t = Some p" and "urbs p = Some (b, [u])" and "u_buffer u = 0" and "reap_action p = NORMAL"
    and "set (flying (uctx (fs s))) \<subseteq> dom (itransfers (uctx (fs s)))" and "\<not> timer_broken (uctx (fs s))"
    and "polled (uctx (fs s)) fd" and "find (\<lambda>d. snd d = fd) devs = Some (h, fd)"
    and "ev \<noteq> 0" and "ev AND POLLERR = 0"
    and "poll (pollfds (uctx (fs s))) (timeout_ms tv)
      = \<lparr>p_result = 1, p_eintr = e, p_revents = only fd ev (pollfds (uctx (fs s)))\<rparr>"
    and "gives h s = Reaped (t, b, 0) a rs" and "r_status a = 0"
    and "8 + length (r_data a) \<le> length (buffer (user it))"
  shows "\<exists>s'. handle_events True poll cancel_rc clock devs gives tv s = Inr (0, s')
    \<and> pending (fs s') = remove1 (t, b, 0) (pending (fs s)) \<and> flying (uctx (fs s')) = remove1 t (flying (uctx (fs s)))
    \<and> callbacks (uctx (fs s')) = callbacks (uctx (fs s))
        @ [(t, reported_status (it\<lparr>i_transferred := r_actual a\<rparr>) TRANSFER_COMPLETED, r_actual a)]
    \<and> (xflags (user it) AND TRANSFER_FREE_TRANSFER = 0 \<longrightarrow> (\<exists>it'. itransfers (uctx (fs s')) t = Some it'
        \<and> buffer (user it') = take 8 (buffer (user it)) @ r_data a @ drop (8 + length (r_data a)) (buffer (user it))))"
proof -
  from reap_control_run [OF assms(1-6,15,16,7,8)] obtain f ar where
    f: "reap_control (t, b, 0) a (fs s) = Inr (0, f)" "pending f = remove1 (t, b, 0) (pending (fs s))"
    "uctx f = complete_user t (set_buffer it (take 8 (buffer (user it)) @ r_data a
        @ drop (8 + length (r_data a)) (buffer (user it)))\<lparr>i_transferred := r_actual a\<rparr>)
      TRANSFER_COMPLETED ((uctx (fs s))\<lparr>flying := remove1 t (flying (uctx (fs s))), armed := ar\<rparr>)" by blast
  then obtain s' where s': "reap_for_handle (gives h s) s = Inr (0, s')" "fs s' = f"
    using assms(1,2,14) by (simp add: reap_for_handle_def lift_fs_def Let_def type_defs)
  have "handle_events True poll cancel_rc clock devs gives tv s = op_handle_events devs gives [(fd, ev)] 1 s"
    by (rule one_ready [where poll = poll and tv = tv and e = e, OF assms(9,11,13)])
  also have "\<dots> = Inr (0, s')"
    using assms(10-12) s'(1) by (simp add: op_handle_events.simps(2))
  finally have "handle_events True poll cancel_rc clock devs gives tv s = Inr (0, s')" .
  then show ?thesis using f(2,3) s'(2)
    by (auto simp: complete_user_def Let_def set_buffer_def reported_status_def)
qed

text \<open>C7: a control transfer is completed by a round of events. When the file of the device is ready and
  the kernel gives the one request of the transfer back as successful, the round returns 0, the data
  received is in the buffer behind the setup packet, the request is no longer with the kernel, the
  transfer is not in flight, and it has been reported with the number of bytes the kernel says.\<close>

theorem control_round:
  assumes "itransfers (uctx (fs s)) t = Some it" and "xtype (user it) = TRANSFER_TYPE_CONTROL"
    and "privs (fs s) t = Some p" and "urbs p = Some (b, [u])" and "u_buffer u = 0" and "reap_action p = NORMAL"
    and "set (flying (uctx (fs s))) \<subseteq> dom (itransfers (uctx (fs s)))" and "\<not> timer_broken (uctx (fs s))"
    and "polled (uctx (fs s)) fd" and "find (\<lambda>d. snd d = fd) devs = Some (h, fd)"
    and "ev \<noteq> 0" and "ev AND POLLERR = 0"
    and "poll (pollfds (uctx (fs s))) (timeout_ms tv)
      = \<lparr>p_result = 1, p_eintr = e, p_revents = only fd ev (pollfds (uctx (fs s)))\<rparr>"
    and "gives h s = Reaped (t, b, 0) a rs" and "r_status a = 0"
    and "8 + length (r_data a) \<le> length (buffer (user it))"
  shows "\<exists>s'. handle_events True poll cancel_rc clock devs gives tv s = Inr (0, s')
    \<and> pending (fs s') = remove1 (t, b, 0) (pending (fs s)) \<and> flying (uctx (fs s')) = remove1 t (flying (uctx (fs s)))
    \<and> callbacks (uctx (fs s')) = callbacks (uctx (fs s))
        @ [(t, reported_status (it\<lparr>i_transferred := r_actual a\<rparr>) TRANSFER_COMPLETED, r_actual a)]
    \<and> (xflags (user it) AND TRANSFER_FREE_TRANSFER = 0 \<longrightarrow> (\<exists>it'. itransfers (uctx (fs s')) t = Some it'
        \<and> buffer (user it') = take 8 (buffer (user it)) @ r_data a @ drop (8 + length (r_data a)) (buffer (user it))))"
  by (rule control_round_run [where poll = poll and gives = gives and tv = tv, OF assms])


section \<open>Two devices\<close>

definition two_devices :: iso_fs where
  "two_devices = \<lparr>fs = \<lparr>uctx = sample_context\<lparr>pollfds := [(3, 1), (4, 1), (9, 5)],
       itransfers := (itransfers sample_context)(1 \<mapsto> (sample_transfer 7 5)\<lparr>user :=
         (user (sample_transfer 7 5))\<lparr>buffer := replicate 10 0\<rparr>\<rparr>)\<rparr>,
     privs = [1 \<mapsto> \<lparr>urbs = Some (5, [zero_urb]), reap_action = NORMAL, num_urbs = 1, num_retired = 0\<rparr>,
       2 \<mapsto> \<lparr>urbs = None, reap_action = NORMAL, num_urbs = 0, num_retired = 0\<rparr>,
       3 \<mapsto> \<lparr>urbs = None, reap_action = NORMAL, num_urbs = 0, num_retired = 0\<rparr>],
     next_block = 6, pending = [(1, 5, 0)], discards = []\<rparr>, iso_privs = Map.empty, packet_results = Map.empty\<rparr>"

lemma two_devices_simps [simp]:
  "uctx (fs two_devices) = sample_context\<lparr>pollfds := [(3, 1), (4, 1), (9, 5)],
     itransfers := (itransfers sample_context)(1 \<mapsto> (sample_transfer 7 5)\<lparr>user :=
         (user (sample_transfer 7 5))\<lparr>buffer := replicate 10 0\<rparr>\<rparr>)\<rparr>"
  "privs (fs two_devices) 1 = Some \<lparr>urbs = Some (5, [zero_urb]), reap_action = NORMAL, num_urbs = 1, num_retired = 0\<rparr>"
  "privs (fs two_devices) 3 = Some \<lparr>urbs = None, reap_action = NORMAL, num_urbs = 0, num_retired = 0\<rparr>"
  "pending (fs two_devices) = [(1, 5, 0)]"
  by (simp_all add: two_devices_def)

lemma two_devices_ok: "ordered (uctx (fs two_devices))" "handle_clearable 7 two_devices" "polled (uctx (fs two_devices)) 9"
  "\<not> timer_broken (uctx (fs two_devices))"
proof -
  show "ordered (uctx (fs two_devices))" by (auto simp: ordered_def before_def sample_defs later_def timerisset_def)
  show "handle_clearable 7 two_devices"
    using two_devices_simps(2) [simplified]
    by (simp add: handle_clearable_def clearable_def known_type_def sample_defs flying_of_def zero_transfer_def type_defs)
  show "polled (uctx (fs two_devices)) 9" by (simp add: polled_def sample_defs)
  show "\<not> timer_broken (uctx (fs two_devices))" by (simp add: timer_broken_def settime_ok_def sample_defs)
qed

theorem device_gone_witness:
  "\<exists>s'. handle_events True (\<lambda>ps ms. \<lparr>p_result = 1, p_eintr = False, p_revents = only 9 POLLERR ps\<rparr>) 0
      (0, \<lparr>ts_sec = 0, ts_nsec = 0\<rparr>) [(7, 9)] (\<lambda>h s. Reap_again) timerclear two_devices = Inr (0, s')
    \<and> pollfds (uctx (fs s')) = [(3, 1), (4, 1)] \<and> flying (uctx (fs s')) = [2]
    \<and> callbacks (uctx (fs s')) = [(1, TRANSFER_NO_DEVICE, 4), (3, TRANSFER_NO_DEVICE, 4)]"
proof -
  have "find (\<lambda>d. snd d = 9) [(7 :: addr, 9 :: int)] = Some (7, 9)" by simp
  from device_gone [where poll = "\<lambda>ps ms. \<lparr>p_result = 1, p_eintr = False, p_revents = only 9 POLLERR ps\<rparr>",
      OF two_devices_ok(1-3) this refl, of 0 "(0, \<lparr>ts_sec = 0, ts_nsec = 0\<rparr>)" "\<lambda>h s. Reap_again" timerclear]
    two_devices_ok(4)
  show ?thesis by (auto simp: sample_defs flying_of_def)
qed

theorem control_round_witness:
  "\<exists>s'. handle_events True (\<lambda>ps ms. \<lparr>p_result = 1, p_eintr = False, p_revents = only 9 4 ps\<rparr>) 0
      (0, \<lparr>ts_sec = 0, ts_nsec = 0\<rparr>) [(7, 9)]
      (\<lambda>h s. Reaped (1, 5, 0) \<lparr>r_status = 0, r_actual = 2, r_data = [170, 187]\<rparr> []) timerclear two_devices = Inr (0, s')
    \<and> pending (fs s') = [] \<and> flying (uctx (fs s')) = [2, 3] \<and> callbacks (uctx (fs s')) = [(1, TRANSFER_COMPLETED, 2)]"
proof -
  let ?it = "(sample_transfer 7 5)\<lparr>user := (user (sample_transfer 7 5))\<lparr>buffer := replicate 10 0\<rparr>\<rparr>"
  have it: "itransfers (uctx (fs two_devices)) 1 = Some ?it" by simp
  have f: "find (\<lambda>d. snd d = 9) [(7 :: addr, 9 :: int)] = Some (7, 9)" by simp
  have "reported_status (?it\<lparr>i_transferred := 2\<rparr>) TRANSFER_COMPLETED = TRANSFER_COMPLETED"
    by (simp add: reported_status_def sample_defs zero_transfer_def)
  moreover note control_round [where poll = "\<lambda>ps ms. \<lparr>p_result = 1, p_eintr = False, p_revents = only 9 4 ps\<rparr>"
      and gives = "\<lambda>h s. Reaped (1, 5, 0) \<lparr>r_status = 0, r_actual = 2, r_data = [170, 187]\<rparr> []"
      and u = zero_urb and cancel_rc = 0 and clock = "(0, \<lparr>ts_sec = 0, ts_nsec = 0\<rparr>)" and tv = timerclear,
      OF it _ two_devices_simps(2) _ _ _ _ two_devices_ok(4,3) f _ _ refl refl]
  ultimately show ?thesis
    by (auto simp: sample_defs zero_urb_def zero_transfer_def type_defs POLLERR_def)
qed


section \<open>The end of a wait\<close>

text \<open>The time until which \<open>libusb_wait_for_event\<close> waits for another thread.\<close>

definition wait_deadline :: "timespec \<Rightarrow> timeval \<Rightarrow> timespec" where
  "wait_deadline now tv =
     (let sec = ts_sec now + tv_sec tv; nsec = ts_nsec now + tv_usec tv * 1000
      in if nsec > 1000000000 then \<lparr>ts_sec = sec + 1, ts_nsec = nsec - 1000000000\<rparr>
         else \<lparr>ts_sec = sec, ts_nsec = nsec\<rparr>)"

text \<open>The deadline is the right time; but a full second is not carried, and then \<open>pthread_cond_timedwait\<close>
  refuses it and does not wait.\<close>

lemma wait_deadline_time:
  "ts_sec (wait_deadline now tv) * 1000000000 + ts_nsec (wait_deadline now tv)
    = ts_sec now * 1000000000 + ts_nsec now + tv_sec tv * 1000000000 + tv_usec tv * 1000"
  by (simp add: wait_deadline_def Let_def)

lemma wait_deadline_invalid:
  "ts_nsec (wait_deadline \<lparr>ts_sec = s, ts_nsec = 500000000\<rparr> \<lparr>tv_sec = 0, tv_usec = 500000\<rparr>) = 1000000000"
  by (simp add: wait_deadline_def)

definition libusb_pollfds_handle_timeouts :: "usb_context \<Rightarrow> bool" where
  "libusb_pollfds_handle_timeouts ctx \<longleftrightarrow> timerfd_built ctx \<and> using_timerfd ctx"


section \<open>Blocks of transfers\<close>

text \<open>A new transfer is a zeroed block, with its private data; \<open>block\<close> is its address, if there is memory.\<close>

definition zero_itransfer :: "nat \<Rightarrow> itransfer" where
  "zero_itransfer n = \<lparr>deadline = timerclear, timed_out = False, i_transferred = 0,
     user = zero_transfer\<lparr>iso_packet_desc := replicate n 0\<rparr>\<rparr>"

definition libusb_alloc_transfer :: "addr option \<Rightarrow> nat \<Rightarrow> iso_fs \<Rightarrow> ptr \<times> iso_fs" where
  "libusb_alloc_transfer block iso_packets s = (case block of
       None \<Rightarrow> (None, s)
     | Some a \<Rightarrow> (Some a, s\<lparr>fs := (fs s)\<lparr>
           uctx := (uctx (fs s))\<lparr>itransfers := (itransfers (uctx (fs s)))(a \<mapsto> zero_itransfer iso_packets)\<rparr>,
           privs := (privs (fs s))(a \<mapsto> \<lparr>urbs = None, reap_action = NORMAL, num_urbs = 0, num_retired = 0\<rparr>)\<rparr>,
         iso_privs := (iso_privs s)(a \<mapsto> \<lparr>iso_urbs = None, iso_num_urbs = 0, iso_num_retired = 0,
           iso_action = NORMAL, iso_packet_offset = 0\<rparr>),
         packet_results := (packet_results s)(a \<mapsto> replicate iso_packets \<lparr>ir_actual = 0, ir_status = 0\<rparr>)\<rparr>))"

text \<open>The buffer is not part of the block; whether it is freed as well does not show here.\<close>

definition libusb_free_transfer :: "ptr \<Rightarrow> iso_fs \<Rightarrow> fault + iso_fs" where
  "libusb_free_transfer p s = (case p of
       None \<Rightarrow> Inr s
     | Some a \<Rightarrow> bindF (deref (itransfers (uctx (fs s))) (Some a)) (\<lambda>_. Inr (s\<lparr>fs := (fs s)\<lparr>
           uctx := (uctx (fs s))\<lparr>itransfers := (itransfers (uctx (fs s)))(a := None)\<rparr>,
           privs := (privs (fs s))(a := None)\<rparr>,
         iso_privs := (iso_privs s)(a := None), packet_results := (packet_results s)(a := None)\<rparr>)))"

text \<open>Freeing undoes the allocation. Nothing keeps the user from freeing a transfer in flight: its completion
  then finds freed memory.\<close>

lemma alloc_free:
  assumes "itransfers (uctx (fs s)) a = None" "privs (fs s) a = None" "iso_privs s a = None" "packet_results s a = None"
  shows "libusb_free_transfer (Some a) (snd (libusb_alloc_transfer (Some a) n s)) = Inr s"
  using assms by (simp add: libusb_alloc_transfer_def libusb_free_transfer_def fun_upd_idem)

lemma free_in_flight:
  "libusb_free_transfer (Some a) s = Inr s' \<Longrightarrow>
    usbi_handle_transfer_completion a st (uctx (fs s')) = Inl UseAfterFree"
  by (auto simp: libusb_free_transfer_def usbi_handle_transfer_completion_def elim!: bindF_InrE)

text \<open>A transfer fresh from \<open>libusb_alloc_transfer\<close> can be submitted: no request of it is pending.\<close>

lemma fresh_not_busy:
  assumes "libusb_alloc_transfer (Some a) n s = (p, s')"
  shows "\<exists>q. privs (fs s') a = Some q \<and> urbs q = None \<and> clearable a s'"
  using assms by (auto simp: libusb_alloc_transfer_def clearable_def zero_itransfer_def zero_transfer_def type_defs)

end
