(* ===== verification/Contexts.thy ===== *)
theory Contexts
  imports Libusb_Types
begin

text \<open>
  The life of a context: \<open>libusb_init\<close> and \<open>libusb_exit\<close> (\<open>core.c\<close>) with \<open>usbi_io_init\<close> and \<open>usbi_io_exit\<close> (\<open>io.c\<close>),
  the default context, and the filter of log messages. The state is what the library holds: the file
  descriptors it has opened, the entries of the sets of polled files, and the blocks of the contexts.
\<close>

section \<open>The state\<close>

text \<open>The fields of \<open>struct libusb_context\<close> these functions use; \<open>left_open\<close> is whether handles are open.\<close>

record context_data =
  debug :: int
  debug_fixed :: int
  ctrl_fds :: "int \<times> int"
  timerfd :: int
  poll_list :: "int list"

record library =
  open_fds :: "int list"
  poll_entries :: nat
  contexts :: "addr \<rightharpoonup> context_data"
  default_context :: ptr

definition cleared_context :: context_data where
  "cleared_context = \<lparr>debug = 0, debug_fixed = 0, ctrl_fds = (0, 0), timerfd = 0, poll_list = []\<rparr>"

text \<open>What the system answers: the pipe, if it can be made, the timer descriptor, negative if there is none,
  and which of the entries for polled files can be allocated.\<close>

record io_env =
  pipe_fds :: "(int \<times> int) option"
  timer_built :: bool
  timer_fd :: int
  entry_ok :: "nat \<Rightarrow> bool"

section \<open>Polled files and the control pipe\<close>

definition add_entry :: "bool \<Rightarrow> int \<Rightarrow> context_data \<times> library \<Rightarrow> int \<times> context_data \<times> library" where
  "add_entry ok fd x = (case x of (c, l) \<Rightarrow>
     if ok then (0, c\<lparr>poll_list := poll_list c @ [fd]\<rparr>, l\<lparr>poll_entries := poll_entries l + 1\<rparr>)
     else (rc LIBUSB_ERROR_NO_MEM, c, l))"

definition remove_entry :: "int \<Rightarrow> context_data \<times> library \<Rightarrow> context_data \<times> library" where
  "remove_entry fd x = (case x of (c, l) \<Rightarrow>
     if fd \<in> set (poll_list c) then (c\<lparr>poll_list := remove1 fd (poll_list c)\<rparr>, l\<lparr>poll_entries := poll_entries l - 1\<rparr>)
     else (c, l))"

definition close_fd :: "int \<Rightarrow> library \<Rightarrow> library" where
  "close_fd fd l = l\<lparr>open_fds := remove1 fd (open_fds l)\<rparr>"

definition usbi_io_init :: "io_env \<Rightarrow> context_data \<times> library \<Rightarrow> int \<times> context_data \<times> library" where
  "usbi_io_init env x = (case x of (c, l) \<Rightarrow>
     (case pipe_fds env of
        None \<Rightarrow> (rc LIBUSB_ERROR_OTHER, c, l)
      | Some (a, b) \<Rightarrow>
          let c1 = c\<lparr>ctrl_fds := (a, b)\<rparr>; l1 = l\<lparr>open_fds := a # b # open_fds l\<rparr>
          in case add_entry (entry_ok env 0) a (c1, l1) of (r, c2, l2) \<Rightarrow>
             if r < 0 then (r, c2, l2)
             else if \<not> timer_built env then (0, c2, l2)
             else if timer_fd env \<ge> 0
             then case add_entry (entry_ok env 1) (timer_fd env)
                     (c2\<lparr>timerfd := timer_fd env\<rparr>, l2\<lparr>open_fds := timer_fd env # open_fds l2\<rparr>) of (r, c3, l3) \<Rightarrow>
               if r < 0 then (r, c3, close_fd (timer_fd env) l3) else (0, c3, l3)
             else (0, c2\<lparr>timerfd := -1\<rparr>, l2)))"

definition usbi_io_exit :: "bool \<Rightarrow> context_data \<times> library \<Rightarrow> context_data \<times> library" where
  "usbi_io_exit built x =
     (case remove_entry (fst (ctrl_fds (fst x))) x of (c, l) \<Rightarrow>
        let l1 = close_fd (snd (ctrl_fds c)) (close_fd (fst (ctrl_fds c)) l)
        in if built \<and> timerfd c \<ge> 0
           then case remove_entry (timerfd c) (c, l1) of (c2, l2) \<Rightarrow> (c2, close_fd (timerfd c2) l2)
           else (c, l1))"

section \<open>Contexts\<close>

definition first_context :: "int option \<Rightarrow> context_data" where
  "first_context dbg = (case dbg of None \<Rightarrow> cleared_context
     | Some d \<Rightarrow> cleared_context\<lparr>debug := d, debug_fixed := (if d \<noteq> 0 then 1 else 0)\<rparr>)"


text \<open>\<open>dbg\<close> is the number in \<open>LIBUSB_DEBUG\<close>, if it is set, \<open>block\<close> the address of the new block, if there is one,
  and \<open>backend_rc\<close> what the backend's \<open>init\<close> answers. The result says which context the caller is given;
  \<open>wanted\<close> is whether the caller asks for it.\<close>

definition libusb_init ::
    "int option \<Rightarrow> addr option \<Rightarrow> int \<Rightarrow> io_env \<Rightarrow> bool \<Rightarrow> library \<Rightarrow> int \<times> ptr \<times> library" where
  "libusb_init dbg block backend_rc env wanted l =
     (case block of
        None \<Rightarrow> (rc LIBUSB_ERROR_NO_MEM, None, l)
      | Some a \<Rightarrow>
          let c = first_context dbg
          in if backend_rc \<noteq> 0 then (backend_rc, None, l)
             else case usbi_io_init env (c, l) of (r, c1, l1) \<Rightarrow>
               if r < 0 then (r, None, l1)
               else (0, if wanted then Some a else None,
                 l1\<lparr>contexts := (contexts l1)(a \<mapsto> c1),
                    default_context := (if default_context l1 = None then Some a else default_context l1)\<rparr>))"

text \<open>Functions that are given no context take the default one.\<close>

definition get_context :: "ptr \<Rightarrow> library \<Rightarrow> ptr" where
  "get_context p l = (if p = None then default_context l else p)"

definition libusb_exit :: "bool \<Rightarrow> ptr \<Rightarrow> library \<Rightarrow> fault + library" where
  "libusb_exit built p l =
     bindF (deref (contexts l) (get_context p l)) (\<lambda>(a, c).
       case usbi_io_exit built (c, l) of (c1, l1) \<Rightarrow>
         Inr (l1\<lparr>default_context := (if default_context l1 = Some a then None else default_context l1),
                 contexts := (contexts l1)(a := None)\<rparr>))"

definition libusb_set_debug :: "ptr \<Rightarrow> int \<Rightarrow> library \<Rightarrow> fault + library" where
  "libusb_set_debug p level l =
     bindF (deref (contexts l) (get_context p l)) (\<lambda>(a, c).
       Inr (if debug_fixed c = 0 then l\<lparr>contexts := (contexts l)(a \<mapsto> c\<lparr>debug := level\<rparr>)\<rparr> else l))"

text \<open>Whether a message is printed, and where: \<open>False\<close> is the standard output. \<open>always\<close> is the build with all
  debug messages.\<close>

datatype log_level = LOG_DEBUG | LOG_INFO | LOG_WARNING | LOG_ERROR

definition usbi_log :: "bool \<Rightarrow> ptr \<Rightarrow> log_level \<Rightarrow> library \<Rightarrow> fault + bool option" where
  "usbi_log always p level l =
     bindF (if always then Inr True
            else bindF (deref (contexts l) (get_context p l)) (\<lambda>(_, c).
              Inr (\<not> (debug c = 0 \<or> level = LOG_WARNING \<and> debug c < 2 \<or> level = LOG_INFO \<and> debug c < 3))))
       (\<lambda>shown. Inr (if \<not> shown then None else Some (level \<noteq> LOG_INFO)))"

section \<open>Properties\<close>

definition fresh_fds :: "io_env \<Rightarrow> library \<Rightarrow> bool" where
  "fresh_fds env l \<longleftrightarrow> (case pipe_fds env of None \<Rightarrow> True | Some (a, b) \<Rightarrow> a \<noteq> b
     \<and> (timer_fd env \<ge> 0 \<longrightarrow> timer_fd env \<noteq> a \<and> timer_fd env \<noteq> b))"

lemma io_init_exit:
  assumes "usbi_io_init env (c, l) = (0, c1, l1)" "fresh_fds env l" "poll_list c = []" "l2 = l1\<lparr>contexts := m, default_context := d\<rparr>"
  shows "\<exists>c3. usbi_io_exit (timer_built env) (c1, l2) = (c3, l\<lparr>contexts := m, default_context := d\<rparr>)"
  using assms
  by (auto simp: usbi_io_init_def usbi_io_exit_def add_entry_def remove_entry_def close_fd_def Let_def fresh_fds_def
      split: option.splits if_splits prod.splits)

lemma io_init_same:
  "usbi_io_init env (c, l) = (r, c1, l1) \<Longrightarrow> contexts l1 = contexts l \<and> default_context l1 = default_context l"
  by (auto simp: usbi_io_init_def add_entry_def close_fd_def Let_def split: option.splits if_splits prod.splits)

lemma io_init_code: "usbi_io_init env (c, l) = (r, c1, l1) \<Longrightarrow> r = 0 \<or> r < 0"
  by (auto simp: usbi_io_init_def add_entry_def close_fd_def Let_def split: option.splits if_splits prod.splits)

text \<open>C39: a context leaves nothing behind. When \<open>libusb_init\<close> succeeds, \<open>libusb_exit\<close> of the context puts the
  library back into the state it had before: the descriptors it opened are closed, the entries of the
  polled files freed, the block of the context is gone and the default context is what it was.\<close>

theorem init_exit_identity:
  assumes "libusb_init dbg (Some a) backend_rc env wanted l = (0, p, l1)" and "contexts l a = None"
    and "default_context l \<noteq> Some a" and "fresh_fds env l"
  shows "libusb_exit (timer_built env) (Some a) l1 = Inr l"
proof -
  obtain r c1 l0 where io: "usbi_io_init env (first_context dbg, l) = (r, c1, l0)" by (metis prod_cases3)
  then have r: "r = 0" and l1: "l1 = l0\<lparr>contexts := (contexts l0)(a \<mapsto> c1),
      default_context := (if default_context l0 = None then Some a else default_context l0)\<rparr>"
    using assms(1) io_init_code [OF io] by (auto simp: libusb_init_def Let_def split: if_splits)
  note same = io_init_same [OF io]
  have "poll_list (first_context dbg) = []" by (simp add: first_context_def cleared_context_def split: option.split)
  from io_init_exit [OF io [unfolded r] assms(4) this l1] obtain c3 where
    "usbi_io_exit (timer_built env) (c1, l1) = (c3, l\<lparr>contexts := (contexts l0)(a \<mapsto> c1),
      default_context := (if default_context l0 = None then Some a else default_context l0)\<rparr>)" by blast
  moreover have "(contexts l)(a := None) = contexts l" using assms(2) by (simp add: fun_upd_idem)
  ultimately show ?thesis
    using assms(3) same l1 by (simp add: libusb_exit_def get_context_def)
qed

definition some_env :: io_env where
  "some_env = \<lparr>pipe_fds = Some (3, 4), timer_built = True, timer_fd = 5, entry_ok = (\<lambda>n. True)\<rparr>"

definition empty_library :: library where
  "empty_library = \<lparr>open_fds = [], poll_entries = 0, contexts = Map.empty, default_context = None\<rparr>"

lemma some_init:
  "libusb_init (Some 2) (Some 7) 0 some_env True empty_library = (0, Some 7, \<lparr>open_fds = [5, 3, 4], poll_entries = 2,
     contexts = [7 \<mapsto> \<lparr>debug = 2, debug_fixed = 1, ctrl_fds = (3, 4), timerfd = 5, poll_list = [3, 5]\<rparr>],
     default_context = Some 7\<rparr>)"
  by (simp add: libusb_init_def usbi_io_init_def add_entry_def some_env_def empty_library_def first_context_def cleared_context_def)

theorem init_exit_identity_witness:
  "libusb_exit True (Some 7) (snd (snd (libusb_init (Some 2) (Some 7) 0 some_env True empty_library))) = Inr empty_library"
proof -
  have "contexts empty_library 7 = None" "default_context empty_library \<noteq> Some 7" "fresh_fds some_env empty_library"
    "timer_built some_env"
    by (simp_all add: fresh_fds_def some_env_def empty_library_def)
  then show ?thesis using init_exit_identity [OF some_init] unfolding some_init by simp
qed

text \<open>Calls of an application: an initialisation with the answers it gets, or the end of a context.\<close>

datatype life = Init "int option" "addr option" int io_env bool | Exit bool ptr

fun live :: "life list \<Rightarrow> library \<Rightarrow> fault + library" where
  "live [] l = Inr l"
| "live (Init dbg block brc env wanted # xs) l = live xs (snd (snd (libusb_init dbg block brc env wanted l)))"
| "live (Exit built p # xs) l = bindF (libusb_exit built p l) (live xs)"

definition default_alive :: "library \<Rightarrow> bool" where
  "default_alive l \<longleftrightarrow> (\<forall>a. default_context l = Some a \<longrightarrow> contexts l a \<noteq> None)"

lemma io_exit_same:
  "usbi_io_exit built (c, l) = (c1, l1) \<Longrightarrow> contexts l1 = contexts l \<and> default_context l1 = default_context l"
  by (auto simp: usbi_io_exit_def remove_entry_def close_fd_def Let_def split: option.splits if_splits prod.splits)

lemma init_default_alive: "default_alive l \<Longrightarrow> default_alive (snd (snd (libusb_init dbg block brc env wanted l)))"
  by (auto simp: libusb_init_def Let_def default_alive_def dest!: io_init_same split: option.splits prod.splits)

lemma exit_default_alive: "default_alive l \<Longrightarrow> libusb_exit built p l = Inr l' \<Longrightarrow> default_alive l'"
  by (auto simp: libusb_exit_def default_alive_def deref_eq_Inr dest!: io_exit_same elim!: bindF_InrE split: prod.splits if_splits)

text \<open>The default context is alive. Whatever contexts an application makes and ends, in any order and
  with any failures, the default context is never one whose block has been freed.\<close>

theorem default_stays_alive:
  assumes "default_alive l" and "live xs l = Inr l'"
  shows "default_alive l'"
  using assms
proof (induction xs l rule: live.induct)
  case (2 dbg block brc env wanted xs l)
  then show ?case using init_default_alive by simp
next
  case (3 built p xs l)
  then show ?case using exit_default_alive by (auto elim!: bindF_InrE)
qed simp

theorem default_stays_alive_witness:
  "\<exists>l'. live [Init (Some 2) (Some 7) 0 some_env True, Exit True None] empty_library = Inr l' \<and> default_alive l'"
proof -
  have "default_alive empty_library" by (simp add: default_alive_def empty_library_def)
  moreover have "live [Init (Some 2) (Some 7) 0 some_env True, Exit True None] empty_library = Inr empty_library"
    unfolding live.simps some_init
    by (simp add: libusb_exit_def get_context_def usbi_io_exit_def remove_entry_def close_fd_def empty_library_def)
  ultimately show ?thesis using default_stays_alive by blast
qed

text \<open>An initialisation that fails behind the making of the pipe leaves its two ends open, and the entry of
  the control pipe allocated, with no context that knows of them.\<close>

lemma failed_init_leaks:
  "libusb_init None (Some 7) 0 (some_env\<lparr>entry_ok := (\<lambda>n. n = 0)\<rparr>) True empty_library
    = (rc LIBUSB_ERROR_NO_MEM, None, empty_library\<lparr>open_fds := [3, 4], poll_entries := 1\<rparr>)"
  by (simp add: libusb_init_def usbi_io_init_def add_entry_def close_fd_def some_env_def empty_library_def first_context_def cleared_context_def)

text \<open>A second initialisation of the default context makes a context that nobody is given.\<close>

lemma second_init_lost:
  "default_context l = Some b \<Longrightarrow> libusb_init dbg (Some a) brc env False l = (0, p, l')
    \<Longrightarrow> p = None \<and> default_context l' = Some b \<and> (b \<noteq> a \<longrightarrow> contexts l' a \<noteq> None)"
  by (auto simp: libusb_init_def Let_def dest!: io_init_same split: prod.splits if_splits)

end
