(* ===== verification/SyncEvents.thy ===== *)
theory SyncEvents
  imports Events
begin

text \<open>
  The synchronous transfers on top of the event handling. \<open>SyncIo\<close> takes the rounds of events of a call as
  a script; here the waiting loops of \<open>sync.c\<close> run on the rounds modelled in \<open>Events\<close>, down to what \<open>poll\<close> and
  the kernel answer, and the script is what these rounds do.
\<close>

section \<open>Rounds\<close>

text \<open>What the surroundings answer in a call of \<open>libusb_handle_events\<close>: whether there is memory for the poll set,
  \<open>poll\<close>, the backend's answer to the cancellation of expired transfers, the clock, what is on the stack,
  and what the kernel gives back. \<open>discard\<close> is its answer to the discard of a request.\<close>

record round =
  r_granted :: bool
  r_poll :: "(int \<times> int) list \<Rightarrow> int \<Rightarrow> poll_answer"
  r_cancel :: int
  r_clock :: "int \<times> timespec"
  r_stack :: timeval
  r_gives :: "addr \<Rightarrow> iso_fs \<Rightarrow> reap_answer"
  r_discard :: "int \<times> bool"

text \<open>A thread that finds the lock of the event handler free handles events itself, for at most a minute.\<close>

definition libusb_handle_events :: "(addr \<times> int) list \<Rightarrow> round \<Rightarrow> iso_fs \<Rightarrow> fault + int \<times> iso_fs" where
  "libusb_handle_events devs x s = libusb_handle_events_locked (r_granted x) (r_poll x) (r_cancel x) (r_clock x)
     (r_stack x) devs (r_gives x) \<lparr>tv_sec = 60, tv_usec = 0\<rparr> s"

text \<open>The flag \<open>completed\<close> that the callback of the transfer sets, with what the transfer then says.\<close>

definition reported :: "addr \<Rightarrow> iso_fs \<Rightarrow> (transfer_status \<times> nat) option" where
  "reported t s = map_option (\<lambda>(_, st, n). (st, nat n)) (find (\<lambda>c. fst c = t) (callbacks (uctx (fs s))))"

section \<open>The loops\<close>

fun drain_events ::
    "(addr \<times> int) list \<Rightarrow> round list \<Rightarrow> addr \<Rightarrow> iso_fs \<Rightarrow> fault + (transfer_status \<times> nat) option \<times> iso_fs" where
  "drain_events devs [] t s = (if reported t s \<noteq> None then Inr (reported t s, s) else Inl Blocked)"
| "drain_events devs (x # xs) t s =
     (if reported t s \<noteq> None then Inr (reported t s, s)
      else bindF (libusb_handle_events devs x s) (\<lambda>(r, s1).
        if r < 0 then Inr (reported t s1, s1) else drain_events devs xs t s1))"

fun wait_events :: "(addr \<times> int) list \<Rightarrow> round list \<Rightarrow> addr \<Rightarrow> iso_fs \<Rightarrow> fault + wait_end \<times> iso_fs" where
  "wait_events devs [] t s = (case reported t s of None \<Rightarrow> Inl Blocked | Some (st, n) \<Rightarrow> Inr (Done st n, s))"
| "wait_events devs (x # xs) t s =
     (case reported t s of
        Some (st, n) \<Rightarrow> Inr (Done st n, s)
      | None \<Rightarrow> bindF (libusb_handle_events devs x s) (\<lambda>(r, s1).
          if r < 0
          then if r = rc LIBUSB_ERROR_INTERRUPTED then wait_events devs xs t s1
               else bindF (op_cancel_transfer (r_discard x) t s1) (\<lambda>(_, s2).
                    bindF (drain_events devs xs t s2) (\<lambda>(c, s3). Inr (Aborted r c, s3)))
          else wait_events devs xs t s1))"

section \<open>The script of the rounds\<close>

fun drain_script :: "(addr \<times> int) list \<Rightarrow> round list \<Rightarrow> addr \<Rightarrow> iso_fs \<Rightarrow> poll list" where
  "drain_script devs [] t s = []"
| "drain_script devs (x # xs) t s = (case libusb_handle_events devs x s of
       Inl _ \<Rightarrow> []
     | Inr (r, s1) \<Rightarrow> \<lparr>poll_rc = r, poll_done = reported t s1\<rparr> # drain_script devs xs t s1)"

fun script :: "(addr \<times> int) list \<Rightarrow> round list \<Rightarrow> addr \<Rightarrow> iso_fs \<Rightarrow> poll list" where
  "script devs [] t s = []"
| "script devs (x # xs) t s = (case libusb_handle_events devs x s of
       Inl _ \<Rightarrow> []
     | Inr (r, s1) \<Rightarrow> \<lparr>poll_rc = r, poll_done = reported t s1\<rparr> #
         (if r < 0 \<and> r \<noteq> rc LIBUSB_ERROR_INTERRUPTED
          then case op_cancel_transfer (r_discard x) t s1 of Inl _ \<Rightarrow> [] | Inr (_, s2) \<Rightarrow> drain_script devs xs t s2
          else script devs xs t s1))"

lemma cancel_callbacks:
  "cancel_control_transfer d t f = Inr (r, f1) \<Longrightarrow> uctx f1 = uctx f"
  "cancel_bulk_transfer t f = Inr (r, f1) \<Longrightarrow> uctx f1 = uctx f"
  "cancel_iso_transfer t s = Inr (r, s1) \<Longrightarrow> uctx (fs s1) = uctx (fs s)"
  by (auto simp: cancel_control_transfer_def cancel_bulk_transfer_def cancel_iso_transfer_def Let_def
      Usbfs.set_priv_def set_iso_def elim!: bindF_InrE split: if_splits option.splits prod.splits)

lemma cancel_reported: "op_cancel_transfer d t s = Inr (r, s1) \<Longrightarrow> reported x s1 = reported x s"
  by (auto simp: op_cancel_transfer_def lift_fs_def reported_def Let_def dest!: cancel_callbacks
      elim!: bindF_InrE split: if_splits)

lemma drain_refines:
  "drain_events devs xs t s = Inr (c, s') \<Longrightarrow> drain (drain_script devs xs t s) (reported t s) = Inr c"
proof (induction devs xs t s rule: drain_events.induct)
  case (1 devs t s)
  then show ?case by (cases "reported t s"; cases c) simp_all
next
  case (2 devs x xs t s)
  show ?case
  proof (cases "reported t s")
    case None
    then obtain r s1 where round: "libusb_handle_events devs x s = Inr (r, s1)"
      using "2.prems" by (auto elim!: bindF_InrE)
    show ?thesis
    proof (cases "r < 0")
      case True
      then show ?thesis using None round "2.prems" by auto
    next
      case False
      then have "drain_events devs xs t s1 = Inr (c, s')" using None round "2.prems" by simp
      then have "drain (drain_script devs xs t s1) (reported t s1) = Inr c"
        using "2.IH" [OF _ round refl] None False by simp
      then show ?thesis using None False round by simp
    qed
  qed (use "2.prems" in \<open>cases c; simp\<close>)
qed

lemma wait_refines: "wait_events devs xs t s = Inr (e, s') \<Longrightarrow> sync_wait (script devs xs t s) (reported t s) = Inr e"
proof (induction devs xs t s rule: wait_events.induct)
  case (1 devs t s)
  then show ?case by (cases "reported t s") (auto split: prod.splits)
next
  case (2 devs x xs t s)
  show ?case
  proof (cases "reported t s")
    case None
    then obtain r s1 where round: "libusb_handle_events devs x s = Inr (r, s1)"
      using "2.prems" by (auto elim!: bindF_InrE)
    show ?thesis
    proof (cases "r < 0 \<and> r \<noteq> rc LIBUSB_ERROR_INTERRUPTED")
      case True
      with "2.prems" None round have "bindF (op_cancel_transfer (r_discard x) t s1) (\<lambda>(_, s2).
          bindF (drain_events devs xs t s2) (\<lambda>(c, s3). Inr (Aborted r c, s3))) = Inr (e, s')" by simp
      then obtain a s2 c where abort: "op_cancel_transfer (r_discard x) t s1 = Inr (a, s2)"
        "drain_events devs xs t s2 = Inr (c, s')" "e = Aborted r c"
        by (elim bindF_InrE) (simp split: prod.splits; elim bindF_InrE; simp split: prod.splits)+
      then show ?thesis
        using True None round drain_refines [OF abort(2)] cancel_reported [OF abort(1)] by simp
    next
      case False
      then have "wait_events devs xs t s1 = Inr (e, s')" using "2.prems" None round by (simp split: if_splits)
      then have "sync_wait (script devs xs t s1) (reported t s1) = Inr e"
        using "2.IH" (1) [OF None round refl] "2.IH" (2) [OF None round refl] False
        by blast
      then show ?thesis using False None round by auto
    qed
  next
    case (Some p)
    then show ?thesis using "2.prems" by (cases p) simp
  qed
qed

text \<open>A loop that waits for ever waits for ever on the script: the cancelling itself cannot block.\<close>

lemma cancel_not_blocked: "op_cancel_transfer d t s \<noteq> Inl Blocked"
  by (auto simp: op_cancel_transfer_def lift_fs_def Let_def cancel_control_transfer_def cancel_bulk_transfer_def
      cancel_iso_transfer_def bindF_eq_Inl deref_def split: if_splits option.splits prod.splits)

lemma drain_blocks:
  "drain_events devs xs t s = Inl Blocked \<Longrightarrow> drain (drain_script devs xs t s) (reported t s) = Inl Blocked"
proof (induction devs xs t s rule: drain_events.induct)
  case (1 devs t s)
  then show ?case by (cases "reported t s") simp_all
next
  case (2 devs x xs t s)
  then have None: "reported t s = None" by (cases "reported t s") simp_all
  show ?case
  proof (cases "libusb_handle_events devs x s")
    case Inl
    then show ?thesis using None by simp
  next
    case (Inr y)
    then obtain r s1 where round: "libusb_handle_events devs x s = Inr (r, s1)" by (cases y) simp
    with "2.prems" None have "\<not> r < 0" "drain_events devs xs t s1 = Inl Blocked" by (simp_all split: if_splits)
    then have "drain (drain_script devs xs t s1) (reported t s1) = Inl Blocked"
      using "2.IH" [OF _ round refl] None by simp
    then show ?thesis using None round \<open>\<not> r < 0\<close> by simp
  qed
qed

lemma wait_blocks: "wait_events devs xs t s = Inl Blocked \<Longrightarrow> sync_wait (script devs xs t s) (reported t s) = Inl Blocked"
proof (induction devs xs t s rule: wait_events.induct)
  case (1 devs t s)
  then show ?case by (cases "reported t s") (auto split: prod.splits)
next
  case (2 devs x xs t s)
  then have None: "reported t s = None" by (cases "reported t s") auto
  show ?case
  proof (cases "libusb_handle_events devs x s")
    case Inl
    then show ?thesis using None by simp
  next
    case (Inr y)
    then obtain r s1 where round: "libusb_handle_events devs x s = Inr (r, s1)" by (cases y) simp
    show ?thesis
    proof (cases "r < 0 \<and> r \<noteq> rc LIBUSB_ERROR_INTERRUPTED")
      case True
      with "2.prems" None round obtain a s2 where abort: "op_cancel_transfer (r_discard x) t s1 = Inr (a, s2)"
        "drain_events devs xs t s2 = Inl Blocked"
        by (auto simp: bindF_eq_Inl cancel_not_blocked)
      then show ?thesis using True None round drain_blocks [OF abort(2)] cancel_reported [OF abort(1)] by simp
    next
      case False
      then have "wait_events devs xs t s1 = Inl Blocked" using "2.prems" None round by (simp split: if_splits)
      then have "sync_wait (script devs xs t s1) (reported t s1) = Inl Blocked"
        using "2.IH" (1) [OF None round refl] "2.IH" (2) [OF None round refl] False by blast
      then show ?thesis using False None round by auto
    qed
  qed
qed

text \<open>The synchronous loop is what its specification says. Whatever \<open>poll\<close> and the kernel answer
  in the rounds of the event handling, the waiting loop of a synchronous transfer ends as the loop on the script of
  these rounds does, and if it waits for ever, so does that one. Otherwise the event handling has reached memory
  it may not use.\<close>

theorem sync_wait_refined:
  "case wait_events devs xs t s of
     Inr (e, s') \<Rightarrow> sync_wait (script devs xs t s) (reported t s) = Inr e
   | Inl f \<Rightarrow> if f = Blocked then sync_wait (script devs xs t s) (reported t s) = Inl Blocked else True"
  using wait_refines [of devs xs t s] wait_blocks [of devs xs t s] by (simp split: sum.split prod.split)


section \<open>A control transfer to its end\<close>

lemma find_appended: "find P xs = None \<Longrightarrow> find P (xs @ ys) = find P ys"
  by (induction xs) (simp_all split: if_splits)

lemma reported_appended:
  "reported t s = None \<Longrightarrow> callbacks (uctx (fs s')) = callbacks (uctx (fs s)) @ [(t, st, n)]
   \<Longrightarrow> reported t s' = Some (st, nat n)"
  by (auto simp: reported_def find_appended)

text \<open>C2: the wait for a control transfer ends. If its request is with the kernel and \<open>poll\<close> reports the
  file of its device without an error, then one round gives the request back, calls the callback that sets
  \<open>completed\<close>, and the loop of \<open>libusb_control_transfer\<close> ends with the status and the bytes transferred.\<close>

theorem control_wait_ends:
  assumes "itransfers (uctx (fs s)) t = Some it" and "xtype (user it) = TRANSFER_TYPE_CONTROL"
    and "privs (fs s) t = Some p" and "urbs p = Some (b, [u])" and "u_buffer u = 0" and "reap_action p = NORMAL"
    and "set (flying (uctx (fs s))) \<subseteq> dom (itransfers (uctx (fs s)))" and "\<not> timer_broken (uctx (fs s))"
    and "polled (uctx (fs s)) fd" and "find (\<lambda>d. snd d = fd) devs = Some (h, fd)"
    and "ev \<noteq> 0" and "ev AND POLLERR = 0"
    and "get_next_timeout (r_clock x) (r_stack x) \<lparr>tv_sec = 60, tv_usec = 0\<rparr> (uctx (fs s)) = Inr (0, tv)"
    and "r_granted x" and "r_poll x (pollfds (uctx (fs s))) (timeout_ms tv)
      = \<lparr>p_result = 1, p_eintr = e, p_revents = only fd ev (pollfds (uctx (fs s)))\<rparr>"
    and "r_gives x h s = Reaped (t, b, 0) a rs" and "r_status a = 0"
    and "8 + length (r_data a) \<le> length (buffer (user it))" and "reported t s = None"
  shows "\<exists>s'. wait_events devs (x # xs) t s = Inr (Done
      (reported_status (it\<lparr>i_transferred := r_actual a\<rparr>) TRANSFER_COMPLETED) (nat (r_actual a)), s')
    \<and> pending (fs s') = remove1 (t, b, 0) (pending (fs s)) \<and> flying (uctx (fs s')) = remove1 t (flying (uctx (fs s)))"
proof -
  from control_round_run [where poll = "r_poll x" and gives = "r_gives x" and tv = tv and cancel_rc = "r_cancel x"
      and clock = "r_clock x", OF assms(1-12,15-18)] assms(13,14) obtain s' where
    s': "libusb_handle_events devs x s = Inr (0, s')" "pending (fs s') = remove1 (t, b, 0) (pending (fs s))"
      "flying (uctx (fs s')) = remove1 t (flying (uctx (fs s)))"
      "callbacks (uctx (fs s')) = callbacks (uctx (fs s))
        @ [(t, reported_status (it\<lparr>i_transferred := r_actual a\<rparr>) TRANSFER_COMPLETED, r_actual a)]"
    unfolding libusb_handle_events_def libusb_handle_events_locked_def by auto
  moreover have "wait_events devs xs t s' = Inr (Done
      (reported_status (it\<lparr>i_transferred := r_actual a\<rparr>) TRANSFER_COMPLETED) (nat (r_actual a)), s')"
    using reported_appended [OF assms(19) s'(4)] by (cases xs) simp_all
  ultimately show ?thesis using assms(19) by simp
qed

definition sample_round :: round where
  "sample_round = \<lparr>r_granted = True, r_poll = (\<lambda>ps ms. \<lparr>p_result = 1, p_eintr = False, p_revents = only 9 4 ps\<rparr>),
     r_cancel = 0, r_clock = (0, \<lparr>ts_sec = 0, ts_nsec = 0\<rparr>), r_stack = timerclear,
     r_gives = (\<lambda>h s. Reaped (1, 5, 0) \<lparr>r_status = 0, r_actual = 2, r_data = [170, 187]\<rparr> []), r_discard = (0, False)\<rparr>"

lemma sample_round_timeout:
  "get_next_timeout (r_clock sample_round) (r_stack sample_round) \<lparr>tv_sec = 60, tv_usec = 0\<rparr> (uctx (fs two_devices))
   = Inr (0, \<lparr>tv_sec = 60, tv_usec = 0\<rparr>)"
  by code_simp

theorem control_wait_ends_witness:
  "\<exists>s'. wait_events [(7, 9)] [sample_round] 1 two_devices = Inr (Done TRANSFER_COMPLETED 2, s')
    \<and> pending (fs s') = [] \<and> flying (uctx (fs s')) = [2, 3]"
proof -
  let ?it = "(sample_transfer 7 5)\<lparr>user := (user (sample_transfer 7 5))\<lparr>buffer := replicate 10 0\<rparr>\<rparr>"
  have it: "itransfers (uctx (fs two_devices)) 1 = Some ?it" by simp
  have f: "find (\<lambda>d. snd d = 9) [(7 :: addr, 9 :: int)] = Some (7, 9)" by simp
  have "reported_status (?it\<lparr>i_transferred := 2\<rparr>) TRANSFER_COMPLETED = TRANSFER_COMPLETED"
    by (simp add: reported_status_def sample_defs zero_transfer_def)
  moreover note control_wait_ends [where x = sample_round and u = zero_urb and xs = "[]" and e = False and ev = 4
      and a = "\<lparr>r_status = 0, r_actual = 2, r_data = [170, 187]\<rparr>" and rs = "[]",
      OF it _ two_devices_simps(2) _ _ _ _ two_devices_ok(4,3) f _ _ sample_round_timeout]
  ultimately show ?thesis
    by (auto simp: sample_defs zero_urb_def zero_transfer_def type_defs POLLERR_def sample_round_def reported_def)
qed

end
