(* ===== verification/Spec2Isabelle.thy ===== *)
theory Spec2Isabelle
  imports Packet Libusb_Types SyncIo UsbIo Fifo World DList Vendors Devices Transport Session Keycode
    Descriptor Config_Format String_Descriptor Client Commandline Transfers Usbfs Core Sysfs Enumerate
    Endpoints Handles Isochronous Event_Locks Events Contexts SyncEvents
begin

text \<open>
  The program is \<open>zadb\<close> (\<open>zadb/src\<close>), a client that talks the Android debug protocol to a device over
  USB, and the copy of libusb 1.0.8 (\<open>libusb/libusb-1.0-1.0.8/libusb\<close>) it is built on. The development
  models both as functions on explicit state; a computation that may do something C leaves undefined,
  exit or wait for ever returns \<open>fault + 'a\<close>, where \<open>fault\<close> names what went wrong (an access out of
  bounds, a null pointer, memory that has been freed, an exit, an endless wait).

  How the parts work together. \<open>main\<close> (\<open>zadb.c\<close>) starts a thread that scans the bus (\<open>usb_libusb.c\<close>)
  and registers each interface that the vendor table (\<open>usb_vendors.c\<close>) accepts; registering makes the
  transport (\<open>transport_z.c\<close>, \<open>transport_usb.c\<close>), whose reader thread turns bytes into packets and hands
  them to \<open>handle_packet\<close> (\<open>send.c\<close>). That function keeps the identifiers of the one stream and queues
  packets for the command line (\<open>commandline.c\<close>), which prints them, sends commands, and turns key
  presses (\<open>keycode.c\<close>) into commands. Bytes go through the synchronous calls of libusb (\<open>sync.c\<close>), built
  on its asynchronous transfers (\<open>io.c\<close>); what devices are is read from descriptors (\<open>descriptor.c\<close>).

  Theories and code.
  \<^item> \<open>Prelude\<close>: words, bytes, \<open>fault\<close> and its sequencing \<open>bindF\<close>, pointers as \<open>addr option\<close>, \<open>deref\<close>, the C
    string functions used, the collections \<open>fault_simps\<close> and \<open>mem_simps\<close>.
  \<^item> \<open>Packet\<close>: \<open>amessage\<close>, \<open>apacket\<close> (\<open>zadb.h\<close>), \<open>check_header\<close>, \<open>check_data\<close> and the first half of \<open>send_packet\<close>
    (\<open>transport_z.c\<close>), \<open>fix_endians\<close> (\<open>transport_usb.c\<close>), \<open>print_packet\<close> (\<open>send.c\<close>). A finalised packet
    passes both checks, the check is equivalent to the sum of the bytes, and the bytes on the wire do
    not depend on the host.
  \<^item> \<open>Libusb_Types\<close>: error codes, descriptors and transfers of \<open>libusb.h\<close> and its inline functions.
  \<^item> \<open>SyncIo\<close>: \<open>do_sync_bulk_transfer\<close>, \<open>libusb_control_transfer\<close> (\<open>sync.c\<close>). The event machinery is a script
    of polls, each completing the transfer, doing nothing or failing. How a bulk transfer ends for every
    status, failure and cancellation, and that it returns if the script completes it.
  \<^item> \<open>UsbIo\<close>: \<open>usb_read\<close>, \<open>usb_write\<close> (\<open>usb_libusb.c\<close>). The locales \<open>bulk_out_pipe\<close>, \<open>bulk_in_pipe\<close>, \<open>bulk_pipe\<close>
    state what the loops need of one bulk transfer; the interpretation \<open>usb\<close> shows it of the model.
  \<^item> \<open>Fifo\<close>: the locale \<open>fifo_queue\<close>, a queue made of linked cells with a pointer to the last one; it is
    interpreted by the queue of received packets (\<open>World\<close>) and by that of key presses (\<open>Keycode\<close>).
  \<^item> \<open>World\<close>: the packets in memory, \<open>get_apacket\<close>, \<open>put_apacket\<close> and the queue of received packets
    (\<open>send.c\<close>), and the state shared by all the later theories.
  \<^item> \<open>DList\<close>: the circular lists of \<open>libusbi.h\<close>, which implement sequences (locale \<open>linked_list\<close>).
  \<^item> \<open>Vendors\<close>: \<open>usb_vendors_init\<close>, \<open>is_adb_interface\<close>. The table stays in bounds; what is accepted is what
    the file and the built-in table say.
  \<^item> \<open>Devices\<close>: \<open>check_device\<close>, \<open>register_device\<close>, \<open>usb_kick\<close>, \<open>kick_disconnected\<close> (\<open>usb_libusb.c\<close>), with the
    list of handles linked in memory. What libusb answers about one device is the record \<open>dev_script\<close>.
    The registry is an invariant; the serial number is read in bounds and as the device has it.
  \<^item> \<open>Transport\<close>: \<open>send_packet\<close>, \<open>remote_read\<close>, \<open>remote_write\<close>, \<open>kick_transport\<close>. The locale \<open>byte_pipe\<close> is the
    byte stream both ends see. A packet sent to a device that takes it is received whole, and what one side
    sends the other side reads.
  \<^item> \<open>Session\<close>: \<open>send_open\<close>, \<open>send_write\<close>, \<open>handle_packet\<close>, \<open>output_thread\<close>: who owns a packet, and how the stream's
    identifiers are confused.
  \<^item> \<open>Keycode\<close>: \<open>add_keylist\<close>, \<open>send_command\<close>: keys are sent in the order typed.
  \<^item> \<open>Client\<close>: \<open>adb_trace_init\<close>, \<open>device_watch_thread\<close>, \<open>init_and_wait_device\<close>, \<open>main\<close>. The main
    thread waits in seconds, each of which says when the watch thread is given the processor; a clock tells
    whether its own sleeps, three seconds from the connection message to the device counting as found, are
    over.
  \<^item> \<open>Commandline\<close>: \<open>dupAndQuote\<close>, \<open>read_and_dump\<close>, \<open>stdin_read_thread\<close>, \<open>adb_commandline\<close>.
  \<^item> \<open>Descriptor\<close>: \<open>parse_configuration\<close> and its parts, with the allocations it makes; \<open>Config_Format\<close>: the format as a
    grammar, which the parser inverts; \<open>String_Descriptor\<close>: \<open>libusb_get_string_descriptor_ascii\<close>.
  \<^item> \<open>Transfers\<close>: the transfers in flight, their deadlines and completion (\<open>io.c\<close>), and what a disconnection
    means to them.
  \<^item> \<open>Usbfs\<close>: bulk and control transfers as requests to the Linux kernel (\<open>os/linux_usbfs.c\<close>). A bulk transfer is
    cut into requests that cover its buffer, and what they bring is put together without holes.
  \<^item> \<open>Isochronous\<close>: isochronous transfers (\<open>os/linux_usbfs.c\<close>): the packets are distributed over requests, in order
    and without loss, and their results are put back into their places.
  \<^item> \<open>Core\<close>: devices with their reference counts, the array of devices found, the list handed to the user,
    opening and closing, claimed interfaces (\<open>core.c\<close>). The locale \<open>device_scanner\<close> states what \<open>core.c\<close> needs of
    a backend that scans for devices.
  \<^item> \<open>Sysfs\<close>: descriptors of the Linux backend, read from files in sysfs or from the node of the device, down
    to the bytes; what is read is parsed by \<open>Descriptor\<close> into the configuration the files were written from.
  \<^item> \<open>Enumerate\<close>: \<open>op_init\<close> and the enumeration of devices; it interprets \<open>device_scanner\<close>, so that listing devices and
    opening one by its identifiers keep the reference counts right.
  \<^item> \<open>Endpoints\<close>: the search for an endpoint and the packet sizes (\<open>core.c\<close>).
  \<^item> \<open>Handles\<close>: the requests on an open device, from \<open>core.c\<close> to the answers of the kernel: configurations, claimed
    interfaces as the set the kernel has granted, drivers, resets.
  \<^item> \<open>Event_Locks\<close>: how threads share the handling of events (\<open>io.c\<close>) and how \<open>libusb_open\<close> and \<open>libusb_close\<close> interrupt
    it. Each function is cut into steps; \<open>event_step\<close> interleaves any number of threads, \<open>event_reachable\<close> is
    what they can reach. One invariant relates the locks, the counter \<open>pollfd_modify\<close>, the flag and the control
    pipe to where the threads are; exclusion, wake-ups and progress follow from it.
  \<^item> \<open>Events\<close>: a round of events by the thread that has the lock: the polled files, the timer, the requests that
    the kernel gives back, disconnection with the backend. The round is composed of the models of \<open>Transfers\<close>,
    \<open>Usbfs\<close> and \<open>Isochronous\<close>.
  \<^item> \<open>Contexts\<close>: \<open>libusb_init\<close> and \<open>libusb_exit\<close>, whose composition is the identity.
  \<^item> \<open>SyncEvents\<close>: the waiting loops of \<open>sync.c\<close> on the rounds of \<open>Events\<close>. They refine the loops on a script of
    polls of \<open>SyncIo\<close>, and the wait for a control transfer ends when the kernel gives its request back.

  Bounds and fuel. Loops are recursive functions with measures (bytes left, transfers left, entries of
  the table left). Waiting is bounded by the length of what the environment does: a script of polls, a
  list of scheduled seconds or steps, a list of chunks of input; running out of it is the fault \<open>Blocked\<close>, and the
  properties say for which scripts it does not happen. The reader thread runs for a number of rounds.

  What goes wrong in the code is a theorem as well: reads past a descriptor, blocks that are leaked or
  used after they are freed, buffers that overflow, replies that are lost are stated where they happen
  and proved on a concrete input.

  Not modelled: the terminal settings of \<open>commandline.c\<close>; sleeps outside \<open>Client\<close>, and mutexes outside \<open>Event_Locks\<close>, since
  the steps of threads are taken as atomic where the code holds its locks; in \<open>Event_Locks\<close> the calls a
  callback may make while its thread handles events; the notifiers an application may set for polled
  files; which clock the Linux backend chooses; the texts of log messages; the backend
  \<open>os/darwin_usb.c\<close>, which the targets of the program do not use; the examples of libusb, and all that is
  not C. What these answer enters as parameters.
\<close>

end
